(* ===== verification/IX_Prelude.thy ===== *)
theory IX_Prelude
  imports Main "HOL-Library.Word"
begin

text \<open>
  Shared vocabulary of the development: the machine integer types of the C sources, the
  result type in which every undefined behaviour or failed \<open>assert\<close> of the C code is an
  explicit value, little-endian byte access, and the generic lemmas on lists, words and results
  that the component theories use through the collections \<open>ix_res\<close> and \<open>ix_word\<close>.
\<close>

unbundle bit_operations_syntax

named_theorems ix_res \<open>rules that decompose computations in the result type\<close>
named_theorems ix_word \<open>rules that move word arithmetic to the natural numbers\<close>

section \<open>Machine types and results\<close>

type_synonym u8 = "8 word"
type_synonym u16 = "16 word"
type_synonym u32 = "32 word"
type_synonym u64 = "64 word"

type_synonym bytes = "u8 list"

text \<open>
  How a C computation can go wrong: a dereference of a null pointer, an access outside an
  object or to an object that has been freed, a failed \<open>assert\<close>, or a call of \<open>panic\<close>.
\<close>

datatype fault = NullDeref | OutOfBounds | UseAfterFree | AssertFailed | Panicked

type_synonym 'a res = "fault + 'a"

definition rbind :: "'a res \<Rightarrow> ('a \<Rightarrow> 'b res) \<Rightarrow> 'b res" where
  "rbind m f = (case m of Inl e \<Rightarrow> Inl e | Inr x \<Rightarrow> f x)"

definition assert_that :: "bool \<Rightarrow> unit res" where
  "assert_that b = (if b then Inr () else Inl AssertFailed)"

lemma rbind_simps [simp]:
  "rbind (Inl e) f = Inl e"
  "rbind (Inr x) f = f x"
  by (simp_all add: rbind_def)

lemma rbind_assoc [simp]: "rbind (rbind m f) g = rbind m (\<lambda>x. rbind (f x) g)"
  by (simp add: rbind_def split: sum.split)

lemma rbind_Inr_iff [ix_res]: "rbind m f = Inr y \<longleftrightarrow> (\<exists>x. m = Inr x \<and> f x = Inr y)"
  by (cases m) auto

lemma rbind_Inl_iff [ix_res]:
  "rbind m f = Inl e \<longleftrightarrow> m = Inl e \<or> (\<exists>x. m = Inr x \<and> f x = Inl e)"
  by (cases m) auto

lemma assert_that_simps [simp]:
  "b \<Longrightarrow> assert_that b = Inr ()"
  "\<not> b \<Longrightarrow> assert_that b = Inl AssertFailed"
  by (simp_all add: assert_that_def)

lemma assert_that_Inr [ix_res]: "assert_that b = Inr u \<longleftrightarrow> b"
  by (cases b) simp_all

lemma assert_that_Inl [ix_res]: "assert_that b = Inl e \<longleftrightarrow> \<not> b \<and> e = AssertFailed"
  by (cases b) auto

section \<open>Words as natural numbers\<close>

lemma unat_add_no_wrap [ix_word]:
  fixes a b :: "'a::len word"
  assumes "unat a + unat b < 2 ^ LENGTH('a)"
  shows "unat (a + b) = unat a + unat b"
  using assms by (simp add: unat_word_ariths)

lemma unat_of_nat_eq: "n < 2 ^ LENGTH('a) \<Longrightarrow> unat (of_nat n :: 'a::len word) = n"
  by (simp add: unat_of_nat take_bit_nat_eq_self)

lemma word_of_unat: "unat w = n \<Longrightarrow> w = of_nat n" for w :: "'a::len word"
  by auto

lemma unat_sub_no_wrap [ix_word]:
  fixes a b :: "'a::len word"
  assumes "unat b \<le> unat a"
  shows "unat (a - b) = unat a - unat b"
  using assms by (simp add: unat_sub_if_size word_le_nat_alt)

lemma word_eq_unat_iff: "a = b \<longleftrightarrow> unat a = unat b"
  by (auto simp: word_unat_eq_iff)

lemma sint_eq_unat:
  fixes a :: "'a::len word"
  assumes "unat a < 2 ^ (LENGTH('a) - 1)"
  shows "sint a = int (unat a)"
proof -
  have u: "uint a < 2 ^ (LENGTH('a) - 1)"
    using assms by (metis of_nat_less_iff of_nat_numeral of_nat_power uint_nat)
  have "sint a = signed_take_bit (LENGTH('a) - 1) (uint a)"
    by (simp add: sint_uint)
  also have "\<dots> = uint a"
    using u by (intro signed_take_bit_int_eq_self)
      (simp_all add: order_trans [OF _ uint_ge_0])
  finally show ?thesis by simp
qed

lemma sless_unat [ix_word]:
  fixes a b :: "'a::len word"
  assumes "unat a < 2 ^ (LENGTH('a) - 1)" and "unat b < 2 ^ (LENGTH('a) - 1)"
  shows "a <s b \<longleftrightarrow> unat a < unat b"
  using assms by (simp only: word_sless_alt sint_eq_unat of_nat_less_iff)

lemma sle_unat [ix_word]:
  fixes a b :: "'a::len word"
  assumes "unat a < 2 ^ (LENGTH('a) - 1)" and "unat b < 2 ^ (LENGTH('a) - 1)"
  shows "a \<le>s b \<longleftrightarrow> unat a \<le> unat b"
  using assms by (simp only: word_sle_eq sint_eq_unat of_nat_le_iff)

lemma and_0xFF [ix_word]: "c AND 0xFF = take_bit 8 c" for c :: "'a::len word"
proof -
  have "(0xFF :: 'a word) = mask 8" by (simp add: mask_eq_exp_minus_1)
  then show ?thesis by (simp only: take_bit_eq_mask)
qed

section \<open>Little-endian byte layout\<close>

definition to_le :: "nat \<Rightarrow> 'a::len word \<Rightarrow> bytes" where
  "to_le n w = map (\<lambda>i. ucast (drop_bit (8 * i) w)) [0..<n]"

fun from_le :: "bytes \<Rightarrow> 'a::len word" where
  "from_le [] = 0"
| "from_le (b # bs) = ucast b OR push_bit 8 (from_le bs)"

lemma length_to_le [simp]: "length (to_le n w) = n"
  by (simp add: to_le_def)

lemma bit_from_le:
  "bit (from_le bs :: 'a::len word) n \<longleftrightarrow>
     n < LENGTH('a) \<and> n div 8 < length bs \<and> bit (bs ! (n div 8)) (n mod 8)"
proof (induction bs arbitrary: n)
  case (Cons b bs)
  show ?case
  proof (cases "n < 8")
    case True
    then show ?thesis by (auto simp: bit_simps)
  next
    case False
    then have "n div 8 = Suc ((n - 8) div 8)" "(n - 8) mod 8 = n mod 8"
      by (simp_all add: le_div_geq le_mod_geq)
    moreover have "\<not> bit b n" using False by (auto dest: bit_imp_le_length)
    ultimately show ?thesis using False by (auto simp: bit_simps Cons.IH)
  qed
qed simp

lemma from_le_to_le [simp]:
  assumes "LENGTH('a) = 8 * n"
  shows "from_le (to_le n w) = (w :: 'a::len word)"
proof (rule bit_word_eqI)
  fix i assume i: "i < LENGTH('a)"
  then have "i div 8 < n" "8 * (i div 8) + i mod 8 = i" using assms by auto
  with i show "bit (from_le (to_le n w) :: 'a word) i = bit w i"
    by (simp add: bit_from_le to_le_def bit_simps)
qed

end
