(* ===== verification/Freelist.thy ===== *)
theory Freelist
  imports IX_Prelude
begin

text \<open>
  The free list of device blocks (\<open>dp/core/blk_freelist.c\<close>, \<open>inc/ix/blk.h\<close>,
  \<open>inc/ix/dummy_dev.h\<close>). The singly linked list of \<open>struct freelist_ent\<close> is a HOL list of
  records, and a pointer into it is a position of that list; the list is private to the file, so
  no other pointer aliases it. \<open>lba_t\<close> is a signed and \<open>lbasz_t\<close> an unsigned 32-bit integer:
  sums of the two are unsigned in C and wrap, comparisons of two \<open>lba_t\<close> are signed.
\<close>

section \<open>Data\<close>

definition LBA_SIZE :: nat where "LBA_SIZE = 512"

definition STORAGE_SIZE :: nat where "STORAGE_SIZE = 1 * 1000 * 1000000"

definition MAX_LBA_NUM :: nat where "MAX_LBA_NUM = STORAGE_SIZE div LBA_SIZE"

type_synonym lba_t = "32 word"
type_synonym lbasz_t = "32 word"

record freelist_ent =
  start_lba :: lba_t
  lba_count :: lbasz_t

type_synonym freelist = "freelist_ent list"

abbreviation ent_end :: "freelist_ent \<Rightarrow> 32 word" where
  "ent_end e \<equiv> start_lba e + lba_count e"

section \<open>Operations\<close>

definition freelist_init :: freelist where
  "freelist_init = [\<lparr>start_lba = 0, lba_count = of_nat MAX_LBA_NUM\<rparr>]"

text \<open>
  \<open>mark_used_blk\<close>: shrink the entry at position \<open>i\<close> from its front, or unlink and free it when
  it is used up. The source unlinks the head and an inner entry in two branches.
\<close>

definition mark_used_blk :: "freelist \<Rightarrow> nat \<Rightarrow> lbasz_t \<Rightarrow> freelist" where
  "mark_used_blk fl i num_blks =
     (let ent = fl ! i in
      if num_blks < lba_count ent
      then fl[i := ent\<lparr>start_lba := start_lba ent + num_blks,
                       lba_count := lba_count ent - num_blks\<rparr>]
      else if i = 0 then tl fl
      else take i fl @ drop (Suc i) fl)"

text \<open>The loop of \<open>alloc_block\<close>: it stops at a match or at the last entry.\<close>

fun alloc_scan :: "freelist \<Rightarrow> lba_t \<Rightarrow> nat option" where
  "alloc_scan [] lba = None"
| "alloc_scan [ent] lba = Some 0"
| "alloc_scan (ent # ent' # es) lba =
     (if start_lba ent \<le>s lba \<and> lba < ent_end ent then Some 0
      else map_option Suc (alloc_scan (ent' # es) lba))"

definition alloc_block :: "freelist \<Rightarrow> lba_t \<Rightarrow> lbasz_t \<Rightarrow> freelist res" where
  "alloc_block fl lba cnt =
     (case alloc_scan fl lba of
        None \<Rightarrow> Inl NullDeref
      | Some i \<Rightarrow>
          (let ent = fl ! i in
           rbind (assert_that (lba + cnt \<le> ent_end ent)) (\<lambda>_.
           if start_lba ent = lba then Inr (mark_used_blk fl i cnt)
           else if ent_end ent = lba + cnt
           then Inr (fl[i := ent\<lparr>lba_count := lba_count ent - cnt\<rparr>])
           else
             let newent = \<lparr>start_lba = lba + cnt,
                           lba_count = lba_count ent - cnt - (lba - start_lba ent)\<rparr>;
                 ent' = ent\<lparr>lba_count := lba - start_lba ent\<rparr>
             in Inr (take i fl @ ent' # newent # drop (Suc i) fl))))"

text \<open>The first-fit loop of \<open>get_blk\<close>; \<open>None\<close> is \<open>iter == NULL\<close>.\<close>

fun first_fit :: "freelist \<Rightarrow> lbasz_t \<Rightarrow> nat option" where
  "first_fit [] num_blks = None"
| "first_fit (e # es) num_blks =
     (if num_blks \<le> lba_count e then Some 0 else map_option Suc (first_fit es num_blks))"

definition get_blk :: "freelist \<Rightarrow> lbasz_t \<Rightarrow> lba_t \<times> freelist" where
  "get_blk fl num_blks =
     (case first_fit fl num_blks of
        None \<Rightarrow> (- 1, fl)
      | Some i \<Rightarrow> (start_lba (fl ! i), mark_used_blk fl i num_blks))"

definition coalesce_blks :: "lba_t \<Rightarrow> lbasz_t \<Rightarrow> freelist_ent \<Rightarrow> freelist_ent" where
  "coalesce_blks lba cnt ent =
     (let ent' = ent\<lparr>lba_count := lba_count ent + cnt\<rparr>
      in if lba <s start_lba ent' then ent'\<lparr>start_lba := lba\<rparr> else ent')"

text \<open>
  \<open>coalesce_entries\<close> on the entries at positions \<open>i\<close> and \<open>j\<close>: its \<open>assert\<close> demands that the
  second directly follows the first, and the second is unlinked and freed.
\<close>

definition coalesce_entries :: "freelist \<Rightarrow> nat \<Rightarrow> nat \<Rightarrow> freelist res" where
  "coalesce_entries fl i j =
     rbind (assert_that (j = Suc i)) (\<lambda>_.
       Inr (take i fl @ (fl ! i)\<lparr>lba_count := lba_count (fl ! i) + lba_count (fl ! j)\<rparr>
            # drop (Suc j) fl))"

text \<open>The insertion loop of \<open>free_blk\<close>: the position of \<open>iter\<close>, \<open>length fl\<close> for \<open>NULL\<close>.\<close>

fun free_pos :: "freelist \<Rightarrow> lba_t \<Rightarrow> nat" where
  "free_pos [] lba = 0"
| "free_pos (e # es) lba = (if lba <s start_lba e then 0 else Suc (free_pos es lba))"

text \<open>
  The middle of \<open>free_blk\<close>: coalesce with \<open>prev\<close>, else with \<open>iter\<close>, else link a new entry.
  The result carries the position of \<open>iter\<close> in the new list. When \<open>prev\<close> starts exactly at
  \<open>lba\<close>, no pointer to the new entry is stored and the list is unchanged.
\<close>

definition free_insert :: "freelist \<Rightarrow> nat \<Rightarrow> lba_t \<Rightarrow> lbasz_t \<Rightarrow> (freelist \<times> nat) res" where
  "free_insert fl i lba num_blks =
     (if 0 < i \<and> ent_end (fl ! (i - 1)) = lba
      then Inr (fl[i - 1 := coalesce_blks lba num_blks (fl ! (i - 1))], i)
      else if i \<ge> length fl then Inl NullDeref
      else if lba + num_blks = start_lba (fl ! i)
      then Inr (fl[i := coalesce_blks lba num_blks (fl ! i)], i)
      else let newent = \<lparr>start_lba = lba, lba_count = num_blks\<rparr> in
        if i = 0 then Inr (newent # fl, Suc 0)
        else if start_lba (fl ! (i - 1)) <s lba \<and> lba <s start_lba (fl ! i)
        then Inr (take i fl @ newent # drop i fl, Suc i)
        else Inr (fl, i))"

text \<open>The end of \<open>free_blk\<close>, with \<open>prev\<close> at position \<open>p\<close> and \<open>iter\<close> at position \<open>j\<close>.\<close>

definition free_join :: "freelist \<Rightarrow> nat \<Rightarrow> nat \<Rightarrow> freelist res" where
  "free_join fl p j =
     (if j \<ge> length fl then Inl NullDeref
      else if ent_end (fl ! p) = start_lba (fl ! j) then coalesce_entries fl p j
      else Inr fl)"

definition free_blk :: "freelist \<Rightarrow> lba_t \<Rightarrow> lbasz_t \<Rightarrow> freelist res" where
  "free_blk fl lba num_blks =
     rbind (assert_that (sint lba < int MAX_LBA_NUM)) (\<lambda>_.
       let i = free_pos fl lba in
       rbind (free_insert fl i lba num_blks) (\<lambda>(fl', j).
         if i = 0 then Inr fl' else free_join fl' (i - 1) j))"

section \<open>Abstraction and invariant\<close>

text \<open>
  An entry stands for the blocks from \<open>est\<close> up to but excluding \<open>een\<close>. The invariant: every
  entry is non-empty and inside the device, and entries are ascending with a gap between any two,
  so the list is always fully coalesced. \<open>free_set\<close> is the set of free blocks.
\<close>

definition est :: "freelist_ent \<Rightarrow> nat" where "est e = unat (start_lba e)"

definition een :: "freelist_ent \<Rightarrow> nat" where "een e = unat (start_lba e) + unat (lba_count e)"

definition wf_ent :: "freelist_ent \<Rightarrow> bool" where
  "wf_ent e \<longleftrightarrow> 0 < lba_count e \<and> een e \<le> MAX_LBA_NUM"

definition fl_inv :: "freelist \<Rightarrow> bool" where
  "fl_inv fl \<longleftrightarrow> (\<forall>e \<in> set fl. wf_ent e) \<and> sorted_wrt (\<lambda>a b. een a < est b) fl"

definition free_set :: "freelist \<Rightarrow> nat set" where
  "free_set fl = (\<Union>e \<in> set fl. {est e..<een e})"

definition blk_range :: "lba_t \<Rightarrow> lbasz_t \<Rightarrow> nat set" where
  "blk_range lba n = {unat lba..<unat lba + unat n}"

lemma MAX_LBA_NUM_eq: "MAX_LBA_NUM = 1953125"
  by (simp add: MAX_LBA_NUM_def STORAGE_SIZE_def LBA_SIZE_def)

lemma fl_inv_Nil [simp]: "fl_inv []"
  by (simp add: fl_inv_def)

lemma fl_inv_Cons [simp]:
  "fl_inv (e # es) \<longleftrightarrow> wf_ent e \<and> fl_inv es \<and> (\<forall>y \<in> set es. een e < est y)"
  by (auto simp: fl_inv_def)

lemma fl_inv_append [simp]:
  "fl_inv (xs @ ys) \<longleftrightarrow> fl_inv xs \<and> fl_inv ys \<and> (\<forall>x \<in> set xs. \<forall>y \<in> set ys. een x < est y)"
  by (auto simp: fl_inv_def sorted_wrt_append)

lemma fl_inv_wf: "fl_inv fl \<Longrightarrow> e \<in> set fl \<Longrightarrow> wf_ent e"
  by (simp add: fl_inv_def)

lemma free_set_simps [simp]:
  "free_set [] = {}"
  "free_set (e # es) = {est e..<een e} \<union> free_set es"
  "free_set (xs @ ys) = free_set xs \<union> free_set ys"
  by (auto simp: free_set_def)

lemma free_set_iff: "b \<in> free_set fl \<longleftrightarrow> (\<exists>e \<in> set fl. est e \<le> b \<and> b < een e)"
  by (auto simp: free_set_def)

lemma wf_ent_est_less_een: "wf_ent e \<Longrightarrow> est e < een e"
  by (simp add: wf_ent_def est_def een_def unat_gt_0 word_neq_0_conv)

lemma wf_ent_bounds:
  assumes "wf_ent e"
  shows "unat (start_lba e) < 2 ^ 31" "unat (start_lba e) + unat (lba_count e) < 2 ^ 31"
    "unat (lba_count e) < 2 ^ 31"
  using assms by (simp_all add: wf_ent_def een_def MAX_LBA_NUM_eq)

lemma unat_ent_end: "wf_ent e \<Longrightarrow> unat (ent_end e) = een e"
  using wf_ent_bounds(2) [of e] by (simp add: een_def unat_add_no_wrap)

text \<open>Blocks of an invariant list on either side of an entry are outside that entry.\<close>

lemma free_set_before: "\<forall>x \<in> set xs. een x < m \<Longrightarrow> b \<in> free_set xs \<Longrightarrow> b < m"
  by (fastforce simp: free_set_iff)

lemma free_set_after: "\<forall>y \<in> set ys. m < est y \<Longrightarrow> b \<in> free_set ys \<Longrightarrow> m < b"
  by (fastforce simp: free_set_iff)

section \<open>Allocation\<close>

lemma mark_used_blk_split:
  "mark_used_blk (xs @ e # ys) (length xs) n =
     (if n < lba_count e
      then xs @ e\<lparr>start_lba := start_lba e + n, lba_count := lba_count e - n\<rparr> # ys
      else xs @ ys)"
  by (cases xs) (simp_all add: mark_used_blk_def Let_def)

lemma shrink_front:
  assumes "wf_ent e" and "n < lba_count e"
  defines "e' \<equiv> e\<lparr>start_lba := start_lba e + n, lba_count := lba_count e - n\<rparr>"
  shows "wf_ent e'" "est e' = est e + unat n" "een e' = een e"
proof -
  have n: "unat n < unat (lba_count e)"
    using assms(2) by (simp add: word_less_nat_alt)
  then have "unat (start_lba e + n) = unat (start_lba e) + unat n"
    "unat (lba_count e - n) = unat (lba_count e) - unat n"
    using wf_ent_bounds [OF assms(1)] by (simp_all add: ix_word)
  then show "wf_ent e'" "est e' = est e + unat n" "een e' = een e"
    using n assms(1) by (simp_all add: e'_def wf_ent_def est_def een_def word_less_nat_alt)
qed

text \<open>Taking \<open>n\<close> blocks from the front of an entry removes exactly those blocks.\<close>

lemma mark_used_blk_correct:
  assumes inv: "fl_inv (xs @ e # ys)" and n: "0 < n" "n \<le> lba_count e"
  defines "fl' \<equiv> mark_used_blk (xs @ e # ys) (length xs) n"
  shows "fl_inv fl'"
    and "free_set fl' = free_set (xs @ e # ys) - blk_range (start_lba e) n"
    and "blk_range (start_lba e) n \<subseteq> {est e..<een e}"
proof -
  have wf: "wf_ent e" using inv by simp
  have le: "unat n \<le> unat (lba_count e)"
    using n(2) by (simp add: word_le_nat_alt)
  show "blk_range (start_lba e) n \<subseteq> {est e..<een e}"
    using le by (auto simp: blk_range_def est_def een_def)
  have before: "b < est e" if "b \<in> free_set xs" for b
    using inv that by (intro free_set_before [of xs]) auto
  have after: "een e < b" if "b \<in> free_set ys" for b
    using inv that by (intro free_set_after [of ys]) auto
  have "fl_inv fl' \<and> free_set fl' = free_set (xs @ e # ys) - blk_range (start_lba e) n"
  proof (cases "n < lba_count e")
    case True
    note sf = shrink_front [OF wf True]
    let ?e' = "e\<lparr>start_lba := start_lba e + n, lba_count := lba_count e - n\<rparr>"
    have fl': "fl' = xs @ ?e' # ys"
      using True by (simp add: fl'_def mark_used_blk_split)
    have "fl_inv fl'"
      using inv sf by (auto simp: fl' intro: less_trans)
    moreover have "{est ?e'..<een ?e'} = {est e..<een e} - blk_range (start_lba e) n"
      using sf by (auto simp: blk_range_def est_def)
    ultimately show ?thesis
      using before after le by (fastforce simp: fl' blk_range_def est_def een_def)
  next
    case False
    with n(2) have "lba_count e = n" by simp
    then have "blk_range (start_lba e) n = {est e..<een e}"
      by (auto simp: blk_range_def est_def een_def)
    moreover have "fl' = xs @ ys"
      using False by (simp add: fl'_def mark_used_blk_split)
    ultimately show ?thesis
      using inv before after by fastforce
  qed
  then show "fl_inv fl'" "free_set fl' = free_set (xs @ e # ys) - blk_range (start_lba e) n"
    by simp_all
qed

lemma first_fit_SomeE:
  assumes "first_fit fl n = Some i"
  obtains xs e ys where "fl = xs @ e # ys" "i = length xs" "n \<le> lba_count e"
    "\<forall>x \<in> set xs. lba_count x < n"
proof -
  from assms have "\<exists>xs e ys. fl = xs @ e # ys \<and> i = length xs \<and> n \<le> lba_count e \<and>
    (\<forall>x \<in> set xs. lba_count x < n)"
  proof (induction fl arbitrary: i)
    case (Cons a fl)
    show ?case
    proof (cases "n \<le> lba_count a")
      case True
      with Cons.prems show ?thesis by (intro exI [of _ "[]"]) auto
    next
      case False
      with Cons.prems obtain j where j: "first_fit fl n = Some j" "i = Suc j" by auto
      from Cons.IH [OF j(1)] obtain xs e ys where "fl = xs @ e # ys" "j = length xs"
        "n \<le> lba_count e" "\<forall>x \<in> set xs. lba_count x < n" by blast
      with False j(2) show ?thesis by (intro exI [of _ "a # xs"]) auto
    qed
  qed simp
  then show ?thesis using that by blast
qed

lemma first_fit_None: "first_fit fl n = None \<longleftrightarrow> (\<forall>e \<in> set fl. lba_count e < n)"
  by (induction fl) (auto simp: not_le)

text \<open>
  Because the list is fully coalesced, any run of consecutive free blocks lies in one entry.
\<close>

lemma fl_inv_next_gap:
  assumes "fl_inv fl" "e \<in> set fl" "e' \<in> set fl" "est e' \<le> een e" "een e < een e'"
  shows False
  using assms
proof (induction fl)
  case (Cons a fl)
  have "est e < een e" "est e' < een e'"
    using Cons.prems by (auto intro: wf_ent_est_less_een fl_inv_wf)
  with Cons show ?case by fastforce
qed simp

lemma free_run_in_entry:
  assumes inv: "fl_inv fl" and run: "{s..<s + k} \<subseteq> free_set fl" and "0 < k"
  obtains e where "e \<in> set fl" "est e \<le> s" "s + k \<le> een e"
proof -
  have "s \<in> free_set fl" using run \<open>0 < k\<close> by auto
  then obtain e where e: "e \<in> set fl" "est e \<le> s" "s < een e"
    by (auto simp: free_set_iff)
  have "j < k \<Longrightarrow> s + j < een e" for j
  proof (induction j)
    case (Suc j)
    have "Suc (s + j) \<noteq> een e"
    proof
      assume eq: "Suc (s + j) = een e"
      have "Suc (s + j) \<in> free_set fl" using run Suc.prems by auto
      then obtain e' where "e' \<in> set fl" "est e' \<le> een e" "een e < een e'"
        by (auto simp: free_set_iff eq)
      then show False using fl_inv_next_gap [OF inv e(1)] by blast
    qed
    with Suc show ?case by simp
  qed (use e in simp)
  from this [of "k - 1"] have "s + k \<le> een e" using \<open>0 < k\<close> by simp
  then show ?thesis using e that by blast
qed

lemma entry_size: "wf_ent e \<Longrightarrow> est e \<le> s \<Longrightarrow> s + unat n \<le> een e \<Longrightarrow> n \<le> lba_count e"
  by (simp add: est_def een_def word_le_nat_alt)

lemma get_blk_Some:
  assumes inv: "fl_inv fl" and n: "0 < n" and fit: "first_fit fl n = Some i"
  shows "fl_inv (snd (get_blk fl n)) \<and> blk_range (fst (get_blk fl n)) n \<subseteq> free_set fl \<and>
    free_set (snd (get_blk fl n)) = free_set fl - blk_range (fst (get_blk fl n)) n \<and>
    (\<forall>s. {s..<s + unat n} \<subseteq> free_set fl \<longrightarrow> unat (fst (get_blk fl n)) \<le> s)"
proof -
  obtain xs e ys where fl: "fl = xs @ e # ys" and i: "i = length xs" and fits: "n \<le> lba_count e"
    and small: "\<forall>x \<in> set xs. lba_count x < n"
    using fit by (rule first_fit_SomeE)
  have gb: "get_blk fl n = (start_lba e, mark_used_blk (xs @ e # ys) (length xs) n)"
    using fit by (simp add: get_blk_def fl i)
  note mu = mark_used_blk_correct [OF inv [unfolded fl] n fits]
  have "unat (start_lba e) \<le> s" if run: "{s..<s + unat n} \<subseteq> free_set fl" for s
  proof -
    have "0 < unat n" using n by (simp add: word_less_nat_alt)
    with free_run_in_entry [OF inv run] obtain e' where e': "e' \<in> set fl" "est e' \<le> s"
      "s + unat n \<le> een e'" by blast
    with inv have "n \<le> lba_count e'" by (blast intro: entry_size fl_inv_wf)
    with small have "e' \<notin> set xs" by fastforce
    with e' fl have "e' = e \<or> e' \<in> set ys" by auto
    moreover have "est e \<le> est e'" if "e' \<in> set ys"
      using that inv wf_ent_est_less_een [of e] by (auto simp: fl dest!: bspec)
    ultimately show ?thesis using e'(2) by (auto simp: est_def)
  qed
  moreover have "blk_range (start_lba e) n \<subseteq> free_set fl"
    using mu(3) by (auto simp: fl)
  ultimately show ?thesis
    using mu(1,2) by (simp add: gb fl [symmetric] del: free_set_simps)
qed

lemma get_blk_None_iff:
  assumes "fl_inv fl" "0 < n"
  shows "first_fit fl n = None \<longleftrightarrow> (\<nexists>s. {s..<s + unat n} \<subseteq> free_set fl)"
proof
  assume none: "first_fit fl n = None"
  show "\<nexists>s. {s..<s + unat n} \<subseteq> free_set fl"
  proof
    assume "\<exists>s. {s..<s + unat n} \<subseteq> free_set fl"
    then obtain s where run: "{s..<s + unat n} \<subseteq> free_set fl" by blast
    moreover have "0 < unat n" using assms(2) by (simp add: word_less_nat_alt)
    ultimately obtain e where "e \<in> set fl" "est e \<le> s" "s + unat n \<le> een e"
      using free_run_in_entry [OF assms(1)] by blast
    moreover from this have "n \<le> lba_count e"
      using assms(1) by (blast intro: entry_size fl_inv_wf)
    ultimately show False
      using none [unfolded first_fit_None] by (blast dest: leD)
  qed
next
  assume nofit: "\<nexists>s. {s..<s + unat n} \<subseteq> free_set fl"
  show "first_fit fl n = None"
  proof (cases "first_fit fl n")
    case (Some i)
    from get_blk_Some [OF assms this] nofit show ?thesis
      unfolding blk_range_def by blast
  qed
qed

section \<open>Release\<close>

lemma free_pos_split:
  obtains xs ys where "fl = xs @ ys" "free_pos fl lba = length xs"
    "\<forall>x \<in> set xs. \<not> lba <s start_lba x" "ys \<noteq> [] \<longrightarrow> lba <s start_lba (hd ys)"
proof -
  have "\<exists>xs ys. fl = xs @ ys \<and> free_pos fl lba = length xs \<and>
    (\<forall>x \<in> set xs. \<not> lba <s start_lba x) \<and> (ys \<noteq> [] \<longrightarrow> lba <s start_lba (hd ys))"
  proof (induction fl)
    case (Cons a fl)
    then obtain xs ys where IH: "fl = xs @ ys" "free_pos fl lba = length xs"
      "\<forall>x \<in> set xs. \<not> lba <s start_lba x" "ys \<noteq> [] \<longrightarrow> lba <s start_lba (hd ys)" by blast
    show ?case
    proof (cases "lba <s start_lba a")
      case True
      then show ?thesis by (intro exI [of _ "[]"] exI [of _ "a # fl"]) simp
    next
      case False
      with IH show ?thesis by (intro exI [of _ "a # xs"] exI [of _ ys]) simp
    qed
  qed simp
  then show ?thesis using that by blast
qed

text \<open>The two ways an entry absorbs a released range, and the entry made for it otherwise.\<close>

lemma coalesce_back:
  assumes "wf_ent e" "een e = unat lba" "unat lba + unat n \<le> MAX_LBA_NUM"
  defines "e' \<equiv> coalesce_blks lba n e"
  shows "wf_ent e'" "est e' = est e" "een e' = een e + unat n"
proof -
  have n: "unat (lba_count e + n) = unat (lba_count e) + unat n"
    using assms(2,3) by (intro unat_add_no_wrap) (simp add: een_def MAX_LBA_NUM_eq)
  have "\<not> lba <s start_lba e"
    using wf_ent_bounds(1) [OF assms(1)] assms(2,3)
    by (subst sless_unat) (simp_all add: een_def MAX_LBA_NUM_eq)
  then have "e' = e\<lparr>lba_count := lba_count e + n\<rparr>"
    by (simp add: e'_def coalesce_blks_def)
  with n assms(1-3) show "wf_ent e'" "est e' = est e" "een e' = een e + unat n"
    by (simp_all add: wf_ent_def est_def een_def word_less_nat_alt)
qed

lemma coalesce_front:
  assumes "wf_ent e" "unat lba + unat n = est e" "0 < n"
  defines "e' \<equiv> coalesce_blks lba n e"
  shows "wf_ent e'" "est e' = unat lba" "een e' = een e"
proof -
  have bnd: "unat lba + unat n + unat (lba_count e) < 2 ^ 31"
    using wf_ent_bounds(2) [OF assms(1)] assms(2) by (simp add: est_def)
  have n: "unat (lba_count e + n) = unat (lba_count e) + unat n"
    using bnd by (intro unat_add_no_wrap) simp
  have "lba <s start_lba e"
    using wf_ent_bounds(1) [OF assms(1)] assms(2,3) bnd
    by (subst sless_unat) (simp_all add: est_def word_less_nat_alt)
  then have "e' = e\<lparr>lba_count := lba_count e + n, start_lba := lba\<rparr>"
    by (simp add: e'_def coalesce_blks_def)
  with n assms(1-3) show "wf_ent e'" "est e' = unat lba" "een e' = een e"
    by (simp_all add: wf_ent_def est_def een_def word_less_nat_alt)
qed

lemma new_entry:
  assumes "unat lba + unat n \<le> MAX_LBA_NUM" "0 < n"
  defines "e' \<equiv> \<lparr>start_lba = lba, lba_count = n\<rparr>"
  shows "wf_ent e'" "est e' = unat lba" "een e' = unat lba + unat n"
  using assms(1,2) by (simp_all add: e'_def wf_ent_def est_def een_def)

lemma merge_entries:
  assumes "wf_ent p" "wf_ent e" "een p = est e"
  defines "e' \<equiv> p\<lparr>lba_count := lba_count p + lba_count e\<rparr>"
  shows "wf_ent e'" "est e' = est p" "een e' = een e"
proof -
  have "unat (lba_count p + lba_count e) = unat (lba_count p) + unat (lba_count e)"
    using assms(3) wf_ent_bounds(2) [OF assms(2)]
    by (intro unat_add_no_wrap) (simp add: est_def een_def)
  with assms(1-3) show "wf_ent e'" "est e' = est p" "een e' = een e"
    by (simp_all add: e'_def wf_ent_def est_def een_def word_less_nat_alt)
qed

text \<open>A word-level end address is compared with a start address as their natural numbers are.\<close>

lemma ent_end_eq_iff: "wf_ent e \<Longrightarrow> ent_end e = w \<longleftrightarrow> een e = unat w"
  by (simp only: word_eq_unat_iff unat_ent_end)

lemma lba_end_eq_iff:
  fixes lba :: "32 word"
  assumes "unat lba + unat n \<le> MAX_LBA_NUM"
  shows "lba + n = w \<longleftrightarrow> unat lba + unat n = unat w"
proof -
  have "unat (lba + n) = unat lba + unat n"
    using assms by (intro unat_add_no_wrap) (simp add: MAX_LBA_NUM_eq)
  then show ?thesis by (simp only: word_eq_unat_iff)
qed

text \<open>Where the freed range sits between the entries before and after it.\<close>

lemma free_neighbours:
  assumes inv: "fl_inv (xs @ ys)" and n: "0 < n" and max: "unat lba + unat n \<le> MAX_LBA_NUM"
    and disj: "blk_range lba n \<inter> free_set (xs @ ys) = {}"
    and before: "\<forall>x \<in> set xs. \<not> lba <s start_lba x"
    and after: "ys \<noteq> [] \<longrightarrow> lba <s start_lba (hd ys)"
  shows "\<forall>x \<in> set xs. een x \<le> unat lba" "\<forall>y \<in> set ys. unat lba + unat n \<le> est y"
proof -
  have n0: "0 < unat n" using n by (simp add: word_less_nat_alt)
  have lba31: "unat lba < 2 ^ 31" using max by (simp add: MAX_LBA_NUM_eq)
  have sl: "lba <s start_lba e \<longleftrightarrow> unat lba < est e" if "wf_ent e" for e
    using wf_ent_bounds(1) [OF that] lba31 by (subst sless_unat) (simp_all add: est_def)
  have away: "b \<notin> free_set (xs @ ys)" if "unat lba \<le> b" "b < unat lba + unat n" for b
    using disj that by (auto simp: blk_range_def)
  show "\<forall>x \<in> set xs. een x \<le> unat lba"
  proof
    fix x assume x: "x \<in> set xs"
    then have wf: "wf_ent x" using inv by (auto intro: fl_inv_wf)
    then have "est x \<le> unat lba" using before x sl by (auto simp: not_less)
    moreover have "unat lba \<notin> free_set (xs @ ys)" using away n0 by simp
    ultimately show "een x \<le> unat lba"
      using x by (auto simp: free_set_iff simp del: free_set_simps)
  qed
  show "\<forall>y \<in> set ys. unat lba + unat n \<le> est y"
  proof (cases ys)
    case (Cons y ys')
    then have wf: "wf_ent y" using inv by simp
    then have lt: "unat lba < est y" using after sl Cons by simp
    have "est y \<in> free_set (xs @ ys)"
      using wf_ent_est_less_een [OF wf] Cons by simp
    then have "unat lba + unat n \<le> est y" using away [of "est y"] lt by (meson leI less_imp_le)
    moreover have "est y < est z" if "z \<in> set ys'" for z
      using inv Cons that wf_ent_est_less_een [OF wf] by fastforce
    ultimately show ?thesis using Cons by fastforce
  qed simp
qed

lemma lba_assert_ok: "unat (lba :: lba_t) < MAX_LBA_NUM \<Longrightarrow> sint lba < int MAX_LBA_NUM"
  by (subst sint_eq_unat) (simp_all only: of_nat_less_iff, simp add: MAX_LBA_NUM_eq)

text \<open>Release before the first entry, and release behind the entry \<open>p\<close>.\<close>

lemma free_blk_at_front:
  assumes inv: "fl_inv (y # ys)" and n: "0 < n" and max: "unat lba + unat n \<le> MAX_LBA_NUM"
    and pos: "free_pos (y # ys) lba = 0"
    and above: "\<forall>y \<in> set (y # ys). unat lba + unat n \<le> est y"
  shows "\<exists>fl'. free_blk (y # ys) lba n = Inr fl' \<and> fl_inv fl' \<and>
    free_set fl' = free_set (y # ys) \<union> blk_range lba n"
proof -
  have wf: "wf_ent y" using inv by simp
  have ok: "sint lba < int MAX_LBA_NUM"
    using max n by (simp add: lba_assert_ok word_less_nat_alt)
  show ?thesis
  proof (cases "unat lba + unat n = est y")
    case True
    note cf = coalesce_front [OF wf True n]
    have "free_blk (y # ys) lba n = Inr (coalesce_blks lba n y # ys)"
      using pos True ok max
      by (simp add: free_blk_def free_insert_def lba_end_eq_iff est_def del: free_pos.simps)
    moreover have "{est y..<een y} \<union> blk_range lba n = {unat lba..<een y}"
      using True wf_ent_est_less_een [OF wf] by (auto simp: blk_range_def)
    ultimately show ?thesis using cf inv by auto
  next
    case False
    note ne = new_entry [OF max n]
    have "free_blk (y # ys) lba n = Inr (\<lparr>start_lba = lba, lba_count = n\<rparr> # y # ys)"
      using pos False ok max
      by (simp add: free_blk_def free_insert_def lba_end_eq_iff est_def del: free_pos.simps)
    moreover have "\<forall>z \<in> set (y # ys). unat lba + unat n < est z"
      using above False inv wf_ent_est_less_een [OF wf] by (auto dest!: bspec)
    ultimately show ?thesis using ne inv by (auto simp: blk_range_def)
  qed
qed

lemma free_blk_behind:
  assumes inv: "fl_inv (xs @ p # y # ys)" and n: "0 < n"
    and max: "unat lba + unat n \<le> MAX_LBA_NUM"
    and pos: "free_pos (xs @ p # y # ys) lba = Suc (length xs)"
    and before: "een p \<le> unat lba" and above: "unat lba + unat n \<le> est y"
  shows "\<exists>fl'. free_blk (xs @ p # y # ys) lba n = Inr fl' \<and> fl_inv fl' \<and>
    free_set fl' = free_set (xs @ p # y # ys) \<union> blk_range lba n"
proof -
  have wf: "wf_ent p" "wf_ent y" using inv by simp_all
  have nz: "0 < unat n" using n by (simp add: word_less_nat_alt)
  have ok: "sint lba < int MAX_LBA_NUM" using max nz by (simp add: lba_assert_ok)
  have py: "est p < een p" "est y < een y" using wf by (simp_all add: wf_ent_est_less_een)
  have ys: "\<forall>z \<in> set ys. een y < est z" and xs: "\<forall>x \<in> set xs. een x < est p"
    using inv by simp_all
  note unf = free_blk_def free_insert_def free_join_def coalesce_entries_def nth_append
    list_update_append
  consider (merge) "een p = unat lba" and "unat lba + unat n = est y"
    | (tail) "een p = unat lba" and "unat lba + unat n < est y"
    | (front) "een p < unat lba" and "unat lba + unat n = est y"
    | (new) "een p < unat lba" and "unat lba + unat n < est y"
    using before above by linarith
  then show ?thesis
  proof cases
    case merge
    note cb = coalesce_back [OF wf(1) merge(1) max]
    let ?p = "coalesce_blks lba n p"
    have eq: "een ?p = est y" using cb(3) merge by simp
    note me = merge_entries [OF cb(1) wf(2) eq]
    have "free_blk (xs @ p # y # ys) lba n =
        Inr (xs @ ?p\<lparr>lba_count := lba_count ?p + lba_count y\<rparr> # ys)"
      using pos ok merge ent_end_eq_iff [OF wf(1)] ent_end_eq_iff [OF cb(1)] eq
      by (simp add: unf est_def)
    moreover have "{est p..<een p} \<union> {est y..<een y} \<union> blk_range lba n = {est p..<een y}"
      using merge py nz by (auto simp: blk_range_def)
    ultimately show ?thesis using me cb inv by auto
  next
    case tail
    note cb = coalesce_back [OF wf(1) tail(1) max]
    have "free_blk (xs @ p # y # ys) lba n = Inr (xs @ coalesce_blks lba n p # y # ys)"
      using pos ok tail ent_end_eq_iff [OF wf(1)] ent_end_eq_iff [OF cb(1)] cb(3)
      by (simp add: unf est_def)
    moreover have "{est p..<een p} \<union> blk_range lba n = {est p..<een p + unat n}"
      using tail py nz by (auto simp: blk_range_def)
    ultimately show ?thesis using cb inv tail ys py by auto
  next
    case front
    note cf = coalesce_front [OF wf(2) front(2) n]
    have "free_blk (xs @ p # y # ys) lba n = Inr (xs @ p # coalesce_blks lba n y # ys)"
      using pos ok front max ent_end_eq_iff [OF wf(1)] cf(2) lba_end_eq_iff [OF max]
      by (simp add: unf est_def)
    moreover have "{est y..<een y} \<union> blk_range lba n = {unat lba..<een y}"
      using front py nz by (auto simp: blk_range_def)
    ultimately show ?thesis using cf inv front xs py by auto
  next
    case new
    note ne = new_entry [OF max n]
    have sl: "start_lba p <s lba" "lba <s start_lba y"
      using new wf_ent_bounds(1) [OF wf(1)] wf_ent_bounds(1) [OF wf(2)] max py nz
      by (subst sless_unat; simp add: est_def MAX_LBA_NUM_eq)+
    have "free_blk (xs @ p # y # ys) lba n =
        Inr (xs @ p # \<lparr>start_lba = lba, lba_count = n\<rparr> # y # ys)"
      using pos ok new sl ent_end_eq_iff [OF wf(1)] lba_end_eq_iff [OF max]
      by (simp add: unf est_def)
    then show ?thesis using ne inv new xs ys py by (auto simp: blk_range_def)
  qed
qed

text \<open>
  Releasing an allocated range below some free entry succeeds, keeps the invariant and adds
  exactly the range to the free blocks.
\<close>

lemma free_blk_correct:
  assumes inv: "fl_inv fl" and n: "0 < n" and max: "unat lba + unat n \<le> MAX_LBA_NUM"
    and disj: "blk_range lba n \<inter> free_set fl = {}"
    and above: "\<exists>e \<in> set fl. unat lba < est e"
  shows "\<exists>fl'. free_blk fl lba n = Inr fl' \<and> fl_inv fl' \<and>
    free_set fl' = free_set fl \<union> blk_range lba n"
proof -
  obtain zs ys where fl: "fl = zs @ ys" and pos: "free_pos fl lba = length zs"
    and nb: "\<forall>x \<in> set zs. \<not> lba <s start_lba x" "ys \<noteq> [] \<longrightarrow> lba <s start_lba (hd ys)"
    by (rule free_pos_split)
  note ne = free_neighbours [OF inv [unfolded fl] n max disj [unfolded fl] nb]
  have "ys \<noteq> []"
    using above ne(1) fl inv wf_ent_est_less_een fl_inv_wf [OF inv] by fastforce
  then obtain y ys' where ys: "ys = y # ys'" by (cases ys) auto
  show ?thesis
  proof (cases zs rule: rev_exhaust)
    case Nil
    then show ?thesis
      using free_blk_at_front [of y ys' n lba] inv n max ne(2) pos by (simp add: fl ys)
  next
    case (snoc xs p)
    then show ?thesis
      using free_blk_behind [of xs p y ys' n lba] inv n max ne pos by (simp add: fl ys)
  qed
qed

lemma free_blk_below:
  assumes inv: "fl_inv fl" and n: "0 < n" and b: "b \<in> free_set fl" "unat lba + unat n \<le> b"
    and disj: "blk_range lba n \<inter> free_set fl = {}"
  shows "\<exists>fl'. free_blk fl lba n = Inr fl' \<and> fl_inv fl' \<and>
    free_set fl' = free_set fl \<union> blk_range lba n"
proof -
  obtain e where e: "e \<in> set fl" "est e \<le> b" "b < een e" using b(1) by (auto simp: free_set_iff)
  have "unat lba \<in> blk_range lba n" using n by (simp add: blk_range_def word_less_nat_alt)
  with disj have "unat lba \<notin> free_set fl" by blast
  with e b(2) have "unat lba < est e" by (force simp: free_set_iff)
  moreover have "b < MAX_LBA_NUM" using e fl_inv_wf [OF inv e(1)] by (simp add: wf_ent_def)
  ultimately show ?thesis using assms e by (intro free_blk_correct) auto
qed

text \<open>With no free entry above the range, the source dereferences the null \<open>iter\<close>.\<close>

lemma free_pos_all: "\<forall>e \<in> set fl. \<not> lba <s start_lba e \<Longrightarrow> free_pos fl lba = length fl"
  by (induction fl) auto

lemma free_pos_less: "e \<in> set fl \<Longrightarrow> lba <s start_lba e \<Longrightarrow> free_pos fl lba < length fl"
  by (induction fl) auto

lemma free_insert_length:
  "free_insert fl i lba n = Inr (fl', j) \<Longrightarrow>
     i < length fl \<and> j < length fl' \<or> i \<ge> length fl \<and> j = i \<and> length fl' = length fl"
  by (auto simp: free_insert_def Let_def split: if_splits)

lemma free_insert_NullDeref: "free_insert fl i lba n = Inl NullDeref \<Longrightarrow> length fl \<le> i"
  by (auto simp: free_insert_def Let_def split: if_splits)

lemma free_blk_NullDeref_iff:
  assumes "fl_inv fl" and lba: "unat lba < MAX_LBA_NUM"
  shows "free_blk fl lba n = Inl NullDeref \<longleftrightarrow> (\<forall>e \<in> set fl. est e \<le> unat lba)"
proof -
  have sl: "lba <s start_lba e \<longleftrightarrow> unat lba < est e" if "e \<in> set fl" for e
    using wf_ent_bounds(1) [OF fl_inv_wf [OF assms(1) that]] lba
    by (subst sless_unat) (simp_all add: est_def MAX_LBA_NUM_eq)
  have ok: "sint lba < int MAX_LBA_NUM" using lba by (rule lba_assert_ok)
  show ?thesis
  proof
    assume "\<forall>e \<in> set fl. est e \<le> unat lba"
    then have "free_pos fl lba = length fl"
      by (intro free_pos_all) (auto simp: sl not_less)
    with ok show "free_blk fl lba n = Inl NullDeref"
      by (auto simp: free_blk_def free_insert_def free_join_def Let_def)
  next
    assume nd: "free_blk fl lba n = Inl NullDeref"
    show "\<forall>e \<in> set fl. est e \<le> unat lba"
    proof (rule ccontr)
      assume "\<not> (\<forall>e \<in> set fl. est e \<le> unat lba)"
      then have "free_pos fl lba < length fl"
        using sl by (auto simp: not_le intro: free_pos_less)
      with nd ok show False
        by (auto simp: free_blk_def Let_def ix_res free_join_def coalesce_entries_def
              dest: free_insert_NullDeref free_insert_length split: if_splits)
    qed
  qed
qed

section \<open>Marking blocks used at start-up\<close>

lemma alloc_scan_hit:
  assumes "\<forall>x \<in> set xs. \<not> (start_lba x \<le>s lba \<and> lba < ent_end x)"
    and "start_lba e \<le>s lba" "lba < ent_end e"
  shows "alloc_scan (xs @ e # ys) lba = Some (length xs)"
  using assms(1)
proof (induction xs)
  case Nil
  then show ?case using assms(2,3) by (cases ys) auto
next
  case (Cons x xs)
  then show ?case by (cases xs) auto
qed

lemma shrink_back:
  assumes "wf_ent e" "est e < unat lba" "unat lba \<le> een e"
  defines "e' \<equiv> e\<lparr>lba_count := lba - start_lba e\<rparr>"
  shows "wf_ent e'" "est e' = est e" "een e' = unat lba"
proof -
  have "unat (lba - start_lba e) = unat lba - est e"
    using assms(2) by (simp add: unat_sub_no_wrap est_def)
  with assms(1-3) show "wf_ent e'" "est e' = est e" "een e' = unat lba"
    by (simp_all add: e'_def wf_ent_def est_def een_def word_less_nat_alt)
qed

lemma rest_entry:
  assumes "wf_ent e" "est e \<le> unat lba" "unat lba + unat cnt < een e"
  defines "e' \<equiv> \<lparr>start_lba = lba + cnt, lba_count = lba_count e - cnt - (lba - start_lba e)\<rparr>"
  shows "wf_ent e'" "est e' = unat lba + unat cnt" "een e' = een e"
proof -
  have eq: "lba_count e - cnt - (lba - start_lba e) = ent_end e - (lba + cnt)"
    by (simp add: algebra_simps)
  have sum: "unat (lba + cnt) = unat lba + unat cnt"
    using assms(3) wf_ent_bounds(2) [OF assms(1)]
    by (intro unat_add_no_wrap) (simp add: een_def)
  have "unat (lba_count e - cnt - (lba - start_lba e)) = een e - (unat lba + unat cnt)"
    unfolding eq using assms(3) unat_ent_end [OF assms(1)] by (simp add: unat_sub_no_wrap sum)
  with assms(1,3) sum show "wf_ent e'" "est e' = unat lba + unat cnt" "een e' = een e"
    by (simp_all add: e'_def wf_ent_def est_def een_def word_less_nat_alt)
qed

text \<open>
  Marking a free range as used succeeds and removes exactly that range, in each of the three
  ways the range can sit in its entry.
\<close>

lemma alloc_block_correct:
  assumes inv: "fl_inv fl" and cnt: "0 < cnt" and sub: "blk_range lba cnt \<subseteq> free_set fl"
  shows "\<exists>fl'. alloc_block fl lba cnt = Inr fl' \<and> fl_inv fl' \<and>
    free_set fl' = free_set fl - blk_range lba cnt"
proof -
  have c0: "0 < unat cnt" using cnt by (simp add: word_less_nat_alt)
  obtain e where "e \<in> set fl" and lo: "est e \<le> unat lba" and hi: "unat lba + unat cnt \<le> een e"
    using free_run_in_entry [OF inv sub [unfolded blk_range_def] c0] by blast
  then obtain xs ys where fl: "fl = xs @ e # ys" by (meson split_list)
  have wf: "wf_ent e" using inv by (simp add: fl)
  note bnd = wf_ent_bounds [OF wf] wf_ent_est_less_een [OF wf]
  have sum: "unat (lba + cnt) = unat lba + unat cnt"
    using hi bnd by (intro unat_add_no_wrap) (simp add: een_def)
  have scan: "alloc_scan fl lba = Some (length xs)"
    unfolding fl
  proof (rule alloc_scan_hit)
    show "\<forall>x \<in> set xs. \<not> (start_lba x \<le>s lba \<and> lba < ent_end x)"
    proof
      fix x assume x: "x \<in> set xs"
      then have "wf_ent x" "een x < est e" using inv by (auto simp: fl intro: fl_inv_wf)
      then show "\<not> (start_lba x \<le>s lba \<and> lba < ent_end x)"
        using lo by (simp add: word_less_nat_alt unat_ent_end)
    qed
    show "start_lba e \<le>s lba"
      using lo hi bnd by (subst sle_unat) (simp_all add: est_def een_def)
    show "lba < ent_end e"
      using hi c0 by (simp add: word_less_nat_alt unat_ent_end [OF wf])
  qed
  have okay: "lba + cnt \<le> ent_end e"
    using hi by (simp add: word_le_nat_alt unat_ent_end [OF wf] sum)
  have outside: "b < est e" if "b \<in> free_set xs" for b
    using inv that by (intro free_set_before [of xs]) (auto simp: fl)
  have outside': "een e < b" if "b \<in> free_set ys" for b
    using inv that by (intro free_set_after [of ys]) (auto simp: fl)
  have start_iff: "start_lba e = lba \<longleftrightarrow> est e = unat lba"
    by (simp only: est_def word_eq_unat_iff)
  have end_iff: "ent_end e = lba + cnt \<longleftrightarrow> een e = unat lba + unat cnt"
    by (simp only: ent_end_eq_iff [OF wf] sum)
  consider (at_front) "est e = unat lba"
    | (at_end) "est e < unat lba" and "een e = unat lba + unat cnt"
    | (inside) "est e < unat lba" and "unat lba + unat cnt < een e"
    using lo hi by linarith
  then show ?thesis
  proof cases
    case at_front
    then have "cnt \<le> lba_count e"
      using hi by (simp add: word_le_nat_alt est_def een_def)
    from mark_used_blk_correct [OF inv [unfolded fl] cnt this] at_front scan okay start_iff
    show ?thesis by (simp add: alloc_block_def fl)
  next
    case at_end
    have "lba_count e - cnt = lba - start_lba e"
      using at_end end_iff by (simp add: algebra_simps)
    then have "alloc_block fl lba cnt = Inr (xs @ e\<lparr>lba_count := lba - start_lba e\<rparr> # ys)"
      using at_end scan okay start_iff end_iff by (simp add: alloc_block_def fl)
    moreover note sb = shrink_back [OF wf at_end(1)]
    ultimately show ?thesis
      using at_end inv outside outside'
      by (fastforce simp: fl blk_range_def)
  next
    case inside
    note re = rest_entry [OF wf lo inside(2)] and sb = shrink_back [OF wf inside(1)]
    have "alloc_block fl lba cnt = Inr (xs @ e\<lparr>lba_count := lba - start_lba e\<rparr> #
        \<lparr>start_lba = lba + cnt, lba_count = lba_count e - cnt - (lba - start_lba e)\<rparr> # ys)"
      using inside scan okay start_iff end_iff by (simp add: alloc_block_def fl)
    then show ?thesis
      using inside inv outside outside' re sb c0
      by (fastforce simp: fl blk_range_def)
  qed
qed

section \<open>The allocator contract\<close>

text \<open>
  What the index and the write path rely on: \<open>get\<close> takes a run of free blocks whenever one
  exists and reports \<open>-1\<close> otherwise; \<open>rel\<close> gives an allocated range back, provided some block
  above it is free.
\<close>

locale block_allocator =
  fixes inv :: "'s \<Rightarrow> bool"
    and free :: "'s \<Rightarrow> nat set"
    and get :: "'s \<Rightarrow> lbasz_t \<Rightarrow> lba_t \<times> 's"
    and rel :: "'s \<Rightarrow> lba_t \<Rightarrow> lbasz_t \<Rightarrow> 's res"
  assumes get_some: "inv s \<Longrightarrow> 0 < n \<Longrightarrow> {b..<b + unat n} \<subseteq> free s \<Longrightarrow> get s n = (lba, s') \<Longrightarrow>
      inv s' \<and> blk_range lba n \<subseteq> free s \<and> free s' = free s - blk_range lba n"
    and get_none: "inv s \<Longrightarrow> 0 < n \<Longrightarrow> (\<nexists>b. {b..<b + unat n} \<subseteq> free s) \<Longrightarrow> get s n = (- 1, s)"
    and free_bounded: "inv s \<Longrightarrow> free s \<subseteq> {..<MAX_LBA_NUM}"
    and rel_ok: "inv s \<Longrightarrow> 0 < n \<Longrightarrow> blk_range lba n \<subseteq> {..<MAX_LBA_NUM} \<Longrightarrow>
      blk_range lba n \<inter> free s = {} \<Longrightarrow> \<exists>b \<in> free s. unat lba < b \<Longrightarrow>
      \<exists>s'. rel s lba n = Inr s' \<and> inv s' \<and> free s' = free s \<union> blk_range lba n"
    and rel_null: "inv s \<Longrightarrow> 0 < n \<Longrightarrow> blk_range lba n \<subseteq> {..<MAX_LBA_NUM} \<Longrightarrow>
      blk_range lba n \<inter> free s = {} \<Longrightarrow> \<forall>b \<in> free s. b \<le> unat lba \<Longrightarrow>
      rel s lba n = Inl NullDeref"
begin

text \<open>\<open>-1\<close> is not a block of the device, so it tells success from failure.\<close>

lemma get_result:
  assumes "inv s" "0 < n" "get s n = (lba, s')"
  shows "lba = - 1 \<and> s' = s \<and> (\<nexists>b. {b..<b + unat n} \<subseteq> free s) \<or>
    lba \<noteq> - 1 \<and> inv s' \<and> blk_range lba n \<subseteq> free s \<and> free s' = free s - blk_range lba n"
proof (cases "\<exists>b. {b..<b + unat n} \<subseteq> free s")
  case True
  then obtain b where b: "{b..<b + unat n} \<subseteq> free s" by blast
  note gs = get_some [OF assms(1,2) b assms(3)]
  have "unat lba \<in> blk_range lba n"
    using assms(2) by (simp add: blk_range_def word_less_nat_alt)
  then have "unat lba < MAX_LBA_NUM"
    using gs free_bounded [OF assms(1)] by blast
  then have "lba \<noteq> - 1" by (auto simp: MAX_LBA_NUM_eq unsigned_minus_1_eq_mask mask_eq_exp_minus_1)
  with gs show ?thesis by blast
next
  case False
  with get_none [OF assms(1,2)] assms(3) show ?thesis by auto
qed

lemma rel_result:
  assumes "inv s" "0 < n" "blk_range lba n \<subseteq> {..<MAX_LBA_NUM}" "blk_range lba n \<inter> free s = {}"
    and "rel s lba n = Inr s'"
  shows "inv s' \<and> free s' = free s \<union> blk_range lba n"
proof (cases "\<exists>b \<in> free s. unat lba < b")
  case True
  with rel_ok [OF assms(1-4)] assms(5) show ?thesis by auto
next
  case False
  with rel_null [OF assms(1-4)] assms(5) show ?thesis by (auto simp: not_less)
qed

lemma get_rel_inverse:
  assumes "inv s" "0 < n" "get s n = (lba, s')" "lba \<noteq> - 1" "\<exists>b \<in> free s'. unat lba < b"
  shows "\<exists>s''. rel s' lba n = Inr s'' \<and> inv s'' \<and> free s'' = free s"
proof -
  from get_result [OF assms(1-3)] assms(4)
  have g: "inv s'" "blk_range lba n \<subseteq> free s" "free s' = free s - blk_range lba n" by auto
  have "blk_range lba n \<subseteq> {..<MAX_LBA_NUM}" using g(2) free_bounded [OF assms(1)] by blast
  from rel_ok [OF g(1) assms(2) this _ assms(5)] g show ?thesis by auto
qed

end

lemma free_set_bounded: "fl_inv fl \<Longrightarrow> free_set fl \<subseteq> {..<MAX_LBA_NUM}"
  by (force simp: free_set_iff wf_ent_def dest: fl_inv_wf)

lemma range_bound:
  assumes "blk_range lba n \<subseteq> {..<MAX_LBA_NUM}" "0 < n"
  shows "unat lba + unat n \<le> MAX_LBA_NUM" "unat lba < MAX_LBA_NUM"
proof -
  have "unat lba + unat n - 1 \<in> blk_range lba n" "unat lba \<in> blk_range lba n"
    using assms(2) by (auto simp: blk_range_def word_less_nat_alt)
  with assms(1) have "unat lba + unat n - 1 < MAX_LBA_NUM" "unat lba < MAX_LBA_NUM" by blast+
  then show "unat lba + unat n \<le> MAX_LBA_NUM" "unat lba < MAX_LBA_NUM" by simp_all
qed

lemma get_blk_none:
  assumes "fl_inv fl" "0 < n" "\<nexists>b. {b..<b + unat n} \<subseteq> free_set fl"
  shows "get_blk fl n = (- 1, fl)"
  using get_blk_None_iff [OF assms(1,2)] assms(3) by (simp add: get_blk_def)

lemma get_blk_some:
  assumes "fl_inv fl" "0 < n" "{b..<b + unat n} \<subseteq> free_set fl" "get_blk fl n = (lba, fl')"
  shows "fl_inv fl' \<and> blk_range lba n \<subseteq> free_set fl \<and> free_set fl' = free_set fl - blk_range lba n"
proof -
  from assms(3) get_blk_None_iff [OF assms(1,2)] have "first_fit fl n \<noteq> None" by blast
  then obtain i where "first_fit fl n = Some i" by blast
  from get_blk_Some [OF assms(1,2) this] assms(4) show ?thesis by simp
qed

text \<open>A free block above an allocated range belongs to an entry that starts above it.\<close>

lemma free_above_iff:
  assumes "fl_inv fl" "0 < n" "blk_range lba n \<inter> free_set fl = {}"
  shows "(\<exists>b \<in> free_set fl. unat lba < b) \<longleftrightarrow> (\<exists>e \<in> set fl. unat lba < est e)"
proof
  assume "\<exists>b \<in> free_set fl. unat lba < b"
  then obtain e b where e: "e \<in> set fl" "est e \<le> b" "b < een e" "unat lba < b"
    by (auto simp: free_set_iff)
  have "unat lba \<in> blk_range lba n"
    using assms(2) by (simp add: blk_range_def word_less_nat_alt)
  with assms(3) have "unat lba \<notin> free_set fl" by blast
  with e show "\<exists>e \<in> set fl. unat lba < est e"
    by (auto simp: free_set_iff intro!: bexI [of _ e])
next
  assume "\<exists>e \<in> set fl. unat lba < est e"
  then obtain e where "e \<in> set fl" "unat lba < est e" by blast
  with assms(1) show "\<exists>b \<in> free_set fl. unat lba < b"
    by (intro bexI [of _ "est e"]) (auto simp: free_set_iff intro: wf_ent_est_less_een fl_inv_wf)
qed

interpretation fl: block_allocator fl_inv free_set get_blk free_blk
proof unfold_locales
  fix s n lba assume a: "fl_inv s" "0 < (n :: lbasz_t)" "blk_range lba n \<subseteq> {..<MAX_LBA_NUM}"
    "blk_range lba n \<inter> free_set s = {}"
  note rb = range_bound [OF a(3,2)]
  show "\<exists>s'. free_blk s lba n = Inr s' \<and> fl_inv s' \<and> free_set s' = free_set s \<union> blk_range lba n"
    if "\<exists>b \<in> free_set s. unat lba < b"
    using free_blk_correct [OF a(1,2) rb(1) a(4)] that free_above_iff [OF a(1,2,4)] by blast
  show "free_blk s lba n = Inl NullDeref" if "\<forall>b \<in> free_set s. b \<le> unat lba"
    using that free_above_iff [OF a(1,2,4)]
    by (auto simp: free_blk_NullDeref_iff [OF a(1) rb(2)] not_less [symmetric])
qed (use get_blk_some get_blk_none free_set_bounded in blast)+

section \<open>Runs of the allocator\<close>

text \<open>
  The states the allocator reaches from \<open>freelist_init\<close> by successful calls of \<open>get_blk\<close> and
  \<open>free_blk\<close>, with the list of ranges currently handed out.
\<close>

inductive fl_reach :: "freelist \<Rightarrow> (lba_t \<times> lbasz_t) list \<Rightarrow> bool" where
  fl_init: "fl_reach freelist_init []"
| fl_get: "fl_reach fl al \<Longrightarrow> 0 < n \<Longrightarrow> get_blk fl n = (lba, fl') \<Longrightarrow> lba \<noteq> - 1 \<Longrightarrow>
     fl_reach fl' ((lba, n) # al)"
| fl_rel: "fl_reach fl al \<Longrightarrow> (lba, n) \<in> set al \<Longrightarrow> free_blk fl lba n = Inr fl' \<Longrightarrow>
     fl_reach fl' (remove1 (lba, n) al)"

definition used_set :: "(lba_t \<times> lbasz_t) list \<Rightarrow> nat set" where
  "used_set al = (\<Union>(lba, n) \<in> set al. blk_range lba n)"

definition run_inv :: "freelist \<Rightarrow> (lba_t \<times> lbasz_t) list \<Rightarrow> bool" where
  "run_inv fl al \<longleftrightarrow> fl_inv fl \<and> (\<forall>(lba, n) \<in> set al. 0 < n) \<and> distinct al \<and>
     free_set fl \<inter> used_set al = {} \<and> free_set fl \<union> used_set al = {..<MAX_LBA_NUM} \<and>
     (\<forall>x \<in> set al. \<forall>y \<in> set al. x \<noteq> y \<longrightarrow>
        blk_range (fst x) (snd x) \<inter> blk_range (fst y) (snd y) = {})"

lemma used_set_simps [simp]:
  "used_set [] = {}"
  "used_set ((lba, n) # al) = blk_range lba n \<union> used_set al"
  by (auto simp: used_set_def)

lemma used_set_mem: "(lba, n) \<in> set al \<Longrightarrow> blk_range lba n \<subseteq> used_set al"
  by (auto simp: used_set_def)

lemma freelist_init_inv: "fl_inv freelist_init" "free_set freelist_init = {..<MAX_LBA_NUM}"
  by (auto simp: freelist_init_def wf_ent_def est_def een_def MAX_LBA_NUM_eq)

lemma run_invD:
  assumes "run_inv fl al"
  shows "fl_inv fl" "(lba, n) \<in> set al \<Longrightarrow> 0 < n" "distinct al" "free_set fl \<inter> used_set al = {}"
    "free_set fl \<union> used_set al = {..<MAX_LBA_NUM}"
    "x \<in> set al \<Longrightarrow> y \<in> set al \<Longrightarrow> x \<noteq> y \<Longrightarrow>
       blk_range (fst x) (snd x) \<inter> blk_range (fst y) (snd y) = {}"
  using assms unfolding run_inv_def by blast+

lemma run_inv_get:
  assumes inv: "run_inv fl al" and n: "0 < n" and get: "get_blk fl n = (lba, fl')" "lba \<noteq> - 1"
  shows "run_inv fl' ((lba, n) # al)"
proof -
  note D = run_invD [OF inv]
  have g: "fl_inv fl'" "blk_range lba n \<subseteq> free_set fl" "free_set fl' = free_set fl - blk_range lba n"
    using fl.get_result [OF D(1) n get(1)] get(2) by simp_all
  have "unat lba \<in> blk_range lba n" using n by (simp add: blk_range_def word_less_nat_alt)
  then have new: "(lba, n) \<notin> set al"
    using g(2) D(4) used_set_mem [of lba n al] by blast
  have apart: "blk_range lba n \<inter> blk_range (fst y) (snd y) = {}" if "y \<in> set al" for y
    using g(2) D(4) used_set_mem [of "fst y" "snd y" al] that by auto
  have "free_set fl' \<inter> used_set ((lba, n) # al) = {}" using g D(4) by auto
  moreover have "free_set fl' \<union> used_set ((lba, n) # al) = {..<MAX_LBA_NUM}"
    unfolding used_set_simps g(3) D(5) [symmetric] using g(2) by blast
  ultimately show ?thesis
    unfolding run_inv_def using D g(1) n new apart by (auto simp: Int_commute)
qed

lemma run_inv_rel:
  assumes inv: "run_inv fl al" and mem: "(lba, n) \<in> set al" and rel: "free_blk fl lba n = Inr fl'"
  shows "run_inv fl' (remove1 (lba, n) al)"
proof -
  note D = run_invD [OF inv]
  have n: "0 < n" using D(2) mem by blast
  have sub: "blk_range lba n \<subseteq> used_set al" using mem by (rule used_set_mem)
  have "blk_range lba n \<subseteq> {..<MAX_LBA_NUM}" "blk_range lba n \<inter> free_set fl = {}"
    using sub D(4,5) by blast+
  from fl.rel_result [OF D(1) n this rel]
  have r: "fl_inv fl'" "free_set fl' = free_set fl \<union> blk_range lba n" by simp_all
  have dist: "set (remove1 (lba, n) al) = set al - {(lba, n)}"
    using D(3) by simp
  have used: "used_set (remove1 (lba, n) al) = used_set al - blk_range lba n"
    using D(6) [OF mem] unfolding used_set_def dist by fastforce
  have "free_set fl' \<inter> used_set (remove1 (lba, n) al) = {}"
    using r(2) used D(4) by blast
  moreover have "free_set fl' \<union> used_set (remove1 (lba, n) al) = {..<MAX_LBA_NUM}"
    unfolding used r(2) D(5) [symmetric] using sub by blast
  ultimately show ?thesis
    unfolding run_inv_def dist using D(2,3,6) r(1) by auto
qed

lemma fl_reach_inv: "fl_reach fl al \<Longrightarrow> run_inv fl al"
proof (induction rule: fl_reach.induct)
  case fl_init
  then show ?case using freelist_init_inv by (simp add: run_inv_def)
qed (blast intro: run_inv_get run_inv_rel)+

section \<open>Properties\<close>

text \<open>C2: in every state reached from \<open>freelist_init\<close> by allocations and releases, the free
  blocks and the ranges handed out partition the device: no block is lost, no block is free and
  in use, and no two ranges handed out overlap.\<close>

theorem freelist_partition:
  assumes "fl_reach fl al"
  shows "free_set fl \<union> used_set al = {..<MAX_LBA_NUM} \<and> free_set fl \<inter> used_set al = {} \<and>
    distinct al \<and> (\<forall>x \<in> set al. \<forall>y \<in> set al. x \<noteq> y \<longrightarrow>
      blk_range (fst x) (snd x) \<inter> blk_range (fst y) (snd y) = {})"
  using run_invD [OF fl_reach_inv [OF assms]] by blast

lemma get_blk_init: "get_blk freelist_init 5 = (0, [\<lparr>start_lba = 5, lba_count = 1953120\<rparr>])"
  by (simp add: get_blk_def freelist_init_def mark_used_blk_def MAX_LBA_NUM_eq)

theorem freelist_partition_witness:
  "fl_reach [\<lparr>start_lba = 5, lba_count = 1953120\<rparr>] [(0, 5)] \<and>
   free_set [\<lparr>start_lba = 5, lba_count = 1953120\<rparr>] \<union> used_set [(0, 5)] = {..<MAX_LBA_NUM}"
proof -
  have "fl_reach [\<lparr>start_lba = 5, lba_count = 1953120\<rparr>] [(0, 5)]"
    using fl_get [OF fl_init _ get_blk_init] by simp
  with freelist_partition [OF this] show ?thesis by simp
qed

text \<open>C3: \<open>get_blk\<close> is first fit and complete: when some run of \<open>num_blks\<close> consecutive
  blocks is free it returns the lowest one and removes exactly those blocks from the free list;
  it answers \<open>-1\<close> and changes nothing only when no such run exists.\<close>

theorem get_blk_first_fit:
  assumes "fl_inv fl" "0 < n" "get_blk fl n = (lba, fl')"
  shows "fl_inv fl' \<and>
    (if \<exists>s. {s..<s + unat n} \<subseteq> free_set fl
     then blk_range lba n \<subseteq> free_set fl \<and> free_set fl' = free_set fl - blk_range lba n \<and>
       (\<forall>s. {s..<s + unat n} \<subseteq> free_set fl \<longrightarrow> unat lba \<le> s)
     else lba = - 1 \<and> fl' = fl)"
proof (cases "first_fit fl n")
  case None
  with assms show ?thesis
    using get_blk_None_iff [OF assms(1,2)] by (simp add: get_blk_def)
next
  case (Some i)
  with get_blk_Some [OF assms(1,2) Some] assms(3) show ?thesis
    using get_blk_None_iff [OF assms(1,2)] by simp
qed

theorem get_blk_first_fit_witness:
  "fl_inv freelist_init \<and> unat (fst (get_blk freelist_init 5)) \<le> 7"
proof -
  have run: "{7..<7 + unat (5 :: lbasz_t)} \<subseteq> free_set freelist_init"
    by (auto simp: freelist_init_inv(2) MAX_LBA_NUM_eq)
  have "\<forall>s. {s..<s + unat (5 :: lbasz_t)} \<subseteq> free_set freelist_init \<longrightarrow> unat (0 :: lba_t) \<le> s"
    using get_blk_first_fit [OF freelist_init_inv(1) _ get_blk_init] run by simp
  with run show ?thesis by (simp add: get_blk_init freelist_init_inv(1))
qed

text \<open>C4: releasing an allocated range below some free entry succeeds; it keeps the list sorted
  and fully coalesced and adds exactly the released blocks to the free ones.\<close>

theorem free_blk_releases:
  assumes "fl_inv fl" "0 < n" "unat lba + unat n \<le> MAX_LBA_NUM"
    and "blk_range lba n \<inter> free_set fl = {}" "\<exists>e \<in> set fl. unat lba < est e"
  shows "\<exists>fl'. free_blk fl lba n = Inr fl' \<and> fl_inv fl' \<and>
    free_set fl' = free_set fl \<union> blk_range lba n"
  using assms by (rule free_blk_correct)

theorem free_blk_releases_witness:
  "\<exists>fl'. free_blk [\<lparr>start_lba = 5, lba_count = 1953120\<rparr>] 0 2 = Inr fl' \<and> fl_inv fl' \<and>
    free_set fl' = {5..<1953125} \<union> {0, 1}"
proof -
  let ?e = "\<lparr>start_lba = 5, lba_count = 1953120\<rparr>"
  have inv: "fl_inv [?e]" by (simp add: wf_ent_def een_def MAX_LBA_NUM_eq)
  have fs: "free_set [?e] = {5..<1953125}" by (simp add: est_def een_def)
  have rg: "blk_range 0 2 = {0, 1}" by (auto simp: blk_range_def)
  from free_blk_releases [OF inv, of 2 0] show ?thesis
    by (simp add: fs rg est_def een_def MAX_LBA_NUM_eq)
qed

text \<open>C22: \<open>free_blk\<close> dereferences a null pointer exactly when no free entry starts above the
  released range. The comment on \<open>get_blk\<close> assumes a last "rest of space" entry, but
  \<open>get_blk\<close> removes that entry when it is used up, after which every release above it crashes.\<close>

theorem free_blk_null_iff:
  assumes "fl_inv fl" "unat lba < MAX_LBA_NUM"
  shows "free_blk fl lba n = Inl NullDeref \<longleftrightarrow> (\<forall>e \<in> set fl. est e \<le> unat lba)"
  using assms by (rule free_blk_NullDeref_iff)

theorem free_blk_null_iff_witness:
  "get_blk freelist_init (of_nat MAX_LBA_NUM) = (0, []) \<and> free_blk [] 0 (of_nat MAX_LBA_NUM) = Inl NullDeref"
  using free_blk_null_iff [of "[]" 0 "of_nat MAX_LBA_NUM"]
  by (simp add: get_blk_def freelist_init_def mark_used_blk_def MAX_LBA_NUM_eq)

text \<open>C13: marking a free range as used at start-up succeeds, keeps the invariant and removes
  exactly that range, whether it sits at the front, the end or the inside of its entry.\<close>

theorem alloc_block_marks:
  assumes "fl_inv fl" "0 < cnt" "blk_range lba cnt \<subseteq> free_set fl"
  shows "\<exists>fl'. alloc_block fl lba cnt = Inr fl' \<and> fl_inv fl' \<and>
    free_set fl' = free_set fl - blk_range lba cnt"
  using assms by (rule alloc_block_correct)

theorem alloc_block_marks_witness:
  "\<exists>fl'. alloc_block freelist_init 10 3 = Inr fl' \<and> fl_inv fl' \<and>
    free_set fl' = {..<MAX_LBA_NUM} - {10..<13}"
proof -
  have rg: "blk_range 10 3 = {10..<13}" by (simp add: blk_range_def)
  have "blk_range 10 3 \<subseteq> free_set freelist_init"
    by (auto simp: rg freelist_init_inv(2) MAX_LBA_NUM_eq)
  from alloc_block_marks [OF freelist_init_inv(1) _ this] show ?thesis
    by (simp add: rg freelist_init_inv(2))
qed

text \<open>C24: allocating and releasing again gives back the same free blocks, as long as some block
  above the range stays free.\<close>

theorem get_free_roundtrip:
  assumes "fl_inv fl" "0 < n" "get_blk fl n = (lba, fl')" "lba \<noteq> - 1"
    and "\<exists>b \<in> free_set fl'. unat lba < b"
  shows "\<exists>fl''. free_blk fl' lba n = Inr fl'' \<and> fl_inv fl'' \<and> free_set fl'' = free_set fl"
  using assms by (rule fl.get_rel_inverse)

theorem get_free_roundtrip_witness:
  "\<exists>fl''. free_blk [\<lparr>start_lba = 5, lba_count = 1953120\<rparr>] 0 5 = Inr fl'' \<and>
    free_set fl'' = {..<MAX_LBA_NUM}"
proof -
  have "\<exists>b \<in> free_set [\<lparr>start_lba = 5, lba_count = 1953120\<rparr>]. unat (0 :: lba_t) < b"
    by (intro bexI [of _ 5]) (simp_all add: est_def een_def)
  with get_free_roundtrip [OF freelist_init_inv(1) _ get_blk_init] show ?thesis
    by (auto simp: freelist_init_inv(2))
qed

end
