(* ===== verification/Crc32.thy ===== *)
theory Crc32
  imports IX_Prelude
begin

text \<open>
  The checksum of stored values (\<open>dp/core/blk_index.c\<close>): the table set-up \<open>init_crc\<close> and the
  slicing-by-eight routine \<open>newer_crc\<close>, proved equal to the bit-at-a-time CRC-32 and able to tell
  any two values apart that differ within four consecutive bytes.
\<close>

section \<open>Tables and the slicing-by-eight routine\<close>

definition Polynomial :: u32 where "Polynomial = 0xEDB88320"

definition OldCrc32Lookup :: "u32 list" where
  "OldCrc32Lookup =
    [0x00000000, 0x77073096, 0xEE0E612C, 0x990951BA, 0x076DC419, 0x706AF48F, 0xE963A535, 0x9E6495A3,
     0x0EDB8832, 0x79DCB8A4, 0xE0D5E91E, 0x97D2D988, 0x09B64C2B, 0x7EB17CBD, 0xE7B82D07, 0x90BF1D91,
     0x1DB71064, 0x6AB020F2, 0xF3B97148, 0x84BE41DE, 0x1ADAD47D, 0x6DDDE4EB, 0xF4D4B551, 0x83D385C7,
     0x136C9856, 0x646BA8C0, 0xFD62F97A, 0x8A65C9EC, 0x14015C4F, 0x63066CD9, 0xFA0F3D63, 0x8D080DF5,
     0x3B6E20C8, 0x4C69105E, 0xD56041E4, 0xA2677172, 0x3C03E4D1, 0x4B04D447, 0xD20D85FD, 0xA50AB56B,
     0x35B5A8FA, 0x42B2986C, 0xDBBBC9D6, 0xACBCF940, 0x32D86CE3, 0x45DF5C75, 0xDCD60DCF, 0xABD13D59,
     0x26D930AC, 0x51DE003A, 0xC8D75180, 0xBFD06116, 0x21B4F4B5, 0x56B3C423, 0xCFBA9599, 0xB8BDA50F,
     0x2802B89E, 0x5F058808, 0xC60CD9B2, 0xB10BE924, 0x2F6F7C87, 0x58684C11, 0xC1611DAB, 0xB6662D3D,
     0x76DC4190, 0x01DB7106, 0x98D220BC, 0xEFD5102A, 0x71B18589, 0x06B6B51F, 0x9FBFE4A5, 0xE8B8D433,
     0x7807C9A2, 0x0F00F934, 0x9609A88E, 0xE10E9818, 0x7F6A0DBB, 0x086D3D2D, 0x91646C97, 0xE6635C01,
     0x6B6B51F4, 0x1C6C6162, 0x856530D8, 0xF262004E, 0x6C0695ED, 0x1B01A57B, 0x8208F4C1, 0xF50FC457,
     0x65B0D9C6, 0x12B7E950, 0x8BBEB8EA, 0xFCB9887C, 0x62DD1DDF, 0x15DA2D49, 0x8CD37CF3, 0xFBD44C65,
     0x4DB26158, 0x3AB551CE, 0xA3BC0074, 0xD4BB30E2, 0x4ADFA541, 0x3DD895D7, 0xA4D1C46D, 0xD3D6F4FB,
     0x4369E96A, 0x346ED9FC, 0xAD678846, 0xDA60B8D0, 0x44042D73, 0x33031DE5, 0xAA0A4C5F, 0xDD0D7CC9,
     0x5005713C, 0x270241AA, 0xBE0B1010, 0xC90C2086, 0x5768B525, 0x206F85B3, 0xB966D409, 0xCE61E49F,
     0x5EDEF90E, 0x29D9C998, 0xB0D09822, 0xC7D7A8B4, 0x59B33D17, 0x2EB40D81, 0xB7BD5C3B, 0xC0BA6CAD,
     0xEDB88320, 0x9ABFB3B6, 0x03B6E20C, 0x74B1D29A, 0xEAD54739, 0x9DD277AF, 0x04DB2615, 0x73DC1683,
     0xE3630B12, 0x94643B84, 0x0D6D6A3E, 0x7A6A5AA8, 0xE40ECF0B, 0x9309FF9D, 0x0A00AE27, 0x7D079EB1,
     0xF00F9344, 0x8708A3D2, 0x1E01F268, 0x6906C2FE, 0xF762575D, 0x806567CB, 0x196C3671, 0x6E6B06E7,
     0xFED41B76, 0x89D32BE0, 0x10DA7A5A, 0x67DD4ACC, 0xF9B9DF6F, 0x8EBEEFF9, 0x17B7BE43, 0x60B08ED5,
     0xD6D6A3E8, 0xA1D1937E, 0x38D8C2C4, 0x4FDFF252, 0xD1BB67F1, 0xA6BC5767, 0x3FB506DD, 0x48B2364B,
     0xD80D2BDA, 0xAF0A1B4C, 0x36034AF6, 0x41047A60, 0xDF60EFC3, 0xA867DF55, 0x316E8EEF, 0x4669BE79,
     0xCB61B38C, 0xBC66831A, 0x256FD2A0, 0x5268E236, 0xCC0C7795, 0xBB0B4703, 0x220216B9, 0x5505262F,
     0xC5BA3BBE, 0xB2BD0B28, 0x2BB45A92, 0x5CB36A04, 0xC2D7FFA7, 0xB5D0CF31, 0x2CD99E8B, 0x5BDEAE1D,
     0x9B64C2B0, 0xEC63F226, 0x756AA39C, 0x026D930A, 0x9C0906A9, 0xEB0E363F, 0x72076785, 0x05005713,
     0x95BF4A82, 0xE2B87A14, 0x7BB12BAE, 0x0CB61B38, 0x92D28E9B, 0xE5D5BE0D, 0x7CDCEFB7, 0x0BDBDF21,
     0x86D3D2D4, 0xF1D4E242, 0x68DDB3F8, 0x1FDA836E, 0x81BE16CD, 0xF6B9265B, 0x6FB077E1, 0x18B74777,
     0x88085AE6, 0xFF0F6A70, 0x66063BCA, 0x11010B5C, 0x8F659EFF, 0xF862AE69, 0x616BFFD3, 0x166CCF45,
     0xA00AE278, 0xD70DD2EE, 0x4E048354, 0x3903B3C2, 0xA7672661, 0xD06016F7, 0x4969474D, 0x3E6E77DB,
     0xAED16A4A, 0xD9D65ADC, 0x40DF0B66, 0x37D83BF0, 0xA9BCAE53, 0xDEBB9EC5, 0x47B2CF7F, 0x30B5FFE9,
     0xBDBDF21C, 0xCABAC28A, 0x53B39330, 0x24B4A3A6, 0xBAD03605, 0xCDD70693, 0x54DE5729, 0x23D967BF,
     0xB3667A2E, 0xC4614AB8, 0x5D681B02, 0x2A6F2B94, 0xB40BBE37, 0xC30C8EA1, 0x5A05DF1B, 0x2D02EF8D]"

text \<open>One round of the inner loop of \<open>init_crc\<close>, and an entry of the first table.\<close>

definition crc_bit :: "u32 \<Rightarrow> u32" where
  "crc_bit crc = drop_bit 1 crc XOR ((crc AND 1) * Polynomial)"

definition crc_entry :: "u32 \<Rightarrow> u32" where
  "crc_entry i = (crc_bit ^^ 8) i"

text \<open>A later table from the one before it and the first one.\<close>

definition crc_next_table :: "u32 list \<Rightarrow> u32 list \<Rightarrow> u32 list" where
  "crc_next_table t0 t = map (\<lambda>c. drop_bit 8 c XOR t0 ! unat (c AND 0xFF)) t"

definition init_crc :: "u32 list list" where
  "init_crc =
     (let t0 = map (\<lambda>i. crc_entry (of_nat i)) [0..<256];
          t1 = crc_next_table t0 t0; t2 = crc_next_table t0 t1; t3 = crc_next_table t0 t2;
          t4 = crc_next_table t0 t3; t5 = crc_next_table t0 t4; t6 = crc_next_table t0 t5;
          t7 = crc_next_table t0 t6
      in [t0, t1, t2, t3, t4, t5, t6, t7])"

definition Crc32Lookup :: "nat \<Rightarrow> u32 \<Rightarrow> u32" where
  "Crc32Lookup k i = init_crc ! k ! unat i"

text \<open>The unaligned little-endian load \<open>*current\<close>.\<close>

definition load32 :: "u8 \<Rightarrow> u8 \<Rightarrow> u8 \<Rightarrow> u8 \<Rightarrow> u32" where
  "load32 b0 b1 b2 b3 =
     ucast b0 OR push_bit 8 (ucast b1) OR push_bit 16 (ucast b2) OR push_bit 24 (ucast b3)"

text \<open>The two loops of \<open>newer_crc\<close>: eight bytes at once, then the remaining bytes.\<close>

fun crc_tail :: "u32 \<Rightarrow> bytes \<Rightarrow> u32" where
  "crc_tail crc [] = crc"
| "crc_tail crc (b # bs) =
     crc_tail (drop_bit 8 crc XOR Crc32Lookup 0 ((crc AND 0xFF) XOR ucast b)) bs"

fun crc_loop :: "u32 \<Rightarrow> bytes \<Rightarrow> u32" where
  "crc_loop crc (b0 # b1 # b2 # b3 # b4 # b5 # b6 # b7 # bs) =
     (let one = load32 b0 b1 b2 b3 XOR crc;
          two = load32 b4 b5 b6 b7
      in crc_loop
          (Crc32Lookup 7 (one AND 0xFF) XOR
           Crc32Lookup 6 (drop_bit 8 one AND 0xFF) XOR
           Crc32Lookup 5 (drop_bit 16 one AND 0xFF) XOR
           Crc32Lookup 4 (drop_bit 24 one) XOR
           Crc32Lookup 3 (two AND 0xFF) XOR
           Crc32Lookup 2 (drop_bit 8 two AND 0xFF) XOR
           Crc32Lookup 1 (drop_bit 16 two AND 0xFF) XOR
           Crc32Lookup 0 (drop_bit 24 two)) bs)"
| "crc_loop crc bs = crc_tail crc bs"

definition newer_crc :: "bytes \<Rightarrow> u32" where
  "newer_crc data = NOT (crc_loop (NOT 0) data)"

section \<open>The bit-at-a-time checksum\<close>

definition crc_byte :: "u32 \<Rightarrow> u8 \<Rightarrow> u32" where
  "crc_byte crc b = crc_entry (crc XOR ucast b)"

definition crc32 :: "bytes \<Rightarrow> u32" where
  "crc32 data = NOT (fold (\<lambda>b crc. crc_byte crc b) data (NOT 0))"

section \<open>Linearity\<close>

lemma crc_bit_alt: "crc_bit c = drop_bit 1 c XOR (if bit c 0 then Polynomial else 0)"
  by (simp add: crc_bit_def and_one_eq mod2_eq_if bit_0)

lemma crc_bit_xor: "crc_bit (a XOR b) = crc_bit a XOR crc_bit b"
  by (rule bit_word_eqI) (auto simp: crc_bit_alt bit_simps)

lemma funpow_crc_bit_xor: "(crc_bit ^^ n) (a XOR b) = (crc_bit ^^ n) a XOR (crc_bit ^^ n) b"
  by (induction n) (simp_all add: crc_bit_xor)

lemma crc_entry_xor: "crc_entry (a XOR b) = crc_entry a XOR crc_entry b"
  by (simp add: crc_entry_def funpow_crc_bit_xor)

lemma funpow_entry_xor: "(crc_entry ^^ n) (a XOR b) = (crc_entry ^^ n) a XOR (crc_entry ^^ n) b"
  by (induction n) (simp_all add: crc_entry_xor)

text \<open>On a word whose low bits are clear the rounds only shift.\<close>

lemma funpow_crc_bit_shift: "(\<And>i. i < n \<Longrightarrow> \<not> bit c i) \<Longrightarrow> (crc_bit ^^ n) c = drop_bit n c"
proof (induction n arbitrary: c)
  case (Suc n)
  have "crc_bit c = drop_bit 1 c" using Suc.prems [of 0] by (simp add: crc_bit_alt)
  moreover have "(crc_bit ^^ n) (drop_bit 1 c) = drop_bit n (drop_bit 1 c)"
    using Suc.prems by (intro Suc.IH) (simp add: bit_drop_bit_eq)
  ultimately show ?case by (simp only: funpow_Suc_right o_apply drop_bit_drop_bit) simp
qed simp

lemma crc_entry_push: "crc_entry (push_bit 8 c) = take_bit 24 c"
proof -
  have "crc_entry (push_bit 8 c) = drop_bit 8 (push_bit 8 c)"
    unfolding crc_entry_def by (rule funpow_crc_bit_shift) (simp add: bit_push_bit_iff)
  also have "\<dots> = take_bit 24 c"
    by (rule bit_word_eqI) (auto simp: bit_simps)
  finally show ?thesis .
qed

lemma low_byte_split: "c = take_bit 8 c XOR push_bit 8 (drop_bit 8 c)" for c :: u32
  by (rule bit_word_eqI) (auto simp: bit_simps)

text \<open>A table step is one byte of the bit-at-a-time checksum.\<close>

lemma crc_entry_step: "crc_entry c = drop_bit 8 c XOR crc_entry (take_bit 8 c)"
proof -
  have "crc_entry c = crc_entry (take_bit 8 c) XOR crc_entry (push_bit 8 (drop_bit 8 c))"
    by (subst low_byte_split) (rule crc_entry_xor)
  also have "crc_entry (push_bit 8 (drop_bit 8 c)) = drop_bit 8 c"
    by (subst crc_entry_push) (rule bit_word_eqI, auto simp: bit_simps dest: bit_imp_le_length)
  finally show ?thesis by (simp add: xor.commute)
qed

section \<open>The precomputed table\<close>

text \<open>Because the entry map is linear, a table of doubled length is made by one XOR per entry.\<close>

definition crc_entries :: "nat \<Rightarrow> u32 list" where
  "crc_entries n = map (\<lambda>i. crc_entry (of_nat i)) [0..<n]"

lemma of_nat_add_xor: "i < 2 ^ k \<Longrightarrow> k < 32 \<Longrightarrow> (of_nat (i + 2 ^ k) :: u32) = of_nat i XOR 2 ^ k"
proof -
  assume "i < 2 ^ k" "k < 32"
  then have "\<not> bit i k" by (simp add: bit_iff_odd)
  then have "(2 ^ k :: u32) AND of_nat i = 0"
    by (intro bit_word_eqI) (auto simp: bit_simps)
  then have "(2 ^ k :: u32) + of_nat i = 2 ^ k XOR of_nat i"
    by (rule disjunctive_add_eq_xor)
  then show ?thesis by (simp add: xor.commute add.commute)
qed

lemma crc_entries_double:
  assumes "k < 32"
  shows "crc_entries (2 ^ Suc k) =
    crc_entries (2 ^ k) @ map (\<lambda>c. c XOR crc_entry (2 ^ k)) (crc_entries (2 ^ k))"
proof -
  have "[0..<2 ^ Suc k] = [0..<2 ^ k] @ map (\<lambda>i. i + 2 ^ k) [0..<2 ^ k]"
    using upt_add_eq_append [of 0 "2 ^ k" "2 ^ k"] map_add_upt [of "2 ^ k" "2 ^ k"]
    by (simp add: mult_2)
  moreover have "crc_entry (of_nat (i + 2 ^ k)) = crc_entry (of_nat i) XOR crc_entry (2 ^ k)"
    if "i < 2 ^ k" for i
    using of_nat_add_xor [OF that assms] by (simp only: crc_entry_xor)
  ultimately show ?thesis by (simp add: crc_entries_def del: of_nat_add of_nat_power)
qed

lemma crc_entry_unfold:
  "crc_entry c =
     crc_bit (crc_bit (crc_bit (crc_bit (crc_bit (crc_bit (crc_bit (crc_bit c)))))))"
  by (simp add: crc_entry_def eval_nat_numeral)

lemma crc_basis:
  "crc_entry 1 = 0x77073096" "crc_entry 2 = 0xEE0E612C" "crc_entry 4 = 0x076DC419"
  "crc_entry 8 = 0x0EDB8832" "crc_entry 16 = 0x1DB71064" "crc_entry 32 = 0x3B6E20C8"
  "crc_entry 64 = 0x76DC4190" "crc_entry 128 = 0xEDB88320"
  by (simp_all add: crc_entry_unfold crc_bit_alt Polynomial_def bit_0)

lemma crc_entries_256: "crc_entries 256 = OldCrc32Lookup"
proof -
  have 1: "crc_entries 1 = [0]" by (simp add: crc_entries_def crc_entry_unfold crc_bit_def)
  have 2: "crc_entries 2 = [0, 0x77073096]"
    using crc_entries_double [of 0] 1 by (simp add: crc_basis)
  have 4: "crc_entries 4 = [0, 0x77073096, 0xEE0E612C, 0x990951BA]"
    using crc_entries_double [of 1] 2 by (simp add: crc_basis)
  have 8: "crc_entries 8 = [0, 0x77073096, 0xEE0E612C, 0x990951BA, 0x076DC419, 0x706AF48F,
      0xE963A535, 0x9E6495A3]"
    using crc_entries_double [of 2] 4 by (simp add: crc_basis)
  note 16 = crc_entries_double [of 3, simplified, unfolded 8, simplified crc_basis, simplified]
  note 32 = crc_entries_double [of 4, simplified, unfolded 16, simplified crc_basis, simplified]
  note 64 = crc_entries_double [of 5, simplified, unfolded 32, simplified crc_basis, simplified]
  note 128 = crc_entries_double [of 6, simplified, unfolded 64, simplified crc_basis, simplified]
  note 256 = crc_entries_double [of 7, simplified, unfolded 128, simplified crc_basis, simplified]
  show ?thesis unfolding 256 OldCrc32Lookup_def by simp
qed

section \<open>The tables are powers of the entry map\<close>

lemma unat_take_bit_8: "unat (take_bit 8 c) < 256" for c :: u32
  by (simp add: unsigned_take_bit_eq take_bit_nat_less_exp [of 8, simplified])

definition crc_table :: "nat \<Rightarrow> u32 list" where
  "crc_table k = map (\<lambda>i. (crc_entry ^^ Suc k) (of_nat i)) [0..<256]"

lemma crc_table_nth: "unat c < 256 \<Longrightarrow> crc_table k ! unat c = (crc_entry ^^ Suc k) c"
  by (simp add: crc_table_def)

lemma crc_next_table_eq: "crc_next_table (crc_table 0) (crc_table k) = crc_table (Suc k)"
proof -
  have "drop_bit 8 c XOR crc_table 0 ! unat (c AND 0xFF) = crc_entry c" for c
    using crc_entry_step [of c] crc_table_nth [of "take_bit 8 c" 0] unat_take_bit_8 [of c]
    by (simp add: and_0xFF)
  then show ?thesis by (simp add: crc_next_table_def crc_table_def)
qed

lemma init_crc_eq: "init_crc = map crc_table [0, 1, 2, 3, 4, 5, 6, 7]"
proof -
  have t0: "map (\<lambda>i. crc_entry (of_nat i)) [0..<256] = crc_table 0"
    by (simp add: crc_table_def)
  show ?thesis
    unfolding init_crc_def Let_def t0 by (simp add: crc_next_table_eq numeral_eq_Suc)
qed

lemma Crc32Lookup_eq: "k < 8 \<Longrightarrow> unat c < 256 \<Longrightarrow> Crc32Lookup k c = (crc_entry ^^ Suc k) c"
proof -
  assume k: "k < 8" and c: "unat c < 256"
  from k consider "k = 0" | "k = 1" | "k = 2" | "k = 3" | "k = 4" | "k = 5" | "k = 6" | "k = 7"
    by linarith
  then have "init_crc ! k = crc_table k" by cases (simp_all add: init_crc_eq)
  with c show ?thesis by (simp only: Crc32Lookup_def crc_table_nth)
qed

section \<open>Equivalence with the bit-at-a-time checksum\<close>

lemma crc_tail_eq: "crc_tail crc bs = fold (\<lambda>b crc. crc_byte crc b) bs crc"
proof (induction bs arbitrary: crc)
  case (Cons b bs)
  have "take_bit 8 crc XOR ucast b = take_bit 8 (crc XOR ucast b)"
    by (rule bit_word_eqI) (auto simp: bit_simps dest: bit_imp_le_length)
  moreover have "drop_bit 8 (crc XOR ucast b) = drop_bit 8 crc"
    by (rule bit_word_eqI) (auto simp: bit_simps dest: bit_imp_le_length)
  ultimately have "drop_bit 8 crc XOR Crc32Lookup 0 ((crc AND 0xFF) XOR ucast b) = crc_byte crc b"
    using crc_entry_step [of "crc XOR ucast b"] unat_take_bit_8 [of "crc XOR ucast b"]
    by (simp add: crc_byte_def and_0xFF Crc32Lookup_eq)
  with Cons show ?case by simp
qed simp

lemma funpow_entry_split:
  "(crc_entry ^^ Suc k) c = (crc_entry ^^ Suc k) (take_bit 8 c) XOR (crc_entry ^^ k) (drop_bit 8 c)"
proof -
  have "crc_entry c = crc_entry (take_bit 8 c) XOR drop_bit 8 c"
    by (subst crc_entry_step) (simp add: xor.commute)
  then show ?thesis by (simp only: funpow_Suc_right o_apply funpow_entry_xor)
qed

text \<open>Four table lookups are four rounds of the entry map on a 32-bit word.\<close>

lemma four_lookups:
  assumes "k < 5"
  shows "Crc32Lookup (Suc (Suc (Suc k))) (c AND 0xFF) XOR
    Crc32Lookup (Suc (Suc k)) (drop_bit 8 c AND 0xFF) XOR
    Crc32Lookup (Suc k) (drop_bit 16 c AND 0xFF) XOR Crc32Lookup k (drop_bit 24 c) =
    (crc_entry ^^ Suc (Suc (Suc (Suc k)))) c"
proof -
  have d: "drop_bit 8 (drop_bit 8 c) = drop_bit 16 c" "drop_bit 8 (drop_bit 16 c) = drop_bit 24 c"
    by simp_all
  have top: "drop_bit 24 c = take_bit 8 (drop_bit 24 c)"
    by (rule bit_word_eqI) (auto simp: bit_simps dest: bit_imp_le_length)
  have "(crc_entry ^^ Suc (Suc (Suc (Suc k)))) c =
      (crc_entry ^^ Suc (Suc (Suc (Suc k)))) (take_bit 8 c) XOR
      ((crc_entry ^^ Suc (Suc (Suc k))) (take_bit 8 (drop_bit 8 c)) XOR
       ((crc_entry ^^ Suc (Suc k)) (take_bit 8 (drop_bit 16 c)) XOR
        (crc_entry ^^ Suc k) (drop_bit 24 c)))"
    by (subst funpow_entry_split, subst (2) funpow_entry_split, subst (3) funpow_entry_split)
      (simp only: d)
  moreover have "Crc32Lookup k (drop_bit 24 c) = (crc_entry ^^ Suc k) (drop_bit 24 c)"
    using assms unat_take_bit_8 [of "drop_bit 24 c"] by (subst top, subst (2) top)
      (simp add: Crc32Lookup_eq del: funpow.simps)
  ultimately show ?thesis
    using assms by (simp add: and_0xFF Crc32Lookup_eq unat_take_bit_8 xor.assoc del: funpow.simps)
qed

lemma eight_lookups:
  "Crc32Lookup 7 (a AND 0xFF) XOR Crc32Lookup 6 (drop_bit 8 a AND 0xFF) XOR
   Crc32Lookup 5 (drop_bit 16 a AND 0xFF) XOR Crc32Lookup 4 (drop_bit 24 a) XOR
   Crc32Lookup 3 (b AND 0xFF) XOR Crc32Lookup 2 (drop_bit 8 b AND 0xFF) XOR
   Crc32Lookup 1 (drop_bit 16 b AND 0xFF) XOR Crc32Lookup 0 (drop_bit 24 b) =
   (crc_entry ^^ 8) a XOR (crc_entry ^^ 4) b"
proof -
  have "(crc_entry ^^ 8) a = Crc32Lookup 7 (a AND 0xFF) XOR Crc32Lookup 6 (drop_bit 8 a AND 0xFF)
      XOR Crc32Lookup 5 (drop_bit 16 a AND 0xFF) XOR Crc32Lookup 4 (drop_bit 24 a)"
    using four_lookups [of 4 a] by simp
  moreover have "(crc_entry ^^ 4) b = Crc32Lookup 3 (b AND 0xFF) XOR
      Crc32Lookup 2 (drop_bit 8 b AND 0xFF) XOR Crc32Lookup 1 (drop_bit 16 b AND 0xFF) XOR
      Crc32Lookup 0 (drop_bit 24 b)"
    using four_lookups [of 0 b] by (simp add: numeral_eq_Suc del: funpow.simps)
  ultimately show ?thesis by (simp only: xor.assoc)
qed

lemma load32_xor:
  "load32 b0 b1 b2 b3 =
     ucast b0 XOR push_bit 8 (ucast b1 XOR push_bit 8 (ucast b2 XOR push_bit 8 (ucast b3)))"
  unfolding load32_def
  by (rule bit_word_eqI) (auto simp: bit_simps dest: bit_imp_le_length)

lemma crc_entry_push_xor:
  assumes "take_bit 24 x = x"
  shows "(crc_entry ^^ Suc k) (y XOR push_bit 8 x) = (crc_entry ^^ k) (crc_entry y XOR x)"
  by (simp only: funpow_Suc_right o_apply crc_entry_xor crc_entry_push assms)

text \<open>Four bytes of the bit-at-a-time checksum are four rounds on the loaded word.\<close>

lemma four_bytes:
  "crc_byte (crc_byte (crc_byte (crc_byte crc b0) b1) b2) b3 =
     (crc_entry ^^ 4) (load32 b0 b1 b2 b3 XOR crc)"
proof -
  define x3 where "x3 = (ucast b3 :: u32)"
  define x2 where "x2 = ucast b2 XOR push_bit 8 x3"
  define x1 where "x1 = ucast b1 XOR push_bit 8 x2"
  have sm: "take_bit 24 x3 = x3" "take_bit 24 x2 = x2" "take_bit 24 x1 = x1"
    unfolding x1_def x2_def x3_def
    by (rule bit_word_eqI; auto simp: bit_simps dest: bit_imp_le_length)+
  have ld: "load32 b0 b1 b2 b3 XOR crc = (crc XOR ucast b0) XOR push_bit 8 x1"
    by (simp add: load32_xor x1_def x2_def x3_def ac_simps)
  have "(crc_entry ^^ 4) (load32 b0 b1 b2 b3 XOR crc) =
      (crc_entry ^^ 3) (crc_entry (crc XOR ucast b0) XOR x1)"
    unfolding ld using crc_entry_push_xor [OF sm(3), of 3 "crc XOR ucast b0"] by simp
  also have "\<dots> = (crc_entry ^^ 2) (crc_entry (crc_byte crc b0 XOR ucast b1) XOR x2)"
    using crc_entry_push_xor [OF sm(2), of 2 "crc_byte crc b0 XOR ucast b1"]
    by (simp add: x1_def crc_byte_def xor.assoc eval_nat_numeral)
  also have "\<dots> = (crc_entry ^^ 1) (crc_entry (crc_byte (crc_byte crc b0) b1 XOR ucast b2) XOR x3)"
    using crc_entry_push_xor [OF sm(1), of 1 "crc_byte (crc_byte crc b0) b1 XOR ucast b2"]
    by (simp add: x2_def crc_byte_def xor.assoc eval_nat_numeral)
  finally show ?thesis by (simp add: crc_byte_def x3_def)
qed

lemma crc_loop_eq: "crc_loop crc bs = fold (\<lambda>b crc. crc_byte crc b) bs crc"
proof (induction crc bs rule: crc_loop.induct)
  case (1 crc b0 b1 b2 b3 b4 b5 b6 b7 bs)
  let ?one = "load32 b0 b1 b2 b3 XOR crc" and ?two = "load32 b4 b5 b6 b7"
  have "(crc_entry ^^ 8) ?one XOR (crc_entry ^^ 4) ?two =
      (crc_entry ^^ 4) (?two XOR (crc_entry ^^ 4) ?one)"
    using funpow_add [of 4 4 crc_entry] by (simp add: funpow_entry_xor xor.commute)
  also have "\<dots> = crc_byte (crc_byte (crc_byte (crc_byte
      (crc_byte (crc_byte (crc_byte (crc_byte crc b0) b1) b2) b3) b4) b5) b6) b7"
    by (simp only: four_bytes)
  finally show ?case
    using "1.IH" by (simp only: crc_loop.simps Let_def eight_lookups) simp
qed (simp_all add: crc_tail_eq)

section \<open>Injectivity\<close>

lemma xor_eq_iff: "(a XOR c) = (b XOR c) \<longleftrightarrow> a = b" for a b c :: "'a::len word"
  by (metis xor.assoc xor.comm_neutral xor_self_eq)

lemma xor_zero_iff: "(a XOR b) = 0 \<longleftrightarrow> a = b" for a b :: "'a::len word"
  using xor_eq_iff [of a b b] by simp

lemma crc_bit_zero: "crc_bit c = 0 \<Longrightarrow> c = 0"
proof -
  assume z: "crc_bit c = 0"
  have top: "bit Polynomial 31" by (simp add: Polynomial_def bit_numeral_rec)
  have "\<not> bit c 0"
  proof
    assume "bit c 0"
    then have "drop_bit 1 c = Polynomial" using z by (simp add: crc_bit_alt xor_zero_iff)
    then have "bit (drop_bit 1 c) 31" using top by simp
    then show False by (auto simp: bit_drop_bit_eq dest: bit_imp_le_length)
  qed
  then have d: "drop_bit 1 c = 0" using z by (simp add: crc_bit_alt)
  show "c = 0"
  proof (rule bit_word_eqI)
    fix n assume "n < LENGTH(32)"
    have "\<not> bit c n"
    proof (cases n)
      case (Suc m)
      from d have "\<not> bit (drop_bit 1 c) m" by simp
      then show ?thesis using Suc by (simp add: bit_drop_bit_eq)
    qed (use \<open>\<not> bit c 0\<close> in simp)
    then show "bit c n = bit 0 n" by simp
  qed
qed

lemma crc_bit_inject: "crc_bit a = crc_bit b \<longleftrightarrow> a = b"
proof
  assume "crc_bit a = crc_bit b"
  then have "crc_bit (a XOR b) = 0" by (simp add: crc_bit_xor)
  then have "a XOR b = 0" by (rule crc_bit_zero)
  then show "a = b" by (simp add: xor_zero_iff)
qed simp

lemma crc_entry_inject: "crc_entry a = crc_entry b \<longleftrightarrow> a = b"
proof -
  have "(crc_bit ^^ n) a = (crc_bit ^^ n) b \<longleftrightarrow> a = b" for n
    by (induction n) (simp_all add: crc_bit_inject)
  then show ?thesis by (simp add: crc_entry_def)
qed

lemma crc_byte_inject: "crc_byte a x = crc_byte b x \<longleftrightarrow> a = b"
  by (simp add: crc_byte_def crc_entry_inject xor_eq_iff)

lemma crc_fold_inject:
  "fold (\<lambda>b crc. crc_byte crc b) bs a = fold (\<lambda>b crc. crc_byte crc b) bs a' \<longleftrightarrow> a = a'"
  by (induction bs arbitrary: a a') (simp_all add: crc_byte_inject)

lemma load32_inject:
  "load32 a0 a1 a2 a3 = load32 b0 b1 b2 b3 \<longleftrightarrow> a0 = b0 \<and> a1 = b1 \<and> a2 = b2 \<and> a3 = b3"
proof -
  have part: "ucast (drop_bit (8 * i) (load32 c0 c1 c2 c3)) = [c0, c1, c2, c3] ! i" if "i < 4"
    for i c0 c1 c2 c3
  proof -
    from that consider "i = 0" | "i = 1" | "i = 2" | "i = 3" by linarith
    then show ?thesis
      by cases (rule bit_word_eqI; auto simp: load32_def bit_simps dest: bit_imp_le_length)+
  qed
  show ?thesis
    using part [of 0 a0 a1 a2 a3] part [of 0 b0 b1 b2 b3] part [of 1 a0 a1 a2 a3]
      part [of 1 b0 b1 b2 b3] part [of 2 a0 a1 a2 a3] part [of 2 b0 b1 b2 b3]
      part [of 3 a0 a1 a2 a3] part [of 3 b0 b1 b2 b3] by auto
qed

lemma crc_fold_four:
  assumes "length d = 4" "length d' = 4"
    and "fold (\<lambda>b crc. crc_byte crc b) d s = fold (\<lambda>b crc. crc_byte crc b) d' s"
  shows "d = d'"
proof -
  have shape: "\<exists>x0 x1 x2 x3. xs = [x0, x1, x2, x3]" if "length xs = 4" for xs :: bytes
    using that by (auto simp: length_Suc_conv numeral_eq_Suc)
  obtain a0 a1 a2 a3 b0 b1 b2 b3 where d: "d = [a0, a1, a2, a3]" "d' = [b0, b1, b2, b3]"
    using shape [OF assms(1)] shape [OF assms(2)] by blast
  have inj: "(crc_entry ^^ n) x = (crc_entry ^^ n) y \<longleftrightarrow> x = y" for n x y
    by (induction n) (simp_all add: crc_entry_inject)
  have "(crc_entry ^^ 4) (load32 a0 a1 a2 a3 XOR s) = (crc_entry ^^ 4) (load32 b0 b1 b2 b3 XOR s)"
    using assms(3) by (simp add: d four_bytes del: funpow.simps)
  then show ?thesis by (simp add: inj xor_eq_iff load32_inject d)
qed

lemma crc_fold_burst:
  assumes "length d = length d'" "length d \<le> 4"
    and eq: "fold (\<lambda>b crc. crc_byte crc b) d s = fold (\<lambda>b crc. crc_byte crc b) d' s"
  shows "d = d'"
proof -
  let ?pad = "replicate (4 - length d) 0"
  have "d @ ?pad = d' @ ?pad"
    using assms by (intro crc_fold_four [of _ _ s]) simp_all
  then show ?thesis by simp
qed

section \<open>Properties\<close>

text \<open>C5: the slicing-by-eight routine with the tables set up by \<open>init_crc\<close> computes the
  bit-at-a-time CRC-32 of its input, for every input length.\<close>

theorem newer_crc_is_crc32: "newer_crc data = crc32 data"
  by (simp add: newer_crc_def crc32_def crc_loop_eq)


text \<open>C18: two values of the same length that differ only within four consecutive bytes have
  different checksums, so the start-up scan notices every such corruption.\<close>

theorem newer_crc_detects_burst:
  assumes "length d = length d'" "length d \<le> 4" "d \<noteq> d'"
  shows "newer_crc (xs @ d @ ys) \<noteq> newer_crc (xs @ d' @ ys)"
proof
  assume "newer_crc (xs @ d @ ys) = newer_crc (xs @ d' @ ys)"
  then have "fold (\<lambda>b crc. crc_byte crc b) d (fold (\<lambda>b crc. crc_byte crc b) xs (NOT 0)) =
      fold (\<lambda>b crc. crc_byte crc b) d' (fold (\<lambda>b crc. crc_byte crc b) xs (NOT 0))"
    by (simp add: newer_crc_def crc_loop_eq crc_fold_inject)
  with assms crc_fold_burst show False by blast
qed

theorem newer_crc_detects_burst_witness:
  "newer_crc ([1, 2] @ [3, 4] @ [5]) \<noteq> newer_crc ([1, 2] @ [4, 3] @ [5])"
  by (rule newer_crc_detects_burst) simp_all

end
