(* ===== verification/City.thy ===== *)
theory City
  imports IX_Prelude "HOL-Library.Monad_Syntax"
begin

text \<open>
  The string hash of the key index (\<open>dp/core/city.c\<close>, \<open>inc/ix/city.h\<close>): CityHash64 and
  CityHash128 on a little-endian machine. A \<open>const char *\<close> is the buffer it points into and an
  offset; a read outside the buffer has the value \<open>None\<close>. The functions under
  \<open>__SSE4_2__\<close> use processor intrinsics and a header that is not part of the sources; they are
  not modelled.
\<close>

section \<open>Loads and mixing\<close>

record uint128 =
  first :: u64
  second :: u64

fun le_word :: "bytes \<Rightarrow> u64" where
  "le_word [] = 0"
| "le_word (b # bs) = ucast b OR push_bit 8 (le_word bs)"

definition Fetch64 :: "bytes \<Rightarrow> nat \<Rightarrow> u64 option" where
  "Fetch64 s i = (if i + 8 \<le> length s then Some (le_word (take 8 (drop i s))) else None)"

definition Fetch32 :: "bytes \<Rightarrow> nat \<Rightarrow> u64 option" where
  "Fetch32 s i = (if i + 4 \<le> length s then Some (le_word (take 4 (drop i s))) else None)"

definition Fetch8 :: "bytes \<Rightarrow> nat \<Rightarrow> u8 option" where
  "Fetch8 s i = (if i < length s then Some (s ! i) else None)"

definition k0 :: u64 where "k0 = 0xc3a5c85c97cb3127"
definition k1 :: u64 where "k1 = 0xb492b66fbe98f273"
definition k2 :: u64 where "k2 = 0x9ae16a3b2f90404f"
definition k3 :: u64 where "k3 = 0xc949d7c7509e6557"

definition Hash128to64 :: "uint128 \<Rightarrow> u64" where
  "Hash128to64 x =
     (let kMul = 0x9ddfea08eb382d69;
          a = (first x XOR second x) * kMul;
          a = a XOR drop_bit 47 a;
          b = (second x XOR a) * kMul;
          b = b XOR drop_bit 47 b
      in b * kMul)"

definition RotateByAtLeast1 :: "u64 \<Rightarrow> nat \<Rightarrow> u64" where
  "RotateByAtLeast1 val shift = drop_bit shift val OR push_bit (64 - shift) val"

definition Rotate :: "u64 \<Rightarrow> nat \<Rightarrow> u64" where
  "Rotate val shift = (if shift = 0 then val else drop_bit shift val OR push_bit (64 - shift) val)"

definition ShiftMix :: "u64 \<Rightarrow> u64" where
  "ShiftMix val = val XOR drop_bit 47 val"

definition HashLen16 :: "u64 \<Rightarrow> u64 \<Rightarrow> u64" where
  "HashLen16 u v = Hash128to64 \<lparr>first = u, second = v\<rparr>"

section \<open>Short inputs\<close>

definition HashLen0to16 :: "bytes \<Rightarrow> nat \<Rightarrow> nat \<Rightarrow> u64 option" where
  "HashLen0to16 s p len =
     (if len > 8 then do {
        a \<leftarrow> Fetch64 s p;
        b \<leftarrow> Fetch64 s (p + len - 8);
        Some (HashLen16 a (RotateByAtLeast1 (b + of_nat len) len) XOR b) }
      else if len \<ge> 4 then do {
        a \<leftarrow> Fetch32 s p;
        c \<leftarrow> Fetch32 s (p + len - 4);
        Some (HashLen16 (of_nat len + push_bit 3 a) c) }
      else if len > 0 then do {
        a \<leftarrow> Fetch8 s p;
        b \<leftarrow> Fetch8 s (p + len div 2);
        c \<leftarrow> Fetch8 s (p + len - 1);
        let y = (ucast a + push_bit 8 (ucast b) :: u32);
            z = (of_nat len + push_bit 2 (ucast c) :: u32)
        in Some (ShiftMix (ucast y * k2 XOR ucast z * k3) * k2) }
      else Some k2)"

definition HashLen17to32 :: "bytes \<Rightarrow> nat \<Rightarrow> u64 option" where
  "HashLen17to32 s len = do {
     a \<leftarrow> Fetch64 s 0;
     b \<leftarrow> Fetch64 s 8;
     c \<leftarrow> Fetch64 s (len - 8);
     d \<leftarrow> Fetch64 s (len - 16);
     let a = a * k1; c = c * k2; d = d * k0
     in Some (HashLen16 (Rotate (a - b) 43 + Rotate c 30 + d)
                        (a + Rotate (b XOR k3) 20 - c + of_nat len)) }"

definition WeakHashLen32WithSeeds6 ::
  "u64 \<Rightarrow> u64 \<Rightarrow> u64 \<Rightarrow> u64 \<Rightarrow> u64 \<Rightarrow> u64 \<Rightarrow> uint128" where
  "WeakHashLen32WithSeeds6 w x y z a b =
     (let a = a + w;
          b = Rotate (b + a + z) 21;
          c = a;
          a = a + x;
          a = a + y;
          b = b + Rotate a 44
      in \<lparr>first = a + z, second = b + c\<rparr>)"

definition WeakHashLen32WithSeeds :: "bytes \<Rightarrow> nat \<Rightarrow> u64 \<Rightarrow> u64 \<Rightarrow> uint128 option" where
  "WeakHashLen32WithSeeds s p a b = do {
     w \<leftarrow> Fetch64 s p;
     x \<leftarrow> Fetch64 s (p + 8);
     y \<leftarrow> Fetch64 s (p + 16);
     z \<leftarrow> Fetch64 s (p + 24);
     Some (WeakHashLen32WithSeeds6 w x y z a b) }"

text \<open>One of the two halves of \<open>HashLen33to64\<close>, which differ only in the words they read.\<close>

definition HashLen33to64_half :: "u64 \<Rightarrow> u64 \<Rightarrow> u64 \<Rightarrow> u64 \<Rightarrow> u64 \<times> u64" where
  "HashLen33to64_half a z a1 a2 =
     (let b = Rotate (a + z) 52;
          c = Rotate a 37;
          a = a + a1;
          c = c + Rotate a 7;
          a = a + a2
      in (a + z, b + Rotate a 31 + c))"

definition HashLen33to64 :: "bytes \<Rightarrow> nat \<Rightarrow> u64 option" where
  "HashLen33to64 s len = do {
     z \<leftarrow> Fetch64 s 24;
     a0 \<leftarrow> Fetch64 s 0;
     e16 \<leftarrow> Fetch64 s (len - 16);
     a8 \<leftarrow> Fetch64 s 8;
     a16 \<leftarrow> Fetch64 s 16;
     let (vf, vs) = HashLen33to64_half (a0 + (of_nat len + e16) * k0) z a8 a16
     in do {
       e32 \<leftarrow> Fetch64 s (len - 32);
       z \<leftarrow> Fetch64 s (len - 8);
       e24 \<leftarrow> Fetch64 s (len - 24);
       let (wf, ws) = HashLen33to64_half (a16 + e32) z e24 e16;
           r = ShiftMix ((vf + ws) * k2 + (wf + vs) * k0)
       in Some (ShiftMix (r * k0 + vs) * k2) } }"

section \<open>Long inputs\<close>

text \<open>The 56 bytes of state of the main loop.\<close>

record city_state =
  cx :: u64
  cy :: u64
  cz :: u64
  cv :: uint128
  cw :: uint128

text \<open>The body of the main loop on the 64 bytes at offset \<open>p\<close>.\<close>

definition city_chunk :: "bytes \<Rightarrow> nat \<Rightarrow> city_state \<Rightarrow> city_state option" where
  "city_chunk s p st = do {
     f8 \<leftarrow> Fetch64 s (p + 8);
     f48 \<leftarrow> Fetch64 s (p + 48);
     f40 \<leftarrow> Fetch64 s (p + 40);
     let v = cv st; w = cw st;
         x = Rotate (cx st + cy st + first v + f8) 37 * k1;
         y = Rotate (cy st + second v + f48) 42 * k1;
         x = x XOR second w;
         y = y + (first v + f40);
         z = Rotate (cz st + first w) 33 * k1
     in do {
       v' \<leftarrow> WeakHashLen32WithSeeds s p (second v * k1) (x + first w);
       f16 \<leftarrow> Fetch64 s (p + 16);
       w' \<leftarrow> WeakHashLen32WithSeeds s (p + 32) (z + second w) (y + f16);
       Some \<lparr>cx = z, cy = y, cz = x, cv = v', cw = w'\<rparr> } }"

fun city_loop :: "nat \<Rightarrow> bytes \<Rightarrow> nat \<Rightarrow> city_state \<Rightarrow> city_state option" where
  "city_loop 0 s p st = Some st"
| "city_loop (Suc n) s p st = do { st' \<leftarrow> city_chunk s p st; city_loop n s (p + 64) st' }"

definition CityHash64 :: "bytes \<Rightarrow> nat \<Rightarrow> u64 option" where
  "CityHash64 s len =
     (if len \<le> 32 then (if len \<le> 16 then HashLen0to16 s 0 len else HashLen17to32 s len)
      else if len \<le> 64 then HashLen33to64 s len
      else do {
        x \<leftarrow> Fetch64 s (len - 40);
        e16 \<leftarrow> Fetch64 s (len - 16);
        e56 \<leftarrow> Fetch64 s (len - 56);
        e48 \<leftarrow> Fetch64 s (len - 48);
        e24 \<leftarrow> Fetch64 s (len - 24);
        let y = e16 + e56;
            z = HashLen16 (e48 + of_nat len) e24
        in do {
          v \<leftarrow> WeakHashLen32WithSeeds s (len - 64) (of_nat len) z;
          w \<leftarrow> WeakHashLen32WithSeeds s (len - 32) (y + k1) x;
          f0 \<leftarrow> Fetch64 s 0;
          st \<leftarrow> city_loop ((len - 1) div 64) s 0
                 \<lparr>cx = x * k1 + f0, cy = y, cz = z, cv = v, cw = w\<rparr>;
          Some (HashLen16
                 (HashLen16 (first (cv st)) (first (cw st)) + ShiftMix (cy st) * k1 + cz st)
                 (HashLen16 (second (cv st)) (second (cw st)) + cx st)) } })"

definition CityHash64WithSeeds :: "bytes \<Rightarrow> nat \<Rightarrow> u64 \<Rightarrow> u64 \<Rightarrow> u64 option" where
  "CityHash64WithSeeds s len seed0 seed1 = do {
     h \<leftarrow> CityHash64 s len;
     Some (HashLen16 (h - seed0) seed1) }"

definition CityHash64WithSeed :: "bytes \<Rightarrow> nat \<Rightarrow> u64 \<Rightarrow> u64 option" where
  "CityHash64WithSeed s len seed = CityHash64WithSeeds s len k2 seed"

section \<open>The 128-bit hash\<close>

text \<open>The loop of \<open>CityMurmur\<close>: 16 bytes at a time while \<open>l > 0\<close>.\<close>

fun murmur_loop ::
  "nat \<Rightarrow> bytes \<Rightarrow> nat \<Rightarrow> u64 \<Rightarrow> u64 \<Rightarrow> u64 \<Rightarrow> u64 \<Rightarrow> (u64 \<times> u64 \<times> u64 \<times> u64) option" where
  "murmur_loop 0 s p a b c d = Some (a, b, c, d)"
| "murmur_loop (Suc n) s p a b c d = do {
     f0 \<leftarrow> Fetch64 s p;
     f8 \<leftarrow> Fetch64 s (p + 8);
     let a = (a XOR ShiftMix (f0 * k1) * k1) * k1;
         b = b XOR a;
         c = (c XOR ShiftMix (f8 * k1) * k1) * k1;
         d = d XOR c
     in murmur_loop n s (p + 16) a b c d }"

definition CityMurmur :: "bytes \<Rightarrow> nat \<Rightarrow> nat \<Rightarrow> uint128 \<Rightarrow> uint128 option" where
  "CityMurmur s p len seed = do {
     (a, b, c, d) \<leftarrow>
       (if len \<le> 16 then do {
          let a = ShiftMix (first seed * k1) * k1
          in do {
            h \<leftarrow> HashLen0to16 s p len;
            let c = second seed * k1 + h
            in do {
              f \<leftarrow> (if len \<ge> 8 then Fetch64 s p else Some c);
              Some (a, second seed, c, ShiftMix (a + f)) } } }
        else do {
          e8 \<leftarrow> Fetch64 s (p + len - 8);
          e16 \<leftarrow> Fetch64 s (p + len - 16);
          let c = HashLen16 (e8 + k1) (first seed);
              d = HashLen16 (second seed + of_nat len) (c + e16)
          in murmur_loop ((len - 1) div 16) s p (first seed + d) (second seed) c d });
     let a = HashLen16 a c;
         b = HashLen16 d b
     in Some \<lparr>first = a XOR b, second = HashLen16 b a\<rparr> }"

text \<open>
  The tail loop of \<open>CityHash128WithSeed\<close>: 32-byte pieces counted from the end of the \<open>len\<close>
  remaining bytes at offset \<open>p\<close>, \<open>tail_done\<close> bytes of them hashed so far. A piece may begin
  before \<open>p\<close>; beginning before the buffer would be an out-of-bounds read.
\<close>

function city_tail ::
  "bytes \<Rightarrow> nat \<Rightarrow> nat \<Rightarrow> nat \<Rightarrow> city_state \<Rightarrow> city_state option" where
  "city_tail s p len tail_done st =
     (if tail_done < len then do {
        let td = tail_done + 32; v = cv st; w = cw st;
            y = Rotate (cx st + cy st) 42 * k0 + second v
        in do {
          _ \<leftarrow> (if td \<le> p + len then Some () else None);
          f16 \<leftarrow> Fetch64 s (p + len - td + 16);
          f0 \<leftarrow> Fetch64 s (p + len - td);
          let w1 = first w + f16;
              x = cx st * k0 + w1;
              z = cz st + (second w + f0);
              w2 = second w + first v
          in do {
            v' \<leftarrow> WeakHashLen32WithSeeds s (p + len - td) (first v + z) (second v);
            city_tail s p len td
              \<lparr>cx = x, cy = y, cz = z, cv = v', cw = \<lparr>first = w1, second = w2\<rparr>\<rparr> } } }
      else Some st)"
  by pat_completeness auto
termination
  by (relation "measure (\<lambda>(s, p, len, tail_done, st). len - tail_done)") auto

declare city_tail.simps [simp del]

definition CityHash128WithSeed :: "bytes \<Rightarrow> nat \<Rightarrow> nat \<Rightarrow> uint128 \<Rightarrow> uint128 option" where
  "CityHash128WithSeed s p len seed =
     (if len < 128 then CityMurmur s p len seed
      else do {
        let x = first seed; y = second seed; z = of_nat len * k1
        in do {
          f0 \<leftarrow> Fetch64 s p;
          f8 \<leftarrow> Fetch64 s (p + 8);
          f88 \<leftarrow> Fetch64 s (p + 88);
          let v1 = Rotate (y XOR k1) 49 * k1 + f0;
              v2 = Rotate v1 42 * k1 + f8;
              w1 = Rotate (y + z) 35 * k1 + x;
              w2 = Rotate (x + f88) 53 * k1
          in do {
            st \<leftarrow> city_loop (2 * (len div 128)) s p
                   \<lparr>cx = x, cy = y, cz = z, cv = \<lparr>first = v1, second = v2\<rparr>,
                    cw = \<lparr>first = w1, second = w2\<rparr>\<rparr>;
            st \<leftarrow> city_tail s (p + 128 * (len div 128)) (len mod 128) 0
                   (st\<lparr>cx := cx st + Rotate (first (cv st) + cz st) 49 * k0,
                       cz := cz st + Rotate (first (cw st)) 37 * k0\<rparr>);
            let x = HashLen16 (cx st) (first (cv st));
                y = HashLen16 (cy st + cz st) (first (cw st))
            in Some \<lparr>first = HashLen16 (x + second (cv st)) (second (cw st)) + y,
                     second = HashLen16 (x + second (cw st)) (y + second (cv st))\<rparr> } } })"

definition CityHash128 :: "bytes \<Rightarrow> nat \<Rightarrow> uint128 option" where
  "CityHash128 s len =
     (if len \<ge> 16 then do {
        f0 \<leftarrow> Fetch64 s 0;
        f8 \<leftarrow> Fetch64 s 8;
        CityHash128WithSeed s 16 (len - 16) \<lparr>first = f0 XOR k3, second = f8\<rparr> }
      else if len \<ge> 8 then do {
        f0 \<leftarrow> Fetch64 s 0;
        e8 \<leftarrow> Fetch64 s (len - 8);
        CityHash128WithSeed [] 0 0
          \<lparr>first = f0 XOR of_nat len * k0, second = e8 XOR k1\<rparr> }
      else CityHash128WithSeed s 0 len \<lparr>first = k0, second = k1\<rparr>)"

section \<open>Reads stay inside the key\<close>

named_theorems city_reads \<open>in-bounds reads succeed and do not depend on what follows the key\<close>

lemma Fetch64_ok [city_reads]:
  "i + 8 \<le> length s \<Longrightarrow> \<exists>x. Fetch64 s i = Some x \<and> (\<forall>t. Fetch64 (s @ t) i = Some x)"
  by (simp add: Fetch64_def)

lemma Fetch32_ok [city_reads]:
  "i + 4 \<le> length s \<Longrightarrow> \<exists>x. Fetch32 s i = Some x \<and> (\<forall>t. Fetch32 (s @ t) i = Some x)"
  by (simp add: Fetch32_def)

lemma Fetch8_ok [city_reads]:
  "i < length s \<Longrightarrow> \<exists>x. Fetch8 s i = Some x \<and> (\<forall>t. Fetch8 (s @ t) i = Some x)"
  by (simp add: Fetch8_def nth_append)

text \<open>
  \<open>stable f s\<close>: the computation \<open>f\<close> succeeds on the buffer \<open>s\<close>, with the same value whatever
  follows \<open>s\<close> in memory. It is closed under sequencing.
\<close>

definition stable :: "(bytes \<Rightarrow> 'a option) \<Rightarrow> bytes \<Rightarrow> bool" where
  "stable f s \<longleftrightarrow> (\<exists>x. f s = Some x \<and> (\<forall>t. f (s @ t) = Some x))"

lemma stable_bind:
  assumes "stable f s" "\<And>x. stable (g x) s"
  shows "stable (\<lambda>s. Option.bind (f s) (\<lambda>x. g x s)) s"
  using assms unfolding stable_def by (metis Option.bind.bind_lunit)

lemma stable_Some: "stable (\<lambda>s. Some x) s"
  by (simp add: stable_def)

lemma stable_Let: "stable (g x) s \<Longrightarrow> stable (\<lambda>s. Let x (\<lambda>y. g y s)) s"
  by simp

lemma stable_case_prod: "(\<And>a b. stable (g a b) s) \<Longrightarrow> stable (\<lambda>s. case p of (a, b) \<Rightarrow> g a b s) s"
  by (cases p) simp

lemma stable_if:
  "(c \<Longrightarrow> stable f s) \<Longrightarrow> (\<not> c \<Longrightarrow> stable g s) \<Longrightarrow> stable (\<lambda>s. if c then f s else g s) s"
  by (cases c) simp_all

lemma stable_fetch:
  "i + 8 \<le> length s \<Longrightarrow> stable (\<lambda>s. Fetch64 s i) s"
  "i + 4 \<le> length s \<Longrightarrow> stable (\<lambda>s. Fetch32 s i) s"
  "i < length s \<Longrightarrow> stable (\<lambda>s. Fetch8 s i) s"
  unfolding stable_def by (rule city_reads; assumption)+

lemmas stable_intros = stable_bind stable_Some stable_Let stable_case_prod stable_if stable_fetch

lemma stable_HashLen0to16:
  "p + len \<le> length s \<Longrightarrow> len \<le> 16 \<Longrightarrow> stable (\<lambda>s. HashLen0to16 s p len) s"
  unfolding HashLen0to16_def by (intro stable_intros) auto

lemma stable_HashLen17to32:
  "len \<le> length s \<Longrightarrow> 16 < len \<Longrightarrow> stable (\<lambda>s. HashLen17to32 s len) s"
  unfolding HashLen17to32_def Let_def by (intro stable_intros) auto

lemma stable_WeakHash: "p + 32 \<le> length s \<Longrightarrow> stable (\<lambda>s. WeakHashLen32WithSeeds s p a b) s"
  unfolding WeakHashLen32WithSeeds_def by (intro stable_intros) auto

lemma stable_HashLen33to64:
  "len \<le> length s \<Longrightarrow> 32 < len \<Longrightarrow> stable (\<lambda>s. HashLen33to64 s len) s"
  unfolding HashLen33to64_def by (intro stable_intros) auto

lemma stable_city_chunk: "p + 64 \<le> length s \<Longrightarrow> stable (\<lambda>s. city_chunk s p st) s"
  unfolding city_chunk_def Let_def by (intro stable_intros stable_WeakHash) auto

lemma stable_city_loop:
  "p + 64 * n \<le> length s \<Longrightarrow> stable (\<lambda>s. city_loop n s p st) s"
proof (induction n arbitrary: p st)
  case (Suc n)
  then show ?case
    by (simp, intro stable_bind stable_city_chunk Suc.IH) auto
qed (simp add: stable_Some)

lemma stable_CityHash64: "len \<le> length s \<Longrightarrow> stable (\<lambda>s. CityHash64 s len) s"
  unfolding CityHash64_def Let_def
  by (intro stable_intros stable_HashLen0to16 stable_HashLen17to32 stable_HashLen33to64
      stable_WeakHash stable_city_loop) auto

lemma stable_murmur_loop:
  "p + 16 * n \<le> length s \<Longrightarrow> stable (\<lambda>s. murmur_loop n s p a b c d) s"
proof (induction n arbitrary: p a b c d)
  case (Suc n)
  then show ?case
    by (simp add: Let_def, intro stable_bind stable_fetch Suc.IH) auto
qed (simp add: stable_Some)

lemma stable_CityMurmur: "p + len \<le> length s \<Longrightarrow> stable (\<lambda>s. CityMurmur s p len seed) s"
  unfolding CityMurmur_def Let_def
  by (intro stable_intros stable_HashLen0to16 stable_murmur_loop) auto

lemma stable_city_tail:
  "p + len \<le> length s \<Longrightarrow> len \<le> 128 \<Longrightarrow> 128 \<le> p \<Longrightarrow> stable (\<lambda>s. city_tail s p len td st) s"
proof (induction "len - td" arbitrary: td st rule: less_induct)
  case less
  show ?case
  proof (cases "td < len")
    case True
    have rec: "stable (\<lambda>s. city_tail s p len (td + 32) st') s" for st'
      using less True by (intro less.hyps) simp_all
    have "stable (\<lambda>s. Some ()) s" by (rule stable_Some)
    then show ?thesis
      using less.prems True rec
      by (subst city_tail.simps, simp add: Let_def)
        (intro stable_bind stable_fetch stable_WeakHash rec, simp_all)
  next
    case False
    then show ?thesis by (subst city_tail.simps) (simp add: stable_Some)
  qed
qed

lemma stable_CityHash128WithSeed:
  assumes "p + len \<le> length s"
  shows "stable (\<lambda>s. CityHash128WithSeed s p len seed) s"
proof -
  have dm: "128 * (len div 128) + len mod 128 = len" by simp
  have *: "p + 64 * (2 * (len div 128)) \<le> length s" "len mod 128 \<le> 128"
    "p + 128 * (len div 128) + len mod 128 \<le> length s"
    using assms dm mod_less_divisor [of 128 len] by linarith+
  have "128 \<le> p + 128 * (len div 128)" if "\<not> len < 128"
  proof -
    have "1 \<le> len div 128" using that by (simp add: Suc_le_eq div_greater_zero_iff)
    then show ?thesis by linarith
  qed
  with * assms show ?thesis
    unfolding CityHash128WithSeed_def Let_def
    by (intro stable_intros stable_CityMurmur stable_city_loop stable_city_tail) auto
qed

lemma stable_CityHash128: "len \<le> length s \<Longrightarrow> stable (\<lambda>s. CityHash128 s len) s"
proof -
  assume len: "len \<le> length s"
  have "stable (\<lambda>s. CityHash128WithSeed [] 0 0 seed) s" for seed
    using stable_CityHash128WithSeed [of 0 0 "[]" seed] by (auto simp: stable_def)
  with len show ?thesis
    unfolding CityHash128_def
    by (intro stable_intros stable_CityHash128WithSeed) auto
qed

section \<open>Properties\<close>

text \<open>C17: CityHash64 and CityHash128 return a hash for every key: no load leaves the \<open>len\<close>
  bytes of the key, on any of the length classes, and bytes after the key do not change the
  result.\<close>

theorem CityHash_reads_only_key:
  "(\<exists>h. CityHash64 key (length key) = Some h \<and> (\<forall>t. CityHash64 (key @ t) (length key) = Some h)) \<and>
   (\<exists>h. CityHash128 key (length key) = Some h \<and> (\<forall>t. CityHash128 (key @ t) (length key) = Some h))"
  using stable_CityHash64 [of "length key" key] stable_CityHash128 [of "length key" key]
  by (simp add: stable_def)

end
