(* ===== verification/Blk_Index.thy ===== *)
theory Blk_Index
  imports Freelist Crc32 City "HOL-Library.Sublist"
begin

text \<open>
  The in-memory index of the key/value store (\<open>dp/core/blk_index.c\<close>, \<open>inc/ix/blk.h\<close>): a hash
  table of chains of \<open>struct index_ent\<close>. A chain is a HOL list; the \<open>next\<close> pointer of an entry
  is its place in the list. The table owns its entries, and callers only read through the
  pointers that lookups return. A key passed as \<open>const char *\<close> is the list of its bytes up to
  the terminating zero; the key field of an entry is the whole array of \<open>MAX_KEY_LEN\<close> bytes.
\<close>

section \<open>Data\<close>

definition MAX_ENTRIES :: nat where "MAX_ENTRIES = 4096"

definition MAX_KEY_LEN :: nat where "MAX_KEY_LEN = 108"

definition META_SZ :: nat where "META_SZ = 160 div 8 + MAX_KEY_LEN"

definition DATA_SZ :: nat where "DATA_SZ = LBA_SIZE - META_SZ"

definition METAMAGIC :: u16 where "METAMAGIC = 0xd006"

definition CALC_NUMBLKS :: "u64 \<Rightarrow> u64" where
  "CALC_NUMBLKS b =
     (if of_nat DATA_SZ < b
      then 1 + (b - of_nat DATA_SZ + of_nat LBA_SIZE - 1) div of_nat LBA_SIZE
      else 1)"

record index_ent =
  ie_magic :: u16
  ie_key :: bytes
  ie_lba :: lba_t
  ie_val_len :: u64
  ie_crc :: u32
  ie_version :: u16

type_synonym indx = "nat \<Rightarrow> index_ent list"

section \<open>C strings\<close>

text \<open>\<open>strlen\<close> of a character array; \<open>None\<close> when no terminator lies inside the array.\<close>

fun strlen :: "bytes \<Rightarrow> nat option" where
  "strlen [] = None"
| "strlen (c # cs) = (if c = 0 then Some 0 else map_option Suc (strlen cs))"

text \<open>\<open>strncmp (arr, key, strlen (key)) == 0\<close>.\<close>

fun strncmp_eq :: "bytes \<Rightarrow> bytes \<Rightarrow> bool" where
  "strncmp_eq arr [] = True"
| "strncmp_eq [] (k # ks) = False"
| "strncmp_eq (a # as) (k # ks) = (a = k \<and> (a = 0 \<or> strncmp_eq as ks))"

text \<open>The key of an entry read as a C string, a fault when it is not terminated.\<close>

definition ent_key :: "index_ent \<Rightarrow> bytes res" where
  "ent_key e = (case strlen (ie_key e) of None \<Rightarrow> Inl OutOfBounds
                | Some n \<Rightarrow> Inr (take n (ie_key e)))"

section \<open>Lookup\<close>

definition hashkey :: "bytes \<Rightarrow> u64" where
  "hashkey key = (case CityHash64 key (length key) of Some h \<Rightarrow> h | None \<Rightarrow> 0)"

definition hash_slot :: "bytes \<Rightarrow> nat" where
  "hash_slot key = unat (hashkey key mod of_nat MAX_ENTRIES)"

text \<open>
  The loop of \<open>key_lookup\<close> from the entry \<open>ret\<close> with successors \<open>rest\<close>: it stops at a match or
  at the last entry.
\<close>

fun lookup_walk :: "index_ent \<Rightarrow> index_ent list \<Rightarrow> bytes \<Rightarrow> index_ent \<times> index_ent list" where
  "lookup_walk ret [] key = (ret, [])"
| "lookup_walk ret (n # ns) key =
     (if strncmp_eq (ie_key n) key then (n, ns) else lookup_walk n ns key)"

definition key_lookup :: "indx \<Rightarrow> bytes \<Rightarrow> index_ent option" where
  "key_lookup idx key =
     (case idx (hash_slot key) of
        [] \<Rightarrow> None
      | e # es \<Rightarrow>
          if \<not> strncmp_eq (ie_key e) key
          then let (ret, rest) = lookup_walk e es key in
            if rest = [] \<and> \<not> strncmp_eq (ie_key ret) key then None else Some ret
          else Some e)"

definition get_index_ent :: "indx \<Rightarrow> bytes \<Rightarrow> index_ent option" where
  "get_index_ent idx key = key_lookup idx key"

definition get_version :: "indx \<Rightarrow> bytes \<Rightarrow> u16" where
  "get_version idx key = (case key_lookup idx key of None \<Rightarrow> 0 | Some ent \<Rightarrow> ie_version ent)"

section \<open>Updates\<close>

text \<open>
  \<open>new_index_ent\<close>: \<open>junk\<close> is what \<open>malloc\<close> left in the \<open>lba\<close> field, which is set only when
  the batch is flushed. A key longer than the array is written past its end.
\<close>

definition new_index_ent :: "indx \<Rightarrow> lba_t \<Rightarrow> bytes \<Rightarrow> bytes \<Rightarrow> index_ent res" where
  "new_index_ent idx junk key val =
     (if length key > MAX_KEY_LEN then Inl OutOfBounds
      else Inr \<lparr>ie_magic = METAMAGIC,
                ie_key = key @ replicate (MAX_KEY_LEN - length key) 0,
                ie_lba = junk,
                ie_val_len = of_nat (length val),
                ie_crc = newer_crc val,
                ie_version = get_version idx key + 1\<rparr>)"

text \<open>
  The walk of \<open>update_index\<close> behind a chain head that does not match: the entry found is
  replaced, or the new entry is linked at the end.
\<close>

fun update_walk :: "index_ent list \<Rightarrow> bytes \<Rightarrow> index_ent \<Rightarrow> index_ent list \<times> index_ent option" where
  "update_walk [] key meta = ([meta], None)"
| "update_walk (oldent # es) key meta =
     (if strncmp_eq (ie_key oldent) key then (meta # es, Some oldent)
      else let (es', old) = update_walk es key meta in (oldent # es', old))"

definition update_chain ::
  "index_ent list \<Rightarrow> bytes \<Rightarrow> index_ent \<Rightarrow> index_ent list \<times> index_ent option" where
  "update_chain chain key meta =
     (case chain of
        [] \<Rightarrow> ([meta], None)
      | oldent # es \<Rightarrow>
          if \<not> strncmp_eq (ie_key oldent) key
          then let (es', old) = update_walk es key meta in (oldent # es', old)
          else (meta # es, Some oldent))"

definition update_index :: "indx \<Rightarrow> freelist \<Rightarrow> index_ent \<Rightarrow> (indx \<times> freelist) res" where
  "update_index idx fl meta =
     rbind (ent_key meta) (\<lambda>key.
       let h = hash_slot key; (chain, old) = update_chain (idx h) key meta in
       case old of
         None \<Rightarrow> Inr (idx(h := chain), fl)
       | Some oldent \<Rightarrow>
           rbind (free_blk fl (ie_lba oldent) (ucast (CALC_NUMBLKS (ie_val_len oldent)))) (\<lambda>fl'.
             Inr (idx(h := chain), fl')))"

text \<open>
  \<open>delete_key\<close>: \<open>None\<close> from the walk is "not found". Whatever was found, the last statement
  empties the whole bucket.
\<close>

fun delete_walk :: "index_ent list \<Rightarrow> bytes \<Rightarrow> index_ent option" where
  "delete_walk [] key = None"
| "delete_walk (oldent # es) key =
     (if strncmp_eq (ie_key oldent) key then Some oldent else delete_walk es key)"

definition delete_key :: "indx \<Rightarrow> freelist \<Rightarrow> bytes \<Rightarrow> (indx \<times> freelist) res" where
  "delete_key idx fl key =
     (let h = hash_slot key in
      case idx h of
        [] \<Rightarrow> Inl NullDeref
      | e # es \<Rightarrow>
          (case (if \<not> strncmp_eq (ie_key e) key then delete_walk es key else Some e) of
             None \<Rightarrow> Inr (idx, fl)
           | Some oldent \<Rightarrow>
               rbind (free_blk fl (ie_lba oldent) (ucast (CALC_NUMBLKS (ie_val_len oldent)))) (\<lambda>fl'.
                 Inr (idx(h := []), fl'))))"

section \<open>The chain walks as searches\<close>

definition ekey :: "index_ent \<Rightarrow> bytes" where
  "ekey e = takeWhile (\<lambda>c. c \<noteq> 0) (ie_key e)"

definition terminated :: "index_ent \<Rightarrow> bool" where
  "terminated e \<longleftrightarrow> 0 \<in> set (ie_key e)"

lemma takeWhile_padded: "0 \<notin> set k \<Longrightarrow> takeWhile (\<lambda>c. c \<noteq> 0) (k @ replicate n 0) = k"
  by (induction k) (auto simp: takeWhile_eq_Nil_iff)

lemma strlen_takeWhile: "0 \<in> set a \<Longrightarrow> strlen a = Some (length (takeWhile (\<lambda>c. c \<noteq> 0) a))"
  by (induction a) auto

lemma strlen_None: "0 \<notin> set a \<Longrightarrow> strlen a = None"
  by (induction a) auto

lemma ent_key_eq: "ent_key e = (if terminated e then Inr (ekey e) else Inl OutOfBounds)"
  by (simp add: ent_key_def terminated_def ekey_def strlen_takeWhile strlen_None
      takeWhile_eq_take [symmetric])

text \<open>A comparison up to the length of the key asked for is a prefix test.\<close>

lemma strncmp_eq_prefix:
  "0 \<in> set arr \<Longrightarrow> 0 \<notin> set k \<Longrightarrow> strncmp_eq arr k \<longleftrightarrow> prefix k (takeWhile (\<lambda>c. c \<noteq> 0) arr)"
  by (induction arr k rule: strncmp_eq.induct) auto

lemma lookup_walk_find:
  "\<not> strncmp_eq (ie_key e) key \<Longrightarrow>
     (let (ret, rest) = lookup_walk e es key in
      if rest = [] \<and> \<not> strncmp_eq (ie_key ret) key then None else Some ret) =
     find (\<lambda>e. strncmp_eq (ie_key e) key) es"
  by (induction e es key rule: lookup_walk.induct) (auto split: prod.splits)

lemma key_lookup_find:
  "key_lookup idx key = find (\<lambda>e. strncmp_eq (ie_key e) key) (idx (hash_slot key))"
  by (simp add: key_lookup_def lookup_walk_find split: list.split)

lemma delete_walk_find: "delete_walk es key = find (\<lambda>e. strncmp_eq (ie_key e) key) es"
  by (induction es) auto

text \<open>Replacing the first entry of a list that satisfies \<open>P\<close>, or appending.\<close>

fun put_first :: "('a \<Rightarrow> bool) \<Rightarrow> 'a \<Rightarrow> 'a list \<Rightarrow> 'a list" where
  "put_first P x [] = [x]"
| "put_first P x (y # ys) = (if P y then x # ys else y # put_first P x ys)"

lemma update_walk_eq:
  "update_walk es key meta =
     (put_first (\<lambda>e. strncmp_eq (ie_key e) key) meta es, find (\<lambda>e. strncmp_eq (ie_key e) key) es)"
  by (induction es) auto

lemma update_chain_eq:
  "update_chain es key meta =
     (put_first (\<lambda>e. strncmp_eq (ie_key e) key) meta es, find (\<lambda>e. strncmp_eq (ie_key e) key) es)"
  by (simp add: update_chain_def update_walk_eq split: list.split)

section \<open>The index as a map\<close>

text \<open>
  \<open>prefix_safe K\<close>: no key of \<open>K\<close> is a proper prefix of another one in the same bucket. Keys of
  one length satisfy it. Without it lookups confuse keys, as \<open>lookup_confuses_prefix\<close> below shows.
\<close>

definition prefix_safe :: "bytes set \<Rightarrow> bool" where
  "prefix_safe K \<longleftrightarrow> (\<forall>k \<in> K. 0 \<notin> set k) \<and>
     (\<forall>a \<in> K. \<forall>b \<in> K. hash_slot a = hash_slot b \<longrightarrow> prefix a b \<longrightarrow> a = b)"

definition idx_inv :: "bytes set \<Rightarrow> indx \<Rightarrow> bool" where
  "idx_inv K idx \<longleftrightarrow>
     (\<forall>h. distinct (map ekey (idx h)) \<and>
       (\<forall>e \<in> set (idx h). terminated e \<and> ekey e \<in> K \<and> hash_slot (ekey e) = h))"

definition idx_put :: "indx \<Rightarrow> index_ent \<Rightarrow> indx" where
  "idx_put idx meta =
     (let h = hash_slot (ekey meta) in
      idx(h := put_first (\<lambda>e. strncmp_eq (ie_key e) (ekey meta)) meta (idx h)))"

lemma match_iff:
  assumes "prefix_safe K" "idx_inv K idx" "e \<in> set (idx (hash_slot k))" "k \<in> K"
  shows "strncmp_eq (ie_key e) k \<longleftrightarrow> ekey e = k"
proof -
  have e: "terminated e" "ekey e \<in> K" "hash_slot (ekey e) = hash_slot k"
    using assms(2,3) by (auto simp: idx_inv_def)
  have "strncmp_eq (ie_key e) k \<longleftrightarrow> prefix k (ekey e)"
    using e(1) assms(1,4) by (simp add: strncmp_eq_prefix terminated_def ekey_def prefix_safe_def)
  moreover have "ekey e = k" if "prefix k (ekey e)"
    using e assms(1,4) that unfolding prefix_safe_def by metis
  ultimately show ?thesis by auto
qed

lemma find_cong': "(\<And>x. x \<in> set xs \<Longrightarrow> P x = Q x) \<Longrightarrow> find P xs = find Q xs"
  by (induction xs) auto

lemma put_first_cong: "(\<And>x. x \<in> set xs \<Longrightarrow> P x = Q x) \<Longrightarrow> put_first P y xs = put_first Q y xs"
  by (induction xs) auto

lemma set_put_first: "set (put_first P x ys) \<subseteq> insert x (set ys)"
  by (induction ys) auto

lemma key_lookup_key:
  "prefix_safe K \<Longrightarrow> idx_inv K idx \<Longrightarrow> k \<in> K \<Longrightarrow>
     key_lookup idx k = find (\<lambda>e. ekey e = k) (idx (hash_slot k))"
  unfolding key_lookup_find by (rule find_cong') (rule match_iff)

lemma idx_put_key:
  "prefix_safe K \<Longrightarrow> idx_inv K idx \<Longrightarrow> ekey meta \<in> K \<Longrightarrow>
     idx_put idx meta = idx(hash_slot (ekey meta) :=
       put_first (\<lambda>e. ekey e = ekey meta) meta (idx (hash_slot (ekey meta))))"
  unfolding idx_put_def Let_def
  by (rule arg_cong [where f = "\<lambda>c. idx(hash_slot (ekey meta) := c)"], rule put_first_cong)
    (rule match_iff)

lemma find_put_first:
  "find (\<lambda>e. f e = k) (put_first (\<lambda>e. f e = f x) x ys) =
     (if k = f x then Some x else find (\<lambda>e. f e = k) ys)"
  by (induction ys) auto

lemma distinct_put_first:
  "distinct (map f ys) \<Longrightarrow> distinct (map f (put_first (\<lambda>e. f e = f x) x ys))"
proof (induction ys)
  case (Cons y ys)
  have "f y \<notin> f ` set (put_first (\<lambda>e. f e = f x) x ys)" if "f y \<noteq> f x"
    using that Cons.prems set_put_first [of "\<lambda>e. f e = f x" x ys] by auto
  with Cons show ?case by auto
qed simp

lemma idx_inv_put:
  assumes "prefix_safe K" "idx_inv K idx" "terminated meta" "ekey meta \<in> K"
  shows "idx_inv K (idx_put idx meta)"
  using assms(2-4) set_put_first [of "\<lambda>e. ekey e = ekey meta" meta "idx (hash_slot (ekey meta))"]
  unfolding idx_put_key [OF assms(1,2,4)] idx_inv_def
  by (auto simp: distinct_put_first)

lemma key_lookup_put:
  assumes "prefix_safe K" "idx_inv K idx" "terminated meta" "ekey meta \<in> K" "k \<in> K"
  shows "key_lookup (idx_put idx meta) k =
    (if k = ekey meta then Some meta else key_lookup idx k)"
proof -
  have "key_lookup (idx_put idx meta) k =
      find (\<lambda>e. ekey e = k) (idx_put idx meta (hash_slot k))"
    by (rule key_lookup_key [OF assms(1) idx_inv_put [OF assms(1-4)] assms(5)])
  then show ?thesis
    by (simp add: key_lookup_key [OF assms(1,2,5)] idx_put_key [OF assms(1,2,4)] find_put_first)
qed

lemma update_index_eq:
  assumes "terminated meta"
  shows "update_index idx fl meta =
    (case key_lookup idx (ekey meta) of
       None \<Rightarrow> Inr (idx_put idx meta, fl)
     | Some old \<Rightarrow> rbind (free_blk fl (ie_lba old) (ucast (CALC_NUMBLKS (ie_val_len old))))
         (\<lambda>fl'. Inr (idx_put idx meta, fl')))"
  using assms
  by (simp add: update_index_def ent_key_eq update_chain_eq key_lookup_find idx_put_def Let_def
      split: option.split)

lemma delete_key_eq:
  "delete_key idx fl key =
    (if idx (hash_slot key) = [] then Inl NullDeref
     else case key_lookup idx key of
       None \<Rightarrow> Inr (idx, fl)
     | Some old \<Rightarrow> rbind (free_blk fl (ie_lba old) (ucast (CALC_NUMBLKS (ie_val_len old))))
         (\<lambda>fl'. Inr (idx(hash_slot key := []), fl')))"
  by (cases "idx (hash_slot key)")
    (auto simp: delete_key_def key_lookup_find delete_walk_find Let_def)

lemma version_less: "v \<noteq> 0xFFFF \<Longrightarrow> v < v + 1" for v :: u16
proof -
  assume "v \<noteq> 0xFFFF"
  then have "unat v \<noteq> unat (0xFFFF :: u16)" by (simp only: word_eq_unat_iff not_False_eq_True)
  then have "unat v + 1 < 2 ^ LENGTH(16)" using unsigned_less [of v, where ?'a = nat] by simp
  then have "unat (v + 1) = unat v + 1" by (subst unat_add_no_wrap) simp_all
  then show ?thesis by (simp add: word_less_nat_alt)
qed

lemma new_index_ent_ok:
  assumes "0 \<notin> set key" "length key < MAX_KEY_LEN"
  shows "\<exists>e. new_index_ent idx junk key val = Inr e \<and> ekey e = key \<and> terminated e \<and>
    length (ie_key e) = MAX_KEY_LEN \<and> ie_magic e = METAMAGIC \<and> ie_val_len e = of_nat (length val) \<and>
    ie_crc e = newer_crc val \<and> ie_version e = get_version idx key + 1"
  using assms by (simp add: new_index_ent_def ekey_def terminated_def takeWhile_padded)

section \<open>The map contract\<close>

text \<open>
  What the write path and the start-up scan rely on: on the keys in use, the index behaves as a
  map from keys to entries. The consequences for a whole batch are proved once, here.
\<close>

locale key_map =
  fixes keys :: "bytes set"
    and inv :: "'i \<Rightarrow> bool"
    and lookup :: "'i \<Rightarrow> bytes \<Rightarrow> index_ent option"
    and put :: "'i \<Rightarrow> index_ent \<Rightarrow> 'i"
  assumes inv_put: "inv i \<Longrightarrow> terminated e \<Longrightarrow> ekey e \<in> keys \<Longrightarrow> inv (put i e)"
    and lookup_put: "inv i \<Longrightarrow> terminated e \<Longrightarrow> ekey e \<in> keys \<Longrightarrow> k \<in> keys \<Longrightarrow>
      lookup (put i e) k = (if k = ekey e then Some e else lookup i k)"
begin

definition storable :: "index_ent list \<Rightarrow> bool" where
  "storable es \<longleftrightarrow> (\<forall>e \<in> set es. terminated e \<and> ekey e \<in> keys)"

lemma inv_puts: "inv i \<Longrightarrow> storable es \<Longrightarrow> inv (fold (\<lambda>e i. put i e) es i)"
  by (induction es arbitrary: i) (simp_all add: storable_def inv_put)

text \<open>After a batch, every key has the last entry the batch holds for it.\<close>

lemma lookup_puts:
  "inv i \<Longrightarrow> storable es \<Longrightarrow> k \<in> keys \<Longrightarrow>
     lookup (fold (\<lambda>e i. put i e) es i) k =
       (case find (\<lambda>e. ekey e = k) (rev es) of Some e \<Rightarrow> Some e | None \<Rightarrow> lookup i k)"
proof (induction es rule: rev_induct)
  case (snoc e es)
  have "storable es" using snoc.prems(2) by (simp add: storable_def)
  with snoc show ?case
    using inv_puts [of i es] by (simp add: storable_def lookup_put split: option.split)
qed simp

end

text \<open>The set of keys is a parameter of the contract: any \<open>prefix_safe\<close> set will do.\<close>

definition safe_keys :: "bytes set \<Rightarrow> bytes set" where
  "safe_keys K = (if prefix_safe K then K else {})"

lemma prefix_safe_safe_keys: "prefix_safe (safe_keys K)"
  by (simp add: safe_keys_def prefix_safe_def)

interpretation km: key_map "safe_keys K" "idx_inv (safe_keys K)" key_lookup idx_put for K
proof unfold_locales
  fix i e k assume a: "idx_inv (safe_keys K) i" "terminated e" "ekey e \<in> safe_keys K"
  show "idx_inv (safe_keys K) (idx_put i e)"
    using a by (rule idx_inv_put [OF prefix_safe_safe_keys])
  show "key_lookup (idx_put i e) k = (if k = ekey e then Some e else key_lookup i k)"
    if "k \<in> safe_keys K"
    using a that by (rule key_lookup_put [OF prefix_safe_safe_keys])
qed

lemma idx_inv_empty: "idx_inv K (\<lambda>_. [])" "key_lookup (\<lambda>_. []) k = None"
  by (simp_all add: idx_inv_def key_lookup_find)

lemma prefix_safe_same_length:
  "\<forall>k \<in> K. length k = n \<and> 0 \<notin> set k \<Longrightarrow> prefix_safe K"
proof -
  assume K: "\<forall>k \<in> K. length k = n \<and> 0 \<notin> set k"
  have "a = b" if "a \<in> K" "b \<in> K" "prefix a b" for a b
    using K that by (metis append_eq_conv_conj append_self_conv prefix_def take_all order_refl)
  with K show ?thesis unfolding prefix_safe_def by blast
qed

section \<open>Properties\<close>

text \<open>C6: \<open>update_index\<close> implements a map. On keys of which none is a proper prefix of another
  one in its bucket, an update keeps the table well formed, makes the new entry the answer for
  its key and changes no other answer. The blocks of the entry it replaces are released, and the
  free list is left alone when there is none.\<close>

theorem update_index_is_map_update:
  assumes "prefix_safe K" "idx_inv K idx" "terminated meta" "ekey meta \<in> K"
  shows "\<exists>idx'. idx_inv K idx' \<and>
    (\<forall>k \<in> K. key_lookup idx' k = (if k = ekey meta then Some meta else key_lookup idx k)) \<and>
    update_index idx fl meta =
      (case key_lookup idx (ekey meta) of
         None \<Rightarrow> Inr (idx', fl)
       | Some old \<Rightarrow> rbind (free_blk fl (ie_lba old) (ucast (CALC_NUMBLKS (ie_val_len old))))
           (\<lambda>fl'. Inr (idx', fl')))"
  using idx_inv_put [OF assms] key_lookup_put [OF assms] update_index_eq [OF assms(3)] by blast

definition ent_of :: "bytes \<Rightarrow> u16 \<Rightarrow> index_ent" where
  "ent_of key version =
     \<lparr>ie_magic = METAMAGIC, ie_key = key @ replicate (MAX_KEY_LEN - length key) 0, ie_lba = 0,
      ie_val_len = 3, ie_crc = 0, ie_version = version\<rparr>"

lemma ent_of_key:
  assumes "0 \<notin> set key" "length key < MAX_KEY_LEN"
  shows "terminated (ent_of key version)" "ekey (ent_of key version) = key"
proof -
  obtain n where n: "MAX_KEY_LEN - length key = Suc n" using assms(2) by (metis Suc_diff_Suc)
  then show "terminated (ent_of key version)" by (simp add: ent_of_def terminated_def)
  show "ekey (ent_of key version) = key"
    using assms(1) by (simp add: ent_of_def ekey_def takeWhile_padded)
qed

theorem update_index_is_map_update_witness:
  "\<exists>idx'. update_index (\<lambda>_. []) freelist_init (ent_of [97, 98] 1) = Inr (idx', freelist_init) \<and>
    key_lookup idx' [97, 98] = Some (ent_of [97, 98] 1) \<and> key_lookup idx' [97, 99] = None"
proof -
  have k: "terminated (ent_of [97, 98] 1)" "ekey (ent_of [97, 98] 1) = [97, 98]"
    by (rule ent_of_key, simp_all add: MAX_KEY_LEN_def)+
  have "prefix_safe {[97, 98], [97, 99]}" by (rule prefix_safe_same_length [of _ 2]) simp
  from update_index_is_map_update [OF this idx_inv_empty(1) k(1), of freelist_init]
  show ?thesis using k(2) by (auto simp: idx_inv_empty)
qed

text \<open>C31: lookups compare only \<open>strlen (key)\<close> characters. A key that was never stored is answered
  with the entry of a longer key that starts with it, when both fall into one bucket.\<close>

theorem lookup_confuses_prefix:
  assumes "terminated e" "0 \<notin> set k" "prefix k (ekey e)" "hash_slot k = hash_slot (ekey e)"
  shows "update_index (\<lambda>_. []) fl e = Inr (idx_put (\<lambda>_. []) e, fl) \<and>
    key_lookup (idx_put (\<lambda>_. []) e) k = Some e"
  using assms strncmp_eq_prefix [of "ie_key e" k]
  by (simp add: update_index_eq idx_inv_empty key_lookup_find idx_put_def terminated_def ekey_def)

theorem lookup_confuses_prefix_witness:
  "key_lookup (idx_put (\<lambda>_. []) (ent_of [100, 104, 103] 1)) [100] = Some (ent_of [100, 104, 103] 1)"
proof -
  have k: "terminated (ent_of [100, 104, 103] 1)" "ekey (ent_of [100, 104, 103] 1) = [100, 104, 103]"
    by (rule ent_of_key, simp_all add: MAX_KEY_LEN_def)+
  have "hash_slot [100] = hash_slot [100, 104, 103]" by code_simp
  with lookup_confuses_prefix [of "ent_of [100, 104, 103] 1" "[100]" "[]"] k show ?thesis by simp
qed

text \<open>C32: \<open>delete_key\<close> of a stored key releases the blocks of its entry and forgets the key. Its
  last statement also empties the bucket: every other key of the bucket is lost with it, and
  their blocks stay allocated. Keys of other buckets are not touched.\<close>

theorem delete_key_drops_bucket:
  assumes "key_lookup idx key = Some e"
    and "free_blk fl (ie_lba e) (ucast (CALC_NUMBLKS (ie_val_len e))) = Inr fl'"
  shows "\<exists>idx'. delete_key idx fl key = Inr (idx', fl') \<and>
    (\<forall>k. key_lookup idx' k = (if hash_slot k = hash_slot key then None else key_lookup idx k))"
  using assms by (auto simp: delete_key_eq key_lookup_find)

theorem delete_key_drops_bucket_witness:
  "\<exists>idx' fl'. delete_key (idx_put (idx_put (\<lambda>_. []) (ent_of [100] 1)) (ent_of [100, 104, 103] 1))
     [\<lparr>start_lba = 5, lba_count = 10\<rparr>] [100] = Inr (idx', fl') \<and>
     key_lookup idx' [100, 104, 103] = None"
proof -
  let ?idx = "idx_put (idx_put (\<lambda>_. []) (ent_of [100] 1)) (ent_of [100, 104, 103] 1)"
  have h: "hash_slot [100, 104, 103] = hash_slot [100]" by code_simp
  have k: "terminated (ent_of [100] 1)" "ekey (ent_of [100] 1) = [100]"
    "ekey (ent_of [100, 104, 103] 1) = [100, 104, 103]"
    by (rule ent_of_key, simp_all add: MAX_KEY_LEN_def)+
  have "strncmp_eq (ie_key (ent_of [100] 1)) [100]"
    "\<not> strncmp_eq (ie_key (ent_of [100] 1)) [100, 104, 103]"
    using k strncmp_eq_prefix [of "ie_key (ent_of [100] 1)" "[100]"]
      strncmp_eq_prefix [of "ie_key (ent_of [100] 1)" "[100, 104, 103]"]
    by (simp_all add: terminated_def ekey_def)
  then have "key_lookup ?idx [100] = Some (ent_of [100] 1)"
    using k h by (simp add: key_lookup_find idx_put_def)
  moreover have "\<exists>fl'. free_blk [\<lparr>start_lba = 5, lba_count = 10\<rparr>] (ie_lba (ent_of [100] 1))
      (ucast (CALC_NUMBLKS (ie_val_len (ent_of [100] 1)))) = Inr fl'"
    using free_blk_correct [of "[\<lparr>start_lba = 5, lba_count = 10\<rparr>]" 1 0]
    by (auto simp: ent_of_def CALC_NUMBLKS_def DATA_SZ_def LBA_SIZE_def META_SZ_def MAX_KEY_LEN_def
        wf_ent_def est_def een_def MAX_LBA_NUM_eq blk_range_def)
  ultimately show ?thesis using delete_key_drops_bucket h by metis
qed

text \<open>C35: \<open>delete_key\<close> of a key that is not in the index reports it and changes nothing, except
  when the bucket is empty: then the null pointer in the table is dereferenced.\<close>

theorem delete_key_absent:
  assumes "key_lookup idx key = None"
  shows "delete_key idx fl key =
    (if idx (hash_slot key) = [] then Inl NullDeref else Inr (idx, fl))"
  using assms by (simp add: delete_key_eq)

theorem delete_key_absent_witness: "delete_key (\<lambda>_. []) freelist_init [97] = Inl NullDeref"
  using delete_key_absent [of "\<lambda>_. []" "[97]" freelist_init] by (simp add: idx_inv_empty)

text \<open>C19: the entry that \<open>new_index_ent\<close> makes for a key that fits its array describes the key,
  the length and the checksum of the value. Its version is above that of the indexed entry, unless
  the 16-bit counter is at its end, where it restarts at 0. A key longer than the array is
  written past the end of it, and a key of exactly its size loses its terminator.\<close>

theorem new_index_ent_correct:
  assumes "0 \<notin> set key"
  shows "case new_index_ent idx junk key val of
      Inl f \<Rightarrow> f = OutOfBounds \<and> MAX_KEY_LEN < length key
    | Inr e \<Rightarrow> length key \<le> MAX_KEY_LEN \<and> ekey e = key \<and> (terminated e \<longleftrightarrow> length key < MAX_KEY_LEN) \<and>
        length (ie_key e) = MAX_KEY_LEN \<and> ie_magic e = METAMAGIC \<and>
        ie_val_len e = of_nat (length val) \<and> ie_crc e = newer_crc val \<and>
        (case key_lookup idx key of
           None \<Rightarrow> ie_version e = 1
         | Some old \<Rightarrow> if ie_version old = 0xFFFF then ie_version e = 0 else ie_version old < ie_version e)"
  using assms version_less
  by (auto simp: new_index_ent_def get_version_def ekey_def terminated_def takeWhile_padded
      split: option.split)

theorem new_index_ent_correct_witness:
  "\<exists>e. new_index_ent (\<lambda>_. []) 9 [97, 98] [1, 2, 3] = Inr e \<and> ekey e = [97, 98] \<and> terminated e \<and>
     ie_version e = 1"
  using new_index_ent_correct [of "[97, 98]" "[1, 2, 3]" "\<lambda>_. []" 9]
  by (auto simp: MAX_KEY_LEN_def idx_inv_empty split: sum.splits)

end
