(* ===== verification/Dummy_Dev.thy ===== *)
theory Dummy_Dev
  imports Freelist
begin

text \<open>
  The storage device (\<open>dp/core/dummy_dev.c\<close>): a shared-memory mapping of \<open>STORAGE_SIZE\<close> bytes,
  here a function from byte offsets. A copy that leaves the mapping is an out-of-bounds fault. A
  scatter-gather entry is the list of bytes it points to. Writes complete later through a timer:
  the argument \<open>iot\<close> says whether the timer pool had an element left, and the callback itself is
  queued by the caller.
\<close>

type_synonym dev = "nat \<Rightarrow> u8"

definition dev_copy_out :: "dev \<Rightarrow> nat \<Rightarrow> nat \<Rightarrow> bytes res" where
  "dev_copy_out dev off len =
     (if off + len \<le> STORAGE_SIZE then Inr (map dev [off..<off + len]) else Inl OutOfBounds)"

definition dev_copy_in :: "dev \<Rightarrow> nat \<Rightarrow> bytes \<Rightarrow> dev res" where
  "dev_copy_in dev off bs =
     (if off + length bs \<le> STORAGE_SIZE
      then Inr (\<lambda>i. if off \<le> i \<and> i < off + length bs then bs ! (i - off) else dev i)
      else Inl OutOfBounds)"

definition dummy_dev_read :: "dev \<Rightarrow> u64 \<Rightarrow> u64 \<Rightarrow> bytes res" where
  "dummy_dev_read dev lba cnt =
     dev_copy_out dev (unat (lba * of_nat LBA_SIZE)) (unat (cnt * of_nat LBA_SIZE))"

definition dummy_dev_write :: "dev \<Rightarrow> bytes \<Rightarrow> u64 \<Rightarrow> u64 \<Rightarrow> bool \<Rightarrow> dev res" where
  "dummy_dev_write dev payload lba cnt iot =
     (if length payload < unat (cnt * of_nat LBA_SIZE) then Inl OutOfBounds
      else rbind (dev_copy_in dev (unat (lba * of_nat LBA_SIZE))
                   (take (unat (cnt * of_nat LBA_SIZE)) payload)) (\<lambda>dev'.
        rbind (assert_that iot) (\<lambda>_. Inr dev')))"

text \<open>The loop of \<open>dummy_dev_writev\<close>, with \<open>bytes_written\<close> bytes written so far.\<close>

fun writev_loop :: "dev \<Rightarrow> bytes list \<Rightarrow> u64 \<Rightarrow> u64 \<Rightarrow> nat \<Rightarrow> dev res" where
  "writev_loop dev [] lba cnt bytes_written = Inr dev"
| "writev_loop dev (ent # ents) lba cnt bytes_written =
     rbind (dev_copy_in dev (unat (lba * of_nat LBA_SIZE + of_nat bytes_written)) ent) (\<lambda>dev'.
       let bw = bytes_written + length ent in
       rbind (assert_that (bw \<le> unat (cnt * of_nat LBA_SIZE))) (\<lambda>_.
         writev_loop dev' ents lba cnt bw))"

definition dummy_dev_writev :: "dev \<Rightarrow> bytes list \<Rightarrow> u64 \<Rightarrow> u64 \<Rightarrow> bool \<Rightarrow> dev res" where
  "dummy_dev_writev dev ents lba cnt iot =
     rbind (writev_loop dev ents lba cnt 0) (\<lambda>dev'.
       rbind (assert_that iot) (\<lambda>_. Inr dev'))"

section \<open>Contents of the device\<close>

text \<open>\<open>dev_put dev off bs\<close> is the device with \<open>bs\<close> stored at \<open>off\<close>.\<close>

definition dev_put :: "dev \<Rightarrow> nat \<Rightarrow> bytes \<Rightarrow> dev" where
  "dev_put dev off bs = (\<lambda>i. if off \<le> i \<and> i < off + length bs then bs ! (i - off) else dev i)"

lemma dev_put_Nil [simp]: "dev_put dev off [] = dev"
  by (auto simp: dev_put_def fun_eq_iff)

lemma dev_copy_in_put:
  "off + length bs \<le> STORAGE_SIZE \<Longrightarrow> dev_copy_in dev off bs = Inr (dev_put dev off bs)"
  by (simp add: dev_copy_in_def dev_put_def)

lemma dev_put_append: "dev_put (dev_put dev off as) (off + length as) bs = dev_put dev off (as @ bs)"
  by (auto simp: dev_put_def nth_append fun_eq_iff)

lemma dev_copy_out_put:
  assumes "off \<le> o'" "o' + len \<le> off + length bs" "off + length bs \<le> STORAGE_SIZE"
  shows "dev_copy_out (dev_put dev off bs) o' len = Inr (take len (drop (o' - off) bs))"
proof -
  have "map (dev_put dev off bs) [o'..<o' + len] = take len (drop (o' - off) bs)"
    using assms by (intro nth_equalityI) (auto simp: dev_put_def)
  with assms show ?thesis by (simp add: dev_copy_out_def)
qed

lemma dev_copy_out_other:
  assumes "o' + len \<le> off \<or> off + length bs \<le> o'"
  shows "dev_copy_out (dev_put dev off bs) o' len = dev_copy_out dev o' len"
  using assms by (auto simp: dev_copy_out_def dev_put_def)

lemma unat_lba_offset:
  assumes "unat lba * LBA_SIZE + k \<le> STORAGE_SIZE"
  shows "unat (lba * of_nat LBA_SIZE + of_nat k :: u64) = unat lba * LBA_SIZE + k"
    "unat (lba * of_nat LBA_SIZE :: u64) = unat lba * LBA_SIZE"
proof -
  have *: "unat (lba * of_nat LBA_SIZE :: u64) = unat lba * LBA_SIZE"
    using assms by (simp add: unat_word_ariths STORAGE_SIZE_def LBA_SIZE_def)
  have "unat (of_nat k :: u64) = k"
    using assms by (simp add: unat_of_nat STORAGE_SIZE_def)
  with * assms show "unat (lba * of_nat LBA_SIZE + of_nat k :: u64) = unat lba * LBA_SIZE + k"
    by (subst unat_add_no_wrap) (simp_all add: STORAGE_SIZE_def)
  show "unat (lba * of_nat LBA_SIZE :: u64) = unat lba * LBA_SIZE" by (rule *)
qed

text \<open>A vectored write that fits its blocks stores the concatenation of its entries.\<close>

lemma writev_loop_eq:
  assumes "unat lba * LBA_SIZE + unat cnt * LBA_SIZE \<le> STORAGE_SIZE"
    and "bw + length (concat ents) \<le> unat cnt * LBA_SIZE"
  shows "writev_loop dev ents lba cnt bw =
    Inr (dev_put dev (unat lba * LBA_SIZE + bw) (concat ents))"
  using assms(2)
proof (induction ents arbitrary: dev bw)
  case (Cons e ents)
  have off: "unat (lba * of_nat LBA_SIZE + of_nat bw :: u64) = unat lba * LBA_SIZE + bw"
    using assms(1) Cons.prems by (intro unat_lba_offset) simp
  have cnt: "unat (cnt * of_nat LBA_SIZE :: u64) = unat cnt * LBA_SIZE"
    using assms(1) unat_lba_offset(2) [of cnt 0] by simp
  have "writev_loop (dev_put dev (unat lba * LBA_SIZE + bw) e) ents lba cnt (bw + length e) =
      Inr (dev_put dev (unat lba * LBA_SIZE + bw) (e @ concat ents))"
    using Cons by (simp add: dev_put_append [symmetric] add.assoc)
  with Cons.prems assms(1) off cnt show ?case
    by (simp add: dev_copy_in_put)
qed simp

text \<open>An entry that does not fit any more is written and then refused.\<close>

lemma writev_loop_append:
  "writev_loop dev (as @ bs) lba cnt bw =
     rbind (writev_loop dev as lba cnt bw) (\<lambda>dev'. writev_loop dev' bs lba cnt (bw + length (concat as)))"
  by (induction as arbitrary: dev bw) (auto simp: Let_def add.assoc)

lemma writev_overrun:
  assumes "unat lba * LBA_SIZE + length (concat ents) + length ent \<le> STORAGE_SIZE"
    and "length (concat ents) \<le> unat cnt * LBA_SIZE" "unat cnt * LBA_SIZE < length (concat ents) + length ent"
    and "unat lba * LBA_SIZE + unat cnt * LBA_SIZE \<le> STORAGE_SIZE"
  shows "writev_loop dev (ents @ [ent]) lba cnt 0 = Inl AssertFailed"
proof -
  have "unat (lba * of_nat LBA_SIZE + of_nat (length (concat ents)) :: u64) =
      unat lba * LBA_SIZE + length (concat ents)"
    using assms(1) by (intro unat_lba_offset) simp
  moreover have "unat (cnt * of_nat LBA_SIZE :: u64) = unat cnt * LBA_SIZE"
    using assms(4) unat_lba_offset(2) [of cnt 0] by simp
  ultimately show ?thesis
    using assms writev_loop_eq [OF assms(4), of 0 ents dev]
    by (simp add: writev_loop_append dev_copy_in_put Let_def)
qed

lemma dummy_dev_writev_eq:
  assumes "unat lba * LBA_SIZE + unat cnt * LBA_SIZE \<le> STORAGE_SIZE"
    and "length (concat ents) \<le> unat cnt * LBA_SIZE"
  shows "dummy_dev_writev dev ents lba cnt True = Inr (dev_put dev (unat lba * LBA_SIZE) (concat ents))"
  using writev_loop_eq [OF assms(1), of 0 ents dev] assms(2) by (simp add: dummy_dev_writev_def)

lemma dummy_dev_read_eq:
  assumes "unat lba * LBA_SIZE + unat cnt * LBA_SIZE \<le> STORAGE_SIZE"
  shows "dummy_dev_read dev lba cnt = Inr (map dev [unat lba * LBA_SIZE..<(unat lba + unat cnt) * LBA_SIZE])"
proof -
  have "unat (lba * of_nat LBA_SIZE :: u64) = unat lba * LBA_SIZE"
    "unat (cnt * of_nat LBA_SIZE :: u64) = unat cnt * LBA_SIZE"
    using assms unat_lba_offset(2) [of lba 0] unat_lba_offset(2) [of cnt 0] by simp_all
  with assms show ?thesis
    by (simp add: dummy_dev_read_def dev_copy_out_def add_mult_distrib)
qed

text \<open>Reading the written blocks back gives the entries followed by what was there before.\<close>

lemma read_after_writev:
  assumes "unat lba * LBA_SIZE + unat cnt * LBA_SIZE \<le> STORAGE_SIZE"
    and "length (concat ents) = unat cnt * LBA_SIZE"
    and "dummy_dev_writev dev ents lba cnt True = Inr dev'"
  shows "dummy_dev_read dev' lba cnt = Inr (concat ents)"
proof -
  have dev': "dev' = dev_put dev (unat lba * LBA_SIZE) (concat ents)"
    using dummy_dev_writev_eq [OF assms(1), of ents dev] assms(2,3) by simp
  have "map dev' [unat lba * LBA_SIZE..<(unat lba + unat cnt) * LBA_SIZE] = concat ents"
    using assms(2) by (intro nth_equalityI) (auto simp: dev' dev_put_def add_mult_distrib)
  with dummy_dev_read_eq [OF assms(1)] show ?thesis by simp
qed

end
