(* ===== verification/Index_Init.thy ===== *)
theory Index_Init
  imports Blk_Index Dummy_Dev
begin

text \<open>
  Rebuilding the index from the device at start-up (\<open>init_cb\<close> and \<open>index_init\<close> of
  \<open>dp/core/blk_index.c\<close>), and the on-device layout of \<open>struct index_ent\<close>, which is written and
  read as raw memory: packed, little-endian, \<open>META_SZ\<close> bytes without the \<open>next\<close> pointer.
\<close>

section \<open>Metadata layout\<close>

definition meta_bytes :: "index_ent \<Rightarrow> bytes" where
  "meta_bytes e =
     to_le 2 (ie_magic e) @ ie_key e @ to_le 4 (ie_lba e) @ to_le 8 (ie_val_len e) @
     to_le 4 (ie_crc e) @ to_le 2 (ie_version e)"

definition parse_meta :: "bytes \<Rightarrow> index_ent" where
  "parse_meta bs =
     \<lparr>ie_magic = from_le (take 2 bs),
      ie_key = take MAX_KEY_LEN (drop 2 bs),
      ie_lba = from_le (take 4 (drop 110 bs)),
      ie_val_len = from_le (take 8 (drop 114 bs)),
      ie_crc = from_le (take 4 (drop 122 bs)),
      ie_version = from_le (take 2 (drop 126 bs))\<rparr>"

section \<open>The start-up scan\<close>

record scan =
  sc_indx :: indx
  sc_freelist :: freelist
  sc_blks_read :: "32 word"

text \<open>\<open>newer_crc (p, len)\<close> on a buffer of known size.\<close>

definition crc_of :: "bytes \<Rightarrow> u64 \<Rightarrow> u32 res" where
  "crc_of buf len =
     (if unat len \<le> length buf then Inr (newer_crc (take (unat len) buf)) else Inl OutOfBounds)"

text \<open>The part of \<open>init_cb\<close> for an entry that is new or newer than the one in the index.\<close>

definition init_entry :: "dev \<Rightarrow> scan \<Rightarrow> bytes \<Rightarrow> index_ent \<Rightarrow> lbasz_t \<Rightarrow> scan res" where
  "init_entry dev sc arg ent blks =
     rbind (if of_nat DATA_SZ < ie_val_len ent
            then rbind (dummy_dev_read dev (scast (sc_blks_read sc)) (ucast blks)) (\<lambda>buf.
                   crc_of (drop META_SZ buf) (ie_val_len ent))
            else crc_of (drop META_SZ arg) (ie_val_len ent)) (\<lambda>tocheck_crc.
       if ie_crc ent \<noteq> tocheck_crc then Inr sc
       else rbind (update_index (sc_indx sc) (sc_freelist sc) ent) (\<lambda>(idx, fl).
         rbind (alloc_block fl (ie_lba ent) blks) (\<lambda>fl'.
           Inr (sc\<lparr>sc_indx := idx, sc_freelist := fl'\<rparr>))))"

definition init_cb :: "dev \<Rightarrow> scan \<Rightarrow> bytes \<Rightarrow> scan res" where
  "init_cb dev sc arg =
     (if from_le (take 2 arg) = METAMAGIC then
        let ent = parse_meta arg in
        rbind (assert_that (0 < ie_val_len ent)) (\<lambda>_.
        let blks = ucast (CALC_NUMBLKS (ie_val_len ent)) in
        rbind (ent_key ent) (\<lambda>key.
        let old = get_index_ent (sc_indx sc) key in
        rbind (if (case old of Some o' \<Rightarrow> ie_version o' < ie_version ent | None \<Rightarrow> True)
               then init_entry dev sc arg ent blks else Inr sc) (\<lambda>sc'.
          Inr (sc'\<lparr>sc_blks_read := sc_blks_read sc' + blks\<rparr>))))
      else Inr (sc\<lparr>sc_blks_read := sc_blks_read sc + 1\<rparr>))"

text \<open>
  The scan loop. A corrupt entry can make it advance by a multiple of \<open>2 ^ 32\<close> blocks, that is,
  not at all: \<open>None\<close> is a scan that does not return.
\<close>

partial_function (option) index_scan :: "dev \<Rightarrow> scan \<Rightarrow> scan res option" where
  "index_scan dev sc =
     (if sint (sc_blks_read sc) < int MAX_LBA_NUM
      then case rbind (dummy_dev_read dev (scast (sc_blks_read sc)) 1) (\<lambda>buf. init_cb dev sc buf) of
             Inl e \<Rightarrow> Some (Inl e)
           | Inr sc' \<Rightarrow> index_scan dev sc'
      else Some (Inr sc))"

definition index_init :: "dev \<Rightarrow> freelist \<Rightarrow> scan res option" where
  "index_init dev fl =
     index_scan dev \<lparr>sc_indx = (\<lambda>_. []), sc_freelist = fl, sc_blks_read = 0\<rparr>"

section \<open>Layout round trip\<close>

lemma length_meta_bytes: "length (ie_key e) = MAX_KEY_LEN \<Longrightarrow> length (meta_bytes e) = META_SZ"
  by (simp add: meta_bytes_def META_SZ_def MAX_KEY_LEN_def)

lemma parse_meta_bytes:
  assumes "length (ie_key e) = MAX_KEY_LEN"
  shows "parse_meta (meta_bytes e @ rest) = e"
  using assms by (simp add: parse_meta_def meta_bytes_def MAX_KEY_LEN_def)

lemma magic_meta_bytes: "from_le (take 2 (meta_bytes e @ rest)) = ie_magic e"
  by (simp add: meta_bytes_def)

section \<open>Sizes\<close>

definition nblks :: "index_ent \<Rightarrow> lbasz_t" where
  "nblks e = ucast (CALC_NUMBLKS (ie_val_len e))"

definition ent_range :: "index_ent \<Rightarrow> nat set" where
  "ent_range e = blk_range (ie_lba e) (nblks e)"

lemma META_SZ_eq: "META_SZ = 128" and DATA_SZ_eq: "DATA_SZ = 384"
  by (simp_all add: DATA_SZ_def META_SZ_def LBA_SIZE_def MAX_KEY_LEN_def)

lemma unat_CALC_NUMBLKS:
  assumes "n \<le> STORAGE_SIZE"
  shows "unat (CALC_NUMBLKS (of_nat n)) = (if 384 < n then 1 + (n + 127) div 512 else 1)"
proof -
  have n: "unat (of_nat n :: u64) = n" "n \<le> 1000000000"
    using assms by (simp_all add: unat_of_nat STORAGE_SIZE_def)
  show ?thesis
  proof (cases "384 < n")
    case True
    let ?d = "(of_nat n - 384 + 512 - 1) div 512 :: u64"
    have "unat (of_nat (n + 127) :: u64) = n + 127"
      using n by (subst unat_of_nat) simp
    moreover have "(of_nat n - 384 + 512 - 1 :: u64) = of_nat (n + 127)"
      using True by simp
    ultimately have d: "unat ?d = (n + 127) div 512"
      by (simp only: unat_div) simp
    have "unat (1 + ?d) = 1 + unat ?d"
      using n by (subst unat_add_no_wrap) (simp_all only: d, simp_all)
    moreover have "(384 :: u64) < of_nat n" using True n by (simp add: word_less_nat_alt)
    ultimately show ?thesis
      using True by (simp only: CALC_NUMBLKS_def DATA_SZ_eq LBA_SIZE_def d) simp
  next
    case False
    then have "\<not> (384 :: u64) < of_nat n" using n by (simp add: word_less_nat_alt)
    with False show ?thesis by (simp add: CALC_NUMBLKS_def DATA_SZ_eq)
  qed
qed

text \<open>The blocks of an entry hold its metadata and its value, and no block is superfluous.\<close>

lemma unat_nblks:
  assumes "n \<le> STORAGE_SIZE" "ie_val_len e = of_nat n"
  shows "unat (nblks e) = (if 384 < n then 1 + (n + 127) div 512 else 1)"
proof -
  have "(n + 127) div 512 \<le> (1000000000 + 127) div 512"
    using assms(1) by (intro div_le_mono) (simp add: STORAGE_SIZE_def)
  then have "unat (CALC_NUMBLKS (of_nat n)) < 2 ^ 32"
    using assms(1) by (simp add: unat_CALC_NUMBLKS)
  then show ?thesis
    using assms by (simp add: nblks_def unat_CALC_NUMBLKS unsigned_ucast_eq take_bit_nat_eq_self)
qed

lemma nblks_fits:
  assumes "n \<le> STORAGE_SIZE" "ie_val_len e = of_nat n"
  shows "META_SZ + n \<le> unat (nblks e) * LBA_SIZE" "0 < nblks e"
  using unat_nblks [OF assms] by (auto simp: META_SZ_eq LBA_SIZE_def word_less_nat_alt)

section \<open>Devices made of records\<close>

text \<open>
  A device image is a sequence of items: a record (metadata, value and padding, starting at the
  block that its \<open>lba\<close> field names) or a block that does not start with the magic number.
\<close>

datatype item = Gap | Rec index_ent bytes

definition block_bytes :: "dev \<Rightarrow> nat \<Rightarrow> nat \<Rightarrow> bytes" where
  "block_bytes dev pos n = map dev [pos * LBA_SIZE..<(pos + n) * LBA_SIZE]"

definition wf_rec :: "bytes set \<Rightarrow> index_ent \<Rightarrow> bytes \<Rightarrow> bool" where
  "wf_rec K e val \<longleftrightarrow>
     ie_magic e = METAMAGIC \<and> length (ie_key e) = MAX_KEY_LEN \<and> terminated e \<and> ekey e \<in> K \<and>
     0 < length val \<and> length val \<le> STORAGE_SIZE \<and> ie_val_len e = of_nat (length val)"

fun items_at :: "bytes set \<Rightarrow> dev \<Rightarrow> nat \<Rightarrow> item list \<Rightarrow> bool" where
  "items_at K dev pos [] \<longleftrightarrow> pos = MAX_LBA_NUM"
| "items_at K dev pos (Gap # is) \<longleftrightarrow>
     pos < MAX_LBA_NUM \<and> (from_le (take 2 (block_bytes dev pos 1)) :: u16) \<noteq> METAMAGIC \<and>
     items_at K dev (Suc pos) is"
| "items_at K dev pos (Rec e val # is) \<longleftrightarrow>
     wf_rec K e val \<and> unat (ie_lba e) = pos \<and> pos + unat (nblks e) \<le> MAX_LBA_NUM \<and>
     (\<exists>pad. block_bytes dev pos (unat (nblks e)) = meta_bytes e @ val @ pad) \<and>
     items_at K dev (pos + unat (nblks e)) is"

text \<open>
  What the scan is meant to find: for every key the entry with the highest version among those
  whose checksum matches their value.
\<close>

definition newer :: "(bytes \<rightharpoonup> index_ent) \<Rightarrow> index_ent \<Rightarrow> bool" where
  "newer m e \<longleftrightarrow> (case m (ekey e) of Some old \<Rightarrow> ie_version old < ie_version e | None \<Rightarrow> True)"

fun recover :: "(bytes \<rightharpoonup> index_ent) \<Rightarrow> item list \<Rightarrow> (bytes \<rightharpoonup> index_ent)" where
  "recover m [] = m"
| "recover m (Gap # is) = recover m is"
| "recover m (Rec e val # is) = 
     recover (if newer m e \<and> ie_crc e = newer_crc val then m(ekey e \<mapsto> e) else m) is"

definition scan_inv :: "bytes set \<Rightarrow> nat \<Rightarrow> (bytes \<rightharpoonup> index_ent) \<Rightarrow> indx \<Rightarrow> freelist \<Rightarrow> bool" where
  "scan_inv K pos m idx fl \<longleftrightarrow>
     idx_inv K idx \<and> fl_inv fl \<and> (\<forall>k \<in> K. key_lookup idx k = m k) \<and> dom m \<subseteq> K \<and>
     (\<forall>e \<in> ran m. 0 < nblks e \<and> ent_range e \<subseteq> {..<pos}) \<and>
     (\<forall>k k' e e'. m k = Some e \<longrightarrow> m k' = Some e' \<longrightarrow> k \<noteq> k' \<longrightarrow> ent_range e \<inter> ent_range e' = {}) \<and>
     free_set fl = {..<MAX_LBA_NUM} - (\<Union>e \<in> ran m. ent_range e)"

lemma scan_invD:
  assumes "scan_inv K pos m idx fl"
  shows "idx_inv K idx" "fl_inv fl" "k \<in> K \<Longrightarrow> key_lookup idx k = m k" "dom m \<subseteq> K"
    "m k = Some e \<Longrightarrow> 0 < nblks e" "m k = Some e \<Longrightarrow> ent_range e \<subseteq> {..<pos}"
    "m k = Some e \<Longrightarrow> m k' = Some e' \<Longrightarrow> k \<noteq> k' \<Longrightarrow> ent_range e \<inter> ent_range e' = {}"
    "free_set fl = {..<MAX_LBA_NUM} - (\<Union>e \<in> ran m. ent_range e)"
  using assms unfolding scan_inv_def by (blast intro: ranI)+

lemma scan_inv_mono: "scan_inv K pos m idx fl \<Longrightarrow> pos \<le> pos' \<Longrightarrow> scan_inv K pos' m idx fl"
  unfolding scan_inv_def by (meson lessThan_subset_iff order_trans)

text \<open>The live ranges after a record has replaced the old one of its key.\<close>

lemma live_update:
  assumes inv: "scan_inv K pos m idx fl"
  shows "(\<Union>x \<in> ran (m(k \<mapsto> e)). ent_range x) =
    ((\<Union>x \<in> ran m. ent_range x) - (case m k of Some old \<Rightarrow> ent_range old | None \<Rightarrow> {})) \<union> ent_range e"
proof -
  have apart: "ent_range x \<inter> ent_range old = {}" if "m k = Some old" "m k' = Some x" "k' \<noteq> k" for x old k'
    using scan_invD(7) [OF inv that(2,1,3)] .
  have ran: "ran (m(k \<mapsto> e)) = insert e {x. \<exists>k'. k' \<noteq> k \<and> m k' = Some x}"
    by (auto simp: ran_def)
  show ?thesis
  proof (cases "m k")
    case None
    then have "{x. \<exists>k'. k' \<noteq> k \<and> m k' = Some x} = ran m" by (auto simp: ran_def) (metis option.distinct(1))
    then show ?thesis using None by (simp add: ran Un_commute)
  next
    case (Some old)
    have "ran m = insert old {x. \<exists>k'. k' \<noteq> k \<and> m k' = Some x}"
      using Some by (auto simp: ran_def) (metis option.inject)
    moreover have "(\<Union>x \<in> {x. \<exists>k'. k' \<noteq> k \<and> m k' = Some x}. ent_range x) \<inter> ent_range old = {}"
      using apart [OF Some] by blast
    ultimately show ?thesis using Some ran by auto
  qed
qed

section \<open>One record\<close>

lemma scan_pos:
  assumes "pos \<le> MAX_LBA_NUM"
  shows "sint (of_nat pos :: 32 word) = int pos" "unat (of_nat pos :: 32 word) = pos"
    "unat (scast (of_nat pos :: 32 word) :: u64) = pos"
proof -
  show u: "unat (of_nat pos :: 32 word) = pos"
    using assms by (simp add: unat_of_nat MAX_LBA_NUM_eq)
  show s: "sint (of_nat pos :: 32 word) = int pos"
    using assms u by (subst sint_eq_unat) (simp_all add: MAX_LBA_NUM_eq)
  have "(scast (of_nat pos :: 32 word) :: u64) = of_nat pos"
    using s by (metis of_int_of_nat_eq of_int_sint)
  then show "unat (scast (of_nat pos :: 32 word) :: u64) = pos"
    using assms by (simp add: unat_of_nat MAX_LBA_NUM_eq)
qed

lemma read_blocks:
  assumes "pos + unat cnt \<le> MAX_LBA_NUM"
  shows "dummy_dev_read dev (scast (of_nat pos :: 32 word)) cnt = Inr (block_bytes dev pos (unat cnt))"
proof -
  have "(pos + unat cnt) * 512 \<le> 1953125 * 512" using assms by (simp add: MAX_LBA_NUM_eq)
  then show ?thesis
    using assms scan_pos(3) [of pos]
    by (subst dummy_dev_read_eq)
      (simp_all add: block_bytes_def LBA_SIZE_def STORAGE_SIZE_def add_mult_distrib)
qed

lemma length_block_bytes: "length (block_bytes dev pos n) = n * LBA_SIZE"
  by (simp add: block_bytes_def add_mult_distrib)

lemma block_bytes_1: "0 < n \<Longrightarrow> block_bytes dev pos 1 = take LBA_SIZE (block_bytes dev pos n)"
  by (cases n) (simp_all add: block_bytes_def take_map add.commute)

lemma block_bytes_put:
  assumes "length bs \<le> n * LBA_SIZE"
  shows "block_bytes (dev_put dev (pos * LBA_SIZE) bs) pos n =
    bs @ map dev [pos * LBA_SIZE + length bs..<(pos + n) * LBA_SIZE]"
  using assms
  by (intro nth_equalityI) (auto simp: block_bytes_def dev_put_def nth_append add_mult_distrib)

text \<open>The checksum of \<open>init_cb\<close> is computed over the value, for small and large values alike.\<close>

lemma checked_crc:
  assumes wf: "wf_rec K e val" and max: "pos + unat (nblks e) \<le> MAX_LBA_NUM"
    and blk: "block_bytes dev pos (unat (nblks e)) = meta_bytes e @ val @ pad"
  shows "(if of_nat DATA_SZ < ie_val_len e
          then rbind (dummy_dev_read dev (scast (of_nat pos :: 32 word)) (ucast (nblks e)))
                 (\<lambda>buf. crc_of (drop META_SZ buf) (ie_val_len e))
          else crc_of (drop META_SZ (block_bytes dev pos 1)) (ie_val_len e)) = Inr (newer_crc val)"
proof -
  have w: "length val \<le> STORAGE_SIZE" "ie_val_len e = of_nat (length val)"
    "length (meta_bytes e) = META_SZ"
    using wf length_meta_bytes by (simp_all add: wf_rec_def)
  have len: "unat (ie_val_len e) = length val"
    using w by (simp add: unat_of_nat STORAGE_SIZE_def)
  show ?thesis
  proof (cases "of_nat DATA_SZ < ie_val_len e")
    case True
    have "unat (ucast (nblks e) :: u64) = unat (nblks e)"
      by (simp add: unsigned_ucast_eq take_bit_nat_eq_self unsigned_less [THEN less_le_trans])
    with True w len show ?thesis
      using max by (simp add: read_blocks blk crc_of_def)
  next
    case False
    have "length val \<le> 384"
      using False len by (simp add: word_less_nat_alt DATA_SZ_eq)
    moreover have "0 < unat (nblks e)"
      using nblks_fits(2) [OF w(1,2)] by (simp add: word_less_nat_alt)
    moreover from this have "block_bytes dev pos 1 = take LBA_SIZE (meta_bytes e @ val @ pad)"
      using block_bytes_1 blk by metis
    ultimately show ?thesis
      using False w len by (simp add: crc_of_def META_SZ_eq LBA_SIZE_def)
  qed
qed

text \<open>
  Storing a record at the scan position: the blocks of the entry it replaces are released, its
  own blocks are taken.
\<close>

lemma release_replaced:
  assumes inv: "scan_inv K pos m idx fl" and pos: "pos < MAX_LBA_NUM" and old: "m k = Some old"
  shows "\<exists>fl'. free_blk fl (ie_lba old) (nblks old) = Inr fl' \<and> fl_inv fl' \<and>
    free_set fl' = free_set fl \<union> ent_range old"
proof -
  note D = scan_invD [OF inv]
  have lt: "unat (ie_lba old) < unat (ie_lba old) + unat (nblks old)"
    using D(5) [OF old] by (simp add: word_less_nat_alt)
  have live: "b \<notin> free_set fl" if "b \<in> ent_range old" for b
    using that old D(8) by (auto intro: ranI)
  have le: "unat (ie_lba old) + unat (nblks old) \<le> pos"
    using D(6) [OF old] lt by (auto simp: ent_range_def blk_range_def subset_eq dest: bspec [of _ _ "unat (ie_lba old) + unat (nblks old) - 1"])
  have "pos \<in> free_set fl"
    using D(6) pos unfolding D(8) ran_def by blast
  then show ?thesis
    unfolding ent_range_def using live le D(2) D(5) [OF old]
    by (intro free_blk_below) (auto simp: ent_range_def)
qed

lemma store_record:
  assumes safe: "prefix_safe K" and inv: "scan_inv K pos m idx fl"
    and wf: "terminated e" "ekey e \<in> K" "0 < nblks e" and lba: "unat (ie_lba e) = pos"
    and max: "pos + unat (nblks e) \<le> MAX_LBA_NUM"
  shows "\<exists>idx' fl' fl''. update_index idx fl e = Inr (idx', fl') \<and>
    alloc_block fl' (ie_lba e) (nblks e) = Inr fl'' \<and>
    scan_inv K (pos + unat (nblks e)) (m(ekey e \<mapsto> e)) idx' fl''"
proof -
  note D = scan_invD [OF inv]
  let ?old = "case m (ekey e) of Some old \<Rightarrow> ent_range old | None \<Rightarrow> {}"
  let ?m = "m(ekey e \<mapsto> e)"
  have n: "0 < unat (nblks e)" using wf(3) by (simp add: word_less_nat_alt)
  have rg: "ent_range e = {pos..<pos + unat (nblks e)}" by (simp add: ent_range_def blk_range_def lba)
  have upd: "\<exists>fl'. update_index idx fl e = Inr (idx_put idx e, fl') \<and> fl_inv fl' \<and>
      free_set fl' = free_set fl \<union> ?old"
    using D(2) D(3) [OF wf(2)] release_replaced [OF inv, of "ekey e"] max n
    by (auto simp: update_index_eq [OF wf(1)] nblks_def split: option.split)
  then obtain fl' where u: "update_index idx fl e = Inr (idx_put idx e, fl')" "fl_inv fl'"
    "free_set fl' = free_set fl \<union> ?old" by blast
  have "blk_range (ie_lba e) (nblks e) \<subseteq> free_set fl'"
    unfolding u(3) D(8) using D(6) max rg [unfolded ent_range_def] by (fastforce simp: ran_def)
  then obtain fl'' where a: "alloc_block fl' (ie_lba e) (nblks e) = Inr fl''" "fl_inv fl''"
    "free_set fl'' = free_set fl' - ent_range e"
    using alloc_block_correct [OF u(2) wf(3)] unfolding ent_range_def by blast
  have old_sub: "?old \<subseteq> {..<MAX_LBA_NUM}"
    using D(6) [of "ekey e"] max n by (cases "m (ekey e)") (auto simp: subset_eq)
  have "free_set fl'' = {..<MAX_LBA_NUM} - (\<Union>x \<in> ran ?m. ent_range x)"
    unfolding a(3) u(3) D(8) live_update [OF inv] using old_sub by blast
  moreover have "ent_range x \<inter> ent_range e = {}" if "m k = Some x" for k x
    using D(6) [OF that] rg by auto
  moreover have "\<forall>x \<in> ran ?m. 0 < nblks x \<and> ent_range x \<subseteq> {..<pos + unat (nblks e)}"
    using D(5,6) rg wf(3) by (fastforce simp: ran_def split: if_splits)
  ultimately have "scan_inv K (pos + unat (nblks e)) ?m (idx_put idx e) fl''"
    unfolding scan_inv_def
    using a(2) idx_inv_put [OF safe D(1) wf(1,2)] key_lookup_put [OF safe D(1) wf(1,2)] D(3,4,7) wf(2)
    by (auto simp: Int_commute)
  with u(1) a(1) show ?thesis by blast
qed

abbreviation scan_at :: "indx \<Rightarrow> freelist \<Rightarrow> nat \<Rightarrow> scan" where
  "scan_at idx fl pos \<equiv> \<lparr>sc_indx = idx, sc_freelist = fl, sc_blks_read = of_nat pos\<rparr>"

lemma init_cb_gap:
  "(from_le (take 2 arg) :: u16) \<noteq> METAMAGIC \<Longrightarrow>
     init_cb dev (scan_at idx fl pos) arg = Inr (scan_at idx fl (Suc pos))"
  by (simp add: init_cb_def add.commute)

lemma init_cb_record:
  assumes safe: "prefix_safe K" and inv: "scan_inv K pos m idx fl" and wf: "wf_rec K e val"
    and lba: "unat (ie_lba e) = pos" and max: "pos + unat (nblks e) \<le> MAX_LBA_NUM"
    and blk: "block_bytes dev pos (unat (nblks e)) = meta_bytes e @ val @ pad"
    and m': "m' = (if newer m e \<and> ie_crc e = newer_crc val then m(ekey e \<mapsto> e) else m)"
  shows "\<exists>idx' fl'. init_cb dev (scan_at idx fl pos) (block_bytes dev pos 1) =
      Inr (scan_at idx' fl' (pos + unat (nblks e))) \<and> scan_inv K (pos + unat (nblks e)) m' idx' fl'"
proof -
  have w: "ie_magic e = METAMAGIC" "terminated e" "ekey e \<in> K" "0 < length val"
    "length val \<le> STORAGE_SIZE" "ie_val_len e = of_nat (length val)" "length (ie_key e) = MAX_KEY_LEN"
    using wf by (simp_all add: wf_rec_def)
  note fits = nblks_fits [OF w(5,6)]
  have n: "0 < unat (nblks e)" using fits(2) by (simp add: word_less_nat_alt)
  let ?arg = "meta_bytes e @ take DATA_SZ (val @ pad)"
  have arg: "block_bytes dev pos 1 = ?arg"
    using block_bytes_1 [OF n, of dev pos] blk length_meta_bytes [OF w(7)]
    by (simp add: META_SZ_eq DATA_SZ_eq LBA_SIZE_def)
  have val0: "0 < ie_val_len e"
    using w(4-6) by (simp add: word_less_nat_alt unat_of_nat STORAGE_SIZE_def)
  have nxt: "(of_nat pos + nblks e :: 32 word) = of_nat (pos + unat (nblks e))" by simp
  have look: "get_index_ent idx (ekey e) = m (ekey e)"
    using scan_invD(3) [OF inv w(3)] by (simp add: get_index_ent_def)
  have cb: "init_cb dev (scan_at idx fl pos) ?arg =
      rbind (if newer m e
             then init_entry dev (scan_at idx fl pos) ?arg e (nblks e)
             else Inr (scan_at idx fl pos))
        (\<lambda>sc'. Inr (sc'\<lparr>sc_blks_read := sc_blks_read sc' + nblks e\<rparr>))"
    unfolding init_cb_def
    by (simp add: magic_meta_bytes parse_meta_bytes [OF w(7)] w(1,2) val0 ent_key_eq look newer_def
        nblks_def [symmetric] Let_def split del: if_split del: take_append)
  have ent: "init_entry dev (scan_at idx fl pos) ?arg e (nblks e) =
      (if ie_crc e \<noteq> newer_crc val then Inr (scan_at idx fl pos)
       else rbind (update_index idx fl e) (\<lambda>(idx, fl). rbind (alloc_block fl (ie_lba e) (nblks e))
         (\<lambda>fl'. Inr (scan_at idx fl' pos))))"
    unfolding init_entry_def scan.select_convs checked_crc [OF wf max blk, unfolded arg] by simp
  have "\<exists>idx' fl'. init_cb dev (scan_at idx fl pos) ?arg =
      Inr (scan_at idx' fl' (pos + unat (nblks e))) \<and> scan_inv K (pos + unat (nblks e)) m' idx' fl'"
  proof (cases "newer m e \<and> ie_crc e = newer_crc val")
    case True
    then obtain idx' fl' fl'' where "update_index idx fl e = Inr (idx', fl')"
      "alloc_block fl' (ie_lba e) (nblks e) = Inr fl''" "scan_inv K (pos + unat (nblks e)) m' idx' fl''"
      using store_record [OF safe inv w(2,3) fits(2) lba max] m' by auto
    with True nxt show ?thesis unfolding cb ent by auto
  next
    case False
    then have "scan_inv K (pos + unat (nblks e)) m' idx fl"
      using scan_inv_mono [OF inv] m' by auto
    with False nxt show ?thesis unfolding cb ent by auto
  qed
  then show ?thesis unfolding arg .
qed

section \<open>The whole scan\<close>

lemma index_scan_items:
  "prefix_safe K \<Longrightarrow> items_at K dev pos is \<Longrightarrow> scan_inv K pos m idx fl \<Longrightarrow>
    \<exists>idx' fl'. index_scan dev (scan_at idx fl pos) = Some (Inr (scan_at idx' fl' MAX_LBA_NUM)) \<and>
      scan_inv K MAX_LBA_NUM (recover m is) idx' fl'"
proof (induction K dev pos "is" arbitrary: m idx fl rule: items_at.induct)
  case (1 K dev pos)
  then show ?case
    using scan_pos(1) [of pos] by (subst index_scan.simps) auto
next
  case (2 K dev pos "is")
  then have p: "pos < MAX_LBA_NUM" "(from_le (take 2 (block_bytes dev pos 1)) :: u16) \<noteq> METAMAGIC"
    by simp_all
  have "index_scan dev (scan_at idx fl pos) = index_scan dev (scan_at idx fl (Suc pos))"
    using p scan_pos(1) [of pos] init_cb_gap [OF p(2)]
    by (subst index_scan.simps) (simp add: read_blocks)
  with 2 scan_inv_mono [of K pos m idx fl "Suc pos"] show ?case by simp
next
  case (3 K dev pos e val "is")
  then obtain pad where r: "wf_rec K e val" "unat (ie_lba e) = pos" "pos + unat (nblks e) \<le> MAX_LBA_NUM"
    "block_bytes dev pos (unat (nblks e)) = meta_bytes e @ val @ pad" by auto
  obtain idx' fl' where step: "init_cb dev (scan_at idx fl pos) (block_bytes dev pos 1) =
      Inr (scan_at idx' fl' (pos + unat (nblks e)))"
    "scan_inv K (pos + unat (nblks e))
       (if newer m e \<and> ie_crc e = newer_crc val then m(ekey e \<mapsto> e) else m) idx' fl'"
    using init_cb_record [OF "3.prems"(1,3) r refl] by blast
  have "0 < unat (nblks e)"
    using r(1) nblks_fits(2) [of "length val" e] by (simp add: wf_rec_def word_less_nat_alt)
  then have "index_scan dev (scan_at idx fl pos) = index_scan dev (scan_at idx' fl' (pos + unat (nblks e)))"
    using r(3) scan_pos(1) [of pos] step(1)
    by (subst index_scan.simps) (simp add: read_blocks)
  with 3 step(2) show ?case by simp
qed

text \<open>The records of a device that the scan may use for the key \<open>k\<close>.\<close>

definition valid_recs :: "item list \<Rightarrow> bytes \<Rightarrow> index_ent set" where
  "valid_recs is k = {e. \<exists>val. Rec e val \<in> set is \<and> ekey e = k \<and> ie_crc e = newer_crc val}"

definition newest :: "index_ent option \<Rightarrow> index_ent set \<Rightarrow> bool" where
  "newest r es \<longleftrightarrow>
     (case r of None \<Rightarrow> es = {} | Some e \<Rightarrow> e \<in> es \<and> (\<forall>e' \<in> es. ie_version e' \<le> ie_version e))"

lemma valid_recs_simps [simp]:
  "valid_recs [] k = {}"
  "valid_recs (Gap # is) k = valid_recs is k"
  "valid_recs (Rec e val # is) k =
     (if ekey e = k \<and> ie_crc e = newer_crc val then insert e (valid_recs is k) else valid_recs is k)"
  by (auto simp: valid_recs_def)

lemma valid_recs_gaps [simp]: "valid_recs (replicate n Gap) k = {}"
  by (induction n) simp_all

lemma newest_insert:
  "newest (m k) es \<Longrightarrow> ekey e = k \<Longrightarrow> newest (if newer m e then Some e else m k) (insert e es)"
  by (fastforce simp: newest_def newer_def split: option.splits)

lemma recover_newest:
  "\<forall>k. newest (m k) (es k) \<Longrightarrow> newest (recover m is k) (es k \<union> valid_recs is k)"
proof (induction m "is" arbitrary: es rule: recover.induct)
  case (3 m e val "is")
  let ?m = "if newer m e \<and> ie_crc e = newer_crc val then m(ekey e \<mapsto> e) else m"
  let ?es = "\<lambda>k. if ekey e = k \<and> ie_crc e = newer_crc val then insert e (es k) else es k"
  have "\<forall>k. newest (?m k) (?es k)"
    using 3(2) newest_insert [of m "ekey e" "es (ekey e)" e] by auto
  then have "newest (recover ?m is k) (?es k \<union> valid_recs is k)" by (rule "3.IH")
  then show ?case by (auto split: if_splits)
qed simp_all

lemma recover_keys:
  "dom m \<subseteq> K \<Longrightarrow> items_at K dev pos is \<Longrightarrow> dom (recover m is) \<subseteq> K"
  by (induction K dev pos "is" arbitrary: m rule: items_at.induct) (auto simp: wf_rec_def)

lemma scan_inv_start: "scan_inv K 0 Map.empty (\<lambda>_. []) freelist_init"
  by (simp add: scan_inv_def idx_inv_empty freelist_init_inv)

section \<open>Properties\<close>

text \<open>C7: on a device made of records and unused blocks, the start-up scan of \<open>index_init\<close>
  returns without a fault. Afterwards every key has the entry with the highest version among the
  records with a correct checksum (and none if there is no such record), and the free list is
  well formed and holds exactly the blocks that no entry of the index uses.\<close>

theorem index_init_recovers:
  assumes "prefix_safe K" "items_at K dev 0 is"
  shows "\<exists>sc. index_init dev freelist_init = Some (Inr sc) \<and>
    (\<forall>k \<in> K. newest (key_lookup (sc_indx sc) k) (valid_recs is k)) \<and>
    fl_inv (sc_freelist sc) \<and>
    free_set (sc_freelist sc) =
      {..<MAX_LBA_NUM} - \<Union> {ent_range e | e k. k \<in> K \<and> key_lookup (sc_indx sc) k = Some e}"
proof -
  obtain idx fl where s: "index_init dev freelist_init = Some (Inr (scan_at idx fl MAX_LBA_NUM))"
    and inv: "scan_inv K MAX_LBA_NUM (recover Map.empty is) idx fl"
    using index_scan_items [OF assms scan_inv_start] by (auto simp: index_init_def)
  note D = scan_invD [OF inv]
  have "newest (recover Map.empty is k) (valid_recs is k)" for k
    using recover_newest [of Map.empty "\<lambda>_. {}" "is" k] by (simp add: newest_def)
  moreover have "ran (recover Map.empty is) = {e. \<exists>k \<in> K. key_lookup idx k = Some e}"
    using D(3,4) by (fastforce simp: ran_def dom_def)
  then have "(\<Union>e \<in> ran (recover Map.empty is). ent_range e) =
      \<Union> {ent_range e | e k. k \<in> K \<and> key_lookup idx k = Some e}" by auto
  ultimately show ?thesis
    using s D(2,3,8) by (intro exI [of _ "scan_at idx fl MAX_LBA_NUM"]) simp
qed

definition demo_ent :: index_ent where
  "demo_ent = \<lparr>ie_magic = METAMAGIC, ie_key = 107 # replicate 107 0, ie_lba = 0, ie_val_len = 3,
     ie_crc = newer_crc [1, 2, 3], ie_version = 7\<rparr>"

definition demo_dev :: dev where
  "demo_dev = dev_put (\<lambda>_. 0) 0 (meta_bytes demo_ent @ [1, 2, 3])"

lemma demo_zero: "512 \<le> i \<Longrightarrow> demo_dev i = 0"
  using length_meta_bytes [of demo_ent]
  by (simp add: demo_dev_def dev_put_def demo_ent_def MAX_KEY_LEN_def META_SZ_eq)

lemma demo_gaps: "0 < pos \<Longrightarrow> items_at K demo_dev pos (replicate (MAX_LBA_NUM - pos) Gap) \<or> MAX_LBA_NUM < pos"
proof (induction "MAX_LBA_NUM - pos" arbitrary: pos)
  case (Suc n)
  have "block_bytes demo_dev pos 1 = replicate 512 0"
    using Suc.prems demo_zero
    by (intro nth_equalityI) (auto simp: length_block_bytes LBA_SIZE_def block_bytes_def)
  moreover have "take 2 (replicate 512 0) = [0, 0 :: u8]" by (simp add: numeral_2_eq_2)
  ultimately have "(from_le (take 2 (block_bytes demo_dev pos 1)) :: u16) \<noteq> METAMAGIC"
    by (simp add: METAMAGIC_def del: take_replicate)
  moreover have "n = MAX_LBA_NUM - Suc pos" "pos < MAX_LBA_NUM" using Suc(2) by linarith+
  ultimately show ?case using Suc(1) [of "Suc pos"] Suc(2) [symmetric] by auto
qed auto

lemma demo_items: "items_at {[107]} demo_dev 0 (Rec demo_ent [1, 2, 3] # replicate (MAX_LBA_NUM - 1) Gap)"
proof -
  have len: "length (meta_bytes demo_ent) = 128"
    using length_meta_bytes [of demo_ent] by (simp add: demo_ent_def MAX_KEY_LEN_def META_SZ_eq)
  have n: "unat (nblks demo_ent) = 1"
    using unat_nblks [of 3 demo_ent] by (simp add: demo_ent_def STORAGE_SIZE_def)
  have "\<exists>pad. block_bytes demo_dev 0 1 = meta_bytes demo_ent @ [1, 2, 3] @ pad"
    using block_bytes_put [of "meta_bytes demo_ent @ [1, 2, 3]" 1 "\<lambda>_. 0" 0] len
    by (simp add: demo_dev_def LBA_SIZE_def)
  moreover have "wf_rec {[107]} demo_ent [1, 2, 3]"
    by (simp add: wf_rec_def demo_ent_def MAX_KEY_LEN_def terminated_def ekey_def STORAGE_SIZE_def)
  moreover have "1 < MAX_LBA_NUM" by (simp add: MAX_LBA_NUM_eq)
  moreover from this have "items_at {[107]} demo_dev 1 (replicate (MAX_LBA_NUM - 1) Gap)"
    using demo_gaps [of 1 "{[107]}"] by simp
  moreover have "unat (ie_lba demo_ent) = 0" by (simp add: demo_ent_def)
  ultimately show ?thesis
    unfolding items_at.simps n add_0 by (blast intro: less_imp_le)
qed

theorem index_init_recovers_witness:
  "\<exists>sc. index_init demo_dev freelist_init = Some (Inr sc) \<and>
     key_lookup (sc_indx sc) [107] = Some demo_ent \<and>
     free_set (sc_freelist sc) = {1..<MAX_LBA_NUM}"
proof -
  let ?is = "Rec demo_ent [1, 2, 3] # replicate (MAX_LBA_NUM - 1) Gap"
  have "prefix_safe {[107]}" by (simp add: prefix_safe_def)
  from index_init_recovers [OF this demo_items]
  obtain sc where sc: "index_init demo_dev freelist_init = Some (Inr sc)"
    "newest (key_lookup (sc_indx sc) [107]) (valid_recs ?is [107])"
    "free_set (sc_freelist sc) =
      {..<MAX_LBA_NUM} - \<Union> {ent_range e | e k. k \<in> {[107]} \<and> key_lookup (sc_indx sc) k = Some e}"
    by auto
  have "ekey demo_ent = [107]" "ie_crc demo_ent = newer_crc [1, 2, 3]"
    by (simp_all add: demo_ent_def ekey_def)
  then have "valid_recs ?is [107] = {demo_ent}"
    unfolding valid_recs_simps valid_recs_gaps by simp
  with sc(2) have look: "key_lookup (sc_indx sc) [107] = Some demo_ent"
    by (auto simp only: newest_def split: option.splits)
  have "unat (nblks demo_ent) = 1"
    using unat_nblks [of 3 demo_ent] by (simp add: demo_ent_def STORAGE_SIZE_def)
  moreover have "ie_lba demo_ent = 0" by (simp add: demo_ent_def)
  ultimately have "ent_range demo_ent = {0}" by (auto simp: ent_range_def blk_range_def)
  with look have "\<Union> {ent_range e | e k. k \<in> {[107]} \<and> key_lookup (sc_indx sc) k = Some e} = {0}"
    by simp
  then have "free_set (sc_freelist sc) = {1..<MAX_LBA_NUM}"
    unfolding sc(3) by (simp only:) (rule set_eqI, simp add: Suc_le_eq, linarith)
  with sc(1) look show ?thesis by blast
qed



text \<open>C34: the start-up scan need not return. Nothing checks the metadata of a record, and the
  number of blocks of a value is cut to 32 bits: when it is a multiple of \<open>2 ^ 32\<close> and the
  version is not newer than the indexed one, \<open>blks_read\<close> does not move and the loop reads the same
  block for ever.\<close>

theorem index_scan_can_hang:
  assumes pos: "pos < MAX_LBA_NUM" and arg: "block_bytes dev pos 1 = arg"
    and e: "ie_magic (parse_meta arg) = METAMAGIC" "terminated (parse_meta arg)"
      "nblks (parse_meta arg) = 0"
    and old: "key_lookup idx (ekey (parse_meta arg)) = Some old"
      "ie_version (parse_meta arg) \<le> ie_version old"
  shows "index_scan dev (scan_at idx fl pos) = None"
proof -
  have m: "from_le (take 2 arg) = METAMAGIC" using e(1) by (simp add: parse_meta_def)
  have v: "0 < ie_val_len (parse_meta arg)"
    using e(3) by (cases "ie_val_len (parse_meta arg) = 0")
      (simp_all add: nblks_def CALC_NUMBLKS_def word_neq_0_conv)
  have stay: "rbind (dummy_dev_read dev (scast (of_nat pos :: 32 word)) 1)
      (\<lambda>buf. init_cb dev (scan_at idx fl pos) buf) = Inr (scan_at idx fl pos)"
    using pos m v e old(1) old(2) [unfolded not_less [symmetric]]
    by (simp add: read_blocks arg [simplified] init_cb_def ent_key_eq get_index_ent_def nblks_def
        Let_def)
  have "sc \<noteq> scan_at idx fl pos \<or> d \<noteq> dev" if r: "index_scan d sc = Some y" for d sc y
    by (rule index_scan.raw_induct [OF _ r, where P = "\<lambda>d sc _. sc \<noteq> scan_at idx fl pos \<or> d \<noteq> dev"])
      (use stay pos scan_pos(1) [of pos] in \<open>fastforce split: if_splits sum.splits\<close>)
  then show ?thesis by (metis not_None_eq)
qed

definition stuck_ent :: index_ent where
  "stuck_ent = \<lparr>ie_magic = METAMAGIC, ie_key = 107 # replicate 107 0, ie_lba = 0,
     ie_val_len = 512 * 0xFFFFFFFF + 384, ie_crc = 0, ie_version = 7\<rparr>"

theorem index_scan_can_hang_witness:
  "index_scan (dev_put (\<lambda>_. 0) 0 (meta_bytes stuck_ent))
     (scan_at (idx_put (\<lambda>_. []) demo_ent) freelist_init 0) = None"
proof -
  have len: "length (ie_key stuck_ent) = MAX_KEY_LEN" by (simp add: stuck_ent_def MAX_KEY_LEN_def)
  let ?arg = "meta_bytes stuck_ent @ map (\<lambda>_. 0) [META_SZ..<LBA_SIZE]"
  have p: "parse_meta ?arg = stuck_ent" by (rule parse_meta_bytes [OF len])
  have blk: "block_bytes (dev_put (\<lambda>_. 0) 0 (meta_bytes stuck_ent)) 0 1 = ?arg"
    using block_bytes_put [of "meta_bytes stuck_ent" 1 "\<lambda>_. 0" 0] length_meta_bytes [OF len]
    by (simp add: LBA_SIZE_def META_SZ_eq)
  have k: "ekey demo_ent = [107]" "terminated demo_ent" "ekey stuck_ent = [107]" "terminated stuck_ent"
    by (simp_all add: demo_ent_def stuck_ent_def ekey_def terminated_def)
  have v: "ie_version demo_ent = 7" "ie_version stuck_ent = 7" "ie_magic stuck_ent = METAMAGIC"
    by (simp_all add: demo_ent_def stuck_ent_def)
  have n: "nblks stuck_ent = 0"
    by (simp add: nblks_def stuck_ent_def CALC_NUMBLKS_def DATA_SZ_eq LBA_SIZE_def)
  have look: "key_lookup (idx_put (\<lambda>_. []) demo_ent) [107] = Some demo_ent"
    using key_lookup_put [of "{[107]}" "\<lambda>_. []" demo_ent "[107]"] k
    by (simp add: prefix_safe_def idx_inv_empty)
  from index_scan_can_hang [OF _ blk, unfolded p, of "idx_put (\<lambda>_. []) demo_ent" demo_ent freelist_init]
  show ?thesis using look k v n by (simp add: MAX_LBA_NUM_eq)
qed

end
