(* ===== verification/Block_IO.thy ===== *)
theory Block_IO
  imports Index_Init
begin

text \<open>
  The block I/O system calls (\<open>dp/core/io.c\<close>): writes are collected in a batch, \<open>write_flush\<close>
  allocates blocks for the batch and issues one vectored device write, and the completion callback
  enters the batch into the index. Reads are synchronous.

  The per-core state is one record. The parallel arrays of \<open>struct ibuf\<close> up to \<open>currind\<close> are a list
  of slots; a slot keeps the bytes that the value pointer refers to, since applications leave the
  buffer alone until they are told that the value was written. Up-calls to the application are
  appended to \<open>kv_events\<close>.
\<close>

section \<open>State\<close>

definition MAX_BATCH :: nat where "MAX_BATCH = 100000"

definition MBUF_DATA_LEN :: nat where "MBUF_DATA_LEN = 2048"

record io_slot =
  sl_meta :: index_ent
  sl_val :: bytes
  sl_zeros :: nat
  sl_key :: bytes

datatype io_event = Io_Wrote bytes bytes | Io_Read bytes bytes

record kv =
  kv_indx :: indx
  kv_freelist :: freelist
  kv_dev :: dev
  kv_batch :: "io_slot list"
  kv_numblks :: lbasz_t
  kv_pending :: nat
  kv_events :: "io_event list"

section \<open>System calls\<close>

definition blkio_init_cpu :: "dev \<Rightarrow> kv res option" where
  "blkio_init_cpu dev =
     (case index_init dev freelist_init of
        None \<Rightarrow> None
      | Some (Inl f) \<Rightarrow> Some (Inl f)
      | Some (Inr sc) \<Rightarrow>
          Some (Inr \<lparr>kv_indx = sc_indx sc, kv_freelist = sc_freelist sc, kv_dev = dev, kv_batch = [],
                     kv_numblks = 0, kv_pending = 0, kv_events = []\<rparr>))"

text \<open>
  \<open>mb\<close> and \<open>pr\<close> say whether the packet buffer pool and the request pool had an element left;
  the result of neither allocation is checked. \<open>io_read_cb\<close> runs inside \<open>dummy_dev_read\<close>.
\<close>

definition io_read_cb :: "kv \<Rightarrow> bytes \<Rightarrow> bytes \<Rightarrow> u64 \<Rightarrow> kv" where
  "io_read_cb s key base len =
     s\<lparr>kv_events := kv_events s @ [Io_Read key (take (unat len) base)]\<rparr>"

definition bsys_io_read :: "kv \<Rightarrow> bytes \<Rightarrow> bool \<Rightarrow> bool \<Rightarrow> (int \<times> kv) res" where
  "bsys_io_read s key mb pr =
     (case get_index_ent (kv_indx s) key of
        None \<Rightarrow> Inr (- 1, s)
      | Some ent \<Rightarrow>
          let numblks = CALC_NUMBLKS (ie_val_len ent) in
          rbind (assert_that (numblks \<le> of_nat (MBUF_DATA_LEN div LBA_SIZE))) (\<lambda>_.
          if \<not> mb \<or> \<not> pr then Inl NullDeref
          else rbind (dummy_dev_read (kv_dev s) (scast (ie_lba ent)) numblks) (\<lambda>data.
            Inr (0, io_read_cb s key (drop META_SZ data) (ie_val_len ent)))))"

definition num_zeros :: "nat \<Rightarrow> nat" where
  "num_zeros len =
     (if len \<le> DATA_SZ then DATA_SZ - len else LBA_SIZE - (len - DATA_SZ) mod LBA_SIZE)"

definition bsys_io_write :: "kv \<Rightarrow> lba_t \<Rightarrow> bytes \<Rightarrow> bytes \<Rightarrow> kv res" where
  "bsys_io_write s junk key val =
     rbind (new_index_ent (kv_indx s) junk key val) (\<lambda>newdata.
     rbind (assert_that (ie_magic newdata = METAMAGIC)) (\<lambda>_.
     if MAX_BATCH \<le> length (kv_batch s) then Inl OutOfBounds
     else
       let blks = ucast (CALC_NUMBLKS (of_nat (length val)));
         slot = \<lparr>sl_meta = newdata, sl_val = val, sl_zeros = num_zeros (length val), sl_key = key\<rparr> in
       Inr (s\<lparr>kv_batch := kv_batch s @ [slot], kv_numblks := kv_numblks s + blks\<rparr>)))"

text \<open>
  The loop of the flush from its second round on, with the metadata \<open>prev\<close> of the round before.
  The last component is the value that \<open>startlba\<close> is left with.
\<close>

fun assign_lbas :: "lba_t \<Rightarrow> index_ent \<Rightarrow> io_slot list \<Rightarrow> io_slot list \<times> lba_t" where
  "assign_lbas startlba prev [] = ([], startlba)"
| "assign_lbas startlba prev (sl # sls) =
     (let blks = ucast (CALC_NUMBLKS (ie_val_len prev));
        meta = (sl_meta sl)\<lparr>ie_lba := startlba + blks\<rparr>;
        (sls', final) = assign_lbas (startlba + blks) meta sls in
      (sl\<lparr>sl_meta := meta\<rparr> # sls', final))"

definition set_lbas :: "lba_t \<Rightarrow> io_slot list \<Rightarrow> io_slot list \<times> lba_t" where
  "set_lbas startlba sls =
     (case sls of
        [] \<Rightarrow> ([], startlba)
      | sl # rest \<Rightarrow>
          let meta = (sl_meta sl)\<lparr>ie_lba := startlba\<rparr>;
            (rest', final) = assign_lbas startlba meta rest in
          (sl\<lparr>sl_meta := meta\<rparr> # rest', final))"

definition sg_entries :: "io_slot list \<Rightarrow> bytes list" where
  "sg_entries sls =
     concat (map (\<lambda>sl. [meta_bytes (sl_meta sl), sl_val sl, replicate (sl_zeros sl) 0]) sls)"

definition bsys_io_write_flush :: "kv \<Rightarrow> bool \<Rightarrow> kv res" where
  "bsys_io_write_flush s iot =
     (if kv_numblks s = 0 then Inr s
      else
        let (startlba, fl) = get_blk (kv_freelist s) (kv_numblks s);
          (sls, final) = set_lbas startlba (kv_batch s) in
        rbind (dummy_dev_writev (kv_dev s) (sg_entries sls) (scast final) (ucast (kv_numblks s)) iot)
          (\<lambda>dev'. Inr (s\<lparr>kv_freelist := fl, kv_batch := sls, kv_dev := dev',
                         kv_pending := Suc (kv_pending s)\<rparr>)))"

fun write_cb_loop :: "kv \<Rightarrow> io_slot list \<Rightarrow> kv res" where
  "write_cb_loop s [] = Inr s"
| "write_cb_loop s (sl # sls) =
     rbind (update_index (kv_indx s) (kv_freelist s) (sl_meta sl)) (\<lambda>(idx, fl).
       write_cb_loop
         (s\<lparr>kv_indx := idx, kv_freelist := fl,
            kv_events := kv_events s @ [Io_Wrote (sl_key sl) (sl_val sl)]\<rparr>) sls)"

text \<open>The completion timer of one device write fires: \<open>io_write_cb\<close>.\<close>

definition io_write_cb :: "kv \<Rightarrow> kv res" where
  "io_write_cb s =
     rbind (write_cb_loop (s\<lparr>kv_pending := kv_pending s - 1\<rparr>) (kv_batch s)) (\<lambda>s'.
       Inr (s'\<lparr>kv_batch := [], kv_numblks := 0\<rparr>))"

text \<open>A write that is flushed at once and completes.\<close>

definition kv_put :: "kv \<Rightarrow> lba_t \<Rightarrow> bytes \<Rightarrow> bytes \<Rightarrow> kv res" where
  "kv_put s junk key val =
     rbind (bsys_io_write s junk key val) (\<lambda>s1. rbind (bsys_io_write_flush s1 True) io_write_cb)"

section \<open>Properties\<close>

lemma unat_scast_lba: "unat lba \<le> MAX_LBA_NUM \<Longrightarrow> unat (scast lba :: u64) = unat lba" for lba :: lba_t
  using scan_pos(3) [of "unat lba"] by simp

lemma unat_ucast_cnt: "unat (ucast n :: u64) = unat n" for n :: lbasz_t
  by (simp add: unsigned_ucast_eq take_bit_nat_eq_self unsigned_less [THEN less_le_trans])

lemma blocks_in_dev: "n \<le> MAX_LBA_NUM \<Longrightarrow> n * LBA_SIZE \<le> STORAGE_SIZE"
  by (simp add: MAX_LBA_NUM_eq LBA_SIZE_def STORAGE_SIZE_def)


definition demo_slot :: "bytes \<Rightarrow> io_slot" where
  "demo_slot key = \<lparr>sl_meta = ent_of key 1, sl_val = [1, 2, 3], sl_zeros = 381, sl_key = key\<rparr>"

definition demo_kv :: kv where
  "demo_kv = \<lparr>kv_indx = (\<lambda>_. []), kv_freelist = freelist_init, kv_dev = (\<lambda>_. 0),
     kv_batch = [demo_slot [97], demo_slot [98]], kv_numblks = 2, kv_pending = 0, kv_events = []\<rparr>"


text \<open>C28: a value that ends exactly at a block boundary behind the first block cannot be stored. The
  number of padding bytes is then 512 instead of 0, and the device write stops at its assertion
  after it has written one block too many.\<close>

theorem full_block_value_fails:
  assumes idle: "kv_batch s = []" "kv_numblks s = 0"
    and key: "0 \<notin> set key" "length key < MAX_KEY_LEN"
    and val: "length val = DATA_SZ + d * LBA_SIZE" "0 < d"
    and blk: "get_blk (kv_freelist s) (of_nat (Suc d)) = (lba, fl)" "unat lba + d + 2 \<le> MAX_LBA_NUM"
  shows "kv_put s junk key val = Inl AssertFailed"
proof -
  obtain e0 where e0: "new_index_ent (kv_indx s) junk key val = Inr e0" "ie_magic e0 = METAMAGIC"
    "ie_val_len e0 = of_nat (length val)" "length (ie_key e0) = MAX_KEY_LEN"
    using new_index_ent_ok [OF key] by metis
  have "d < 1953125" using blk(2) by (simp add: MAX_LBA_NUM_eq)
  then have len: "length val \<le> STORAGE_SIZE" and d: "unat (of_nat (Suc d) :: lbasz_t) = Suc d"
    using blk(2) by (simp_all add: val DATA_SZ_eq LBA_SIZE_def STORAGE_SIZE_def MAX_LBA_NUM_eq unat_of_nat
        del: of_nat_Suc)
  have "(length val + 127) div 512 = d"
    using val by (simp add: DATA_SZ_eq LBA_SIZE_def)
  then have "unat (nblks e0) = Suc d"
    using unat_nblks [OF len e0(3)] val by (simp add: DATA_SZ_eq LBA_SIZE_def)
  then have n: "nblks e0 = of_nat (Suc d)" using d by (simp only: word_eq_unat_iff)
  let ?slot = "\<lparr>sl_meta = e0, sl_val = val, sl_zeros = LBA_SIZE, sl_key = key\<rparr>"
  let ?s1 = "s\<lparr>kv_batch := [?slot], kv_numblks := of_nat (Suc d)\<rparr>"
  have z: "num_zeros (length val) = LBA_SIZE" using val by (simp add: num_zeros_def LBA_SIZE_def)
  have w: "bsys_io_write s junk key val = Inr ?s1"
    using idle e0 n [unfolded nblks_def] by (simp add: bsys_io_write_def MAX_BATCH_def Let_def z)
  let ?m = "meta_bytes (e0\<lparr>ie_lba := lba\<rparr>)"
  have m: "length ?m = META_SZ" by (rule length_meta_bytes) (simp add: e0(4))
  have lba: "unat (scast lba :: u64) = unat lba" using blk(2) by (intro unat_scast_lba) simp
  have cnt: "unat (ucast (of_nat (Suc d) :: lbasz_t) :: u64) = Suc d" by (simp only: unat_ucast_cnt d)
  have cap: "(unat lba + d + 2) * LBA_SIZE \<le> STORAGE_SIZE" by (rule blocks_in_dev [OF blk(2)])
  have "dummy_dev_writev (kv_dev s) [?m, val, replicate LBA_SIZE 0] (scast lba) (ucast (of_nat (Suc d) :: lbasz_t)) True =
      Inl AssertFailed"
    using writev_overrun [of "scast lba" "[?m, val]" "replicate LBA_SIZE 0" "ucast (of_nat (Suc d) :: lbasz_t)" "kv_dev s"]
      cap m val unfolding lba cnt
    by (simp add: dummy_dev_writev_def DATA_SZ_def META_SZ_eq LBA_SIZE_def algebra_simps)
  then have f: "bsys_io_write_flush ?s1 True = Inl AssertFailed"
    using d by (auto simp: bsys_io_write_flush_def set_lbas_def sg_entries_def blk(1) simp del: of_nat_Suc)
  show ?thesis by (simp add: kv_put_def w f del: of_nat_Suc)
qed

theorem full_block_value_fails_witness:
  "kv_put (demo_kv\<lparr>kv_batch := [], kv_numblks := 0\<rparr>) 0 [97] (replicate 896 1) = Inl AssertFailed"
proof -
  let ?s = "demo_kv\<lparr>kv_batch := [], kv_numblks := 0\<rparr>"
  have gb: "get_blk (kv_freelist ?s) (of_nat (Suc 1)) = (0, snd (get_blk freelist_init 2))"
    by (simp add: demo_kv_def get_blk_def freelist_init_def MAX_LBA_NUM_eq word_le_nat_alt)
  have "length (replicate 896 1 :: bytes) = DATA_SZ + 1 * LBA_SIZE" by (simp add: DATA_SZ_eq LBA_SIZE_def)
  from full_block_value_fails [OF _ _ _ _ this _ gb, of "[97]"] show ?thesis
    by (simp add: MAX_KEY_LEN_def MAX_LBA_NUM_eq)
qed



end
