(* ===== verification/Kv_Store.thy ===== *)
theory Kv_Store
  imports Block_IO
begin

text \<open>
  The block store as a map from keys to values. \<open>store_inv\<close> ties the index, the free list and
  the device image together; every write that is flushed and completes updates the map, reads
  return it, and a restart on the same device rebuilds it.
\<close>

section \<open>Positions of items\<close>

fun item_len :: "item \<Rightarrow> nat" where
  "item_len Gap = 1"
| "item_len (Rec e val) = unat (nblks e)"

fun item_ok :: "bytes set \<Rightarrow> dev \<Rightarrow> nat \<Rightarrow> item \<Rightarrow> bool" where
  "item_ok K dev pos Gap \<longleftrightarrow>
     pos < MAX_LBA_NUM \<and> (from_le (take 2 (block_bytes dev pos 1)) :: u16) \<noteq> METAMAGIC"
| "item_ok K dev pos (Rec e val) \<longleftrightarrow>
     wf_rec K e val \<and> unat (ie_lba e) = pos \<and> pos + unat (nblks e) \<le> MAX_LBA_NUM \<and>
     (\<exists>pad. block_bytes dev pos (unat (nblks e)) = meta_bytes e @ val @ pad)"

fun items_seg :: "bytes set \<Rightarrow> dev \<Rightarrow> nat \<Rightarrow> item list \<Rightarrow> bool" where
  "items_seg K dev pos [] \<longleftrightarrow> True"
| "items_seg K dev pos (it # is) \<longleftrightarrow> item_ok K dev pos it \<and> items_seg K dev (pos + item_len it) is"

abbreviation span :: "item list \<Rightarrow> nat" where
  "span is \<equiv> sum_list (map item_len is)"

lemma items_at_Cons:
  "items_at K dev pos (it # is) \<longleftrightarrow> item_ok K dev pos it \<and> items_at K dev (pos + item_len it) is"
  by (cases it) auto

lemma items_at_append:
  "items_at K dev pos (xs @ ys) \<longleftrightarrow> items_seg K dev pos xs \<and> items_at K dev (pos + span xs) ys"
  by (induction xs arbitrary: pos) (auto simp: items_at_Cons add.assoc)

lemma items_seg_append:
  "items_seg K dev pos (xs @ ys) \<longleftrightarrow> items_seg K dev pos xs \<and> items_seg K dev (pos + span xs) ys"
  by (induction xs arbitrary: pos) (auto simp: add.assoc)

lemma item_len_pos: "item_ok K dev pos it \<Longrightarrow> 0 < item_len it"
  using nblks_fits(2) by (cases it) (auto simp: wf_rec_def word_less_nat_alt)

text \<open>An item depends only on the blocks it spans.\<close>

definition same_blocks :: "dev \<Rightarrow> dev \<Rightarrow> nat set \<Rightarrow> bool" where
  "same_blocks dev dev' B \<longleftrightarrow> (\<forall>b \<in> B. block_bytes dev b 1 = block_bytes dev' b 1)"

lemma same_blocks_mono: "same_blocks dev dev' B \<Longrightarrow> A \<subseteq> B \<Longrightarrow> same_blocks dev dev' A"
  by (auto simp: same_blocks_def)

lemma block_bytes_Suc:
  "block_bytes dev pos (Suc n) = block_bytes dev pos n @ block_bytes dev (pos + n) 1"
proof -
  have "[pos * LBA_SIZE..<(pos + Suc n) * LBA_SIZE] =
      [pos * LBA_SIZE..<(pos + n) * LBA_SIZE] @ [(pos + n) * LBA_SIZE..<(pos + Suc n) * LBA_SIZE]"
    using upt_add_eq_append [of "pos * LBA_SIZE" "(pos + n) * LBA_SIZE" LBA_SIZE]
    by (simp add: algebra_simps)
  then show ?thesis by (simp add: block_bytes_def)
qed

lemma block_bytes_same:
  "same_blocks dev dev' {pos..<pos + n} \<Longrightarrow> block_bytes dev pos n = block_bytes dev' pos n"
proof (induction n)
  case (Suc n)
  then have "same_blocks dev dev' {pos..<pos + n}" by (simp add: same_blocks_def)
  with Suc have "block_bytes dev pos n = block_bytes dev' pos n" by blast
  moreover have "block_bytes dev (pos + n) 1 = block_bytes dev' (pos + n) 1"
    using Suc.prems unfolding same_blocks_def by (rule bspec) simp
  ultimately show ?case unfolding block_bytes_Suc [of _ _ n] by (rule arg_cong2)
qed (simp add: block_bytes_def)

lemma item_ok_same:
  assumes "item_ok K dev pos it" "same_blocks dev dev' {pos..<pos + item_len it}"
  shows "item_ok K dev' pos it"
  using assms block_bytes_same [of dev dev' pos "item_len it"] by (cases it) auto

lemma items_seg_same:
  "items_seg K dev pos xs \<Longrightarrow> same_blocks dev dev' {pos..<pos + span xs} \<Longrightarrow> items_seg K dev' pos xs"
proof (induction xs arbitrary: pos)
  case (Cons it xs)
  have "same_blocks dev dev' {pos..<pos + item_len it}"
    "same_blocks dev dev' {pos + item_len it..<pos + item_len it + span xs}"
    using Cons.prems(2) by (auto simp: same_blocks_def)
  with Cons show ?case by (auto intro: item_ok_same)
qed simp

lemma items_at_seg: "items_at K dev pos xs \<longleftrightarrow> items_seg K dev pos xs \<and> pos + span xs = MAX_LBA_NUM"
  using items_at_append [of K dev pos xs "[]"] by simp

lemma items_at_same:
  "items_at K dev pos xs \<Longrightarrow> same_blocks dev dev' {pos..<MAX_LBA_NUM} \<Longrightarrow> items_at K dev' pos xs"
  unfolding items_at_seg using items_seg_same [of K dev pos xs dev'] by auto

text \<open>The position of a record is its \<open>lba\<close> field, and the item list can be split there.\<close>

lemma items_at_split:
  assumes "items_seg K dev pos xs" "Rec e val \<in> set xs"
  obtains ys zs where "xs = ys @ Rec e val # zs" "pos + span ys = unat (ie_lba e)"
    "item_ok K dev (unat (ie_lba e)) (Rec e val)"
proof -
  obtain ys zs where xs: "xs = ys @ Rec e val # zs" using assms(2) by (meson split_list)
  then have "item_ok K dev (pos + span ys) (Rec e val)"
    using assms(1) by (auto simp: items_seg_append)
  with xs show thesis by (intro that) auto
qed

lemma seg_lba_bounds:
  "items_seg K dev pos xs \<Longrightarrow> Rec e val \<in> set xs \<Longrightarrow>
     pos \<le> unat (ie_lba e) \<and> unat (ie_lba e) + unat (nblks e) \<le> pos + span xs"
  by (erule (1) items_at_split) auto

section \<open>Cutting the item list\<close>

text \<open>
  No block of the record behind the first one looks like the start of a record. Values are not
  escaped, so the recovery scan depends on it once such a record has been partly overwritten.
\<close>

definition plain_tail :: "dev \<Rightarrow> index_ent \<Rightarrow> bool" where
  "plain_tail dev e \<longleftrightarrow>
     (\<forall>b. unat (ie_lba e) < b \<and> b < unat (ie_lba e) + unat (nblks e) \<longrightarrow>
        (from_le (take 2 (block_bytes dev b 1)) :: u16) \<noteq> METAMAGIC)"

lemma gaps_at:
  "(\<forall>b. q \<le> b \<and> b < q + g \<longrightarrow>
      b < MAX_LBA_NUM \<and> (from_le (take 2 (block_bytes dev b 1)) :: u16) \<noteq> METAMAGIC) \<Longrightarrow>
     items_seg K dev q (replicate g Gap)"
proof (induction g arbitrary: q)
  case (Suc g)
  have "items_seg K dev (Suc q) (replicate g Gap)" using Suc.prems by (intro Suc.IH) auto
  with Suc.prems show ?case by auto
qed simp

text \<open>Any block can be made a boundary: what is left of a record behind it is unused blocks.\<close>

lemma items_cut:
  assumes "items_at K dev p xs" "p \<le> q" "q \<le> MAX_LBA_NUM" "\<forall>e val. Rec e val \<in> set xs \<longrightarrow> plain_tail dev e"
  shows "\<exists>g ds. items_at K dev q (replicate g Gap @ ds) \<and> set ds \<subseteq> set xs \<and>
    (\<forall>e val. Rec e val \<in> set xs \<longrightarrow> q \<le> unat (ie_lba e) \<longrightarrow> Rec e val \<in> set ds)"
  using assms
proof (induction xs arbitrary: p)
  case Nil
  then show ?case by (intro exI [of _ 0] exI [of _ "[]"]) auto
next
  case (Cons it xs)
  have it: "item_ok K dev p it" and rest: "items_at K dev (p + item_len it) xs"
    using Cons.prems(1) by (simp_all add: items_at_Cons)
  consider "q = p" | "p < q" "p + item_len it \<le> q" | "p < q" "q < p + item_len it"
    using Cons.prems(2) by linarith
  then show ?case
  proof cases
    case 1
    with Cons.prems(1) show ?thesis by (intro exI [of _ 0] exI [of _ "it # xs"]) auto
  next
    case 2
    have low: "\<not> q \<le> unat (ie_lba e)" if "it = Rec e val" for e val
      using it that 2(1) by auto
    have "\<forall>e val. Rec e val \<in> set xs \<longrightarrow> plain_tail dev e" using Cons.prems(4) by simp
    from Cons.IH [OF rest 2(2) Cons.prems(3) this] obtain g ds
      where ds: "items_at K dev q (replicate g Gap @ ds)" "set ds \<subseteq> set xs"
        "\<forall>e val. Rec e val \<in> set xs \<longrightarrow> q \<le> unat (ie_lba e) \<longrightarrow> Rec e val \<in> set ds" by blast
    have "Rec e val \<in> set ds" if "Rec e val \<in> set (it # xs)" "q \<le> unat (ie_lba e)" for e val
      using that low ds(3) by auto
    with ds(1,2) show ?thesis by (intro exI [of _ g] exI [of _ ds]) auto
  next
    case 3
    then obtain e val where r: "it = Rec e val" using it by (cases it) auto
    let ?g = "p + item_len it - q"
    have "unat (ie_lba e) = p" "p + item_len it \<le> MAX_LBA_NUM" "plain_tail dev e"
      using it r Cons.prems(4) by auto
    then have "items_seg K dev q (replicate ?g Gap)"
      using 3 r by (intro gaps_at) (auto simp: plain_tail_def)
    then have "items_at K dev q (replicate ?g Gap @ xs)"
      using rest 3 by (simp add: items_at_append sum_list_replicate)
    moreover have "\<not> q \<le> unat (ie_lba e)" using \<open>unat (ie_lba e) = p\<close> 3(1) by simp
    ultimately show ?thesis using r by (intro exI [of _ ?g] exI [of _ xs]) auto
  qed
qed

section \<open>The store invariant\<close>

text \<open>
  \<open>m\<close> maps keys to index entries and \<open>M\<close> keys to values; \<open>is\<close> is the device image. Records that
  are not indexed are older than the indexed one of their key. The last block of the device is
  kept free, since \<open>free_blk\<close> needs a free block above what it releases.
\<close>

definition store_inv ::
  "bytes set \<Rightarrow> (bytes \<rightharpoonup> index_ent) \<Rightarrow> (bytes \<rightharpoonup> bytes) \<Rightarrow> item list \<Rightarrow> kv \<Rightarrow> bool" where
  "store_inv K m M is s \<longleftrightarrow>
     prefix_safe K \<and>
     scan_inv K MAX_LBA_NUM m (kv_indx s) (kv_freelist s) \<and>
     items_at K (kv_dev s) 0 is \<and>
     (\<forall>e val. Rec e val \<in> set is \<longrightarrow> plain_tail (kv_dev s) e) \<and>
     (\<forall>e val. Rec e val \<in> set is \<and> ie_crc e = newer_crc val \<longrightarrow>
        (\<exists>e'. m (ekey e) = Some e' \<and> (e = e' \<or> ie_version e < ie_version e'))) \<and>
     (\<forall>k e. m k = Some e \<longrightarrow>
        ekey e = k \<and> (\<exists>val. M k = Some val \<and> Rec e val \<in> set is \<and> ie_crc e = newer_crc val)) \<and>
     dom M = dom m \<and>
     MAX_LBA_NUM - 1 \<in> free_set (kv_freelist s) \<and>
     kv_batch s = [] \<and> kv_numblks s = 0"

lemma store_invD:
  assumes "store_inv K m M is s"
  shows "prefix_safe K" "scan_inv K MAX_LBA_NUM m (kv_indx s) (kv_freelist s)"
    "items_at K (kv_dev s) 0 is" "Rec e val \<in> set is \<Longrightarrow> plain_tail (kv_dev s) e"
    "Rec e val \<in> set is \<Longrightarrow> ie_crc e = newer_crc val \<Longrightarrow>
       \<exists>e'. m (ekey e) = Some e' \<and> (e = e' \<or> ie_version e < ie_version e')"
    "m k = Some e \<Longrightarrow>
       ekey e = k \<and> (\<exists>val. M k = Some val \<and> Rec e val \<in> set is \<and> ie_crc e = newer_crc val)"
    "dom M = dom m" "MAX_LBA_NUM - 1 \<in> free_set (kv_freelist s)" "kv_batch s = []" "kv_numblks s = 0"
  using assms unfolding store_inv_def by blast+

text \<open>What the recovery scan finds on the device is what the index holds.\<close>

lemma recover_store:
  assumes inv: "store_inv K m M is s"
  shows "recover Map.empty is = m"
proof
  fix k
  have new: "newest (recover Map.empty is k) (valid_recs is k)"
    using recover_newest [of Map.empty "\<lambda>_. {}" "is" k] by (simp add: newest_def)
  show "recover Map.empty is k = m k"
  proof (cases "m k")
    case None
    then have "valid_recs is k = {}"
      using store_invD(5) [OF inv] by (fastforce simp: valid_recs_def)
    with new None show ?thesis by (cases "recover Map.empty is k") (auto simp: newest_def)
  next
    case (Some e)
    then have "e \<in> valid_recs is k"
      using store_invD(6) [OF inv Some] by (auto simp: valid_recs_def)
    with new obtain e' where e': "recover Map.empty is k = Some e'" "e' \<in> valid_recs is k"
      "ie_version e \<le> ie_version e'"
      by (auto simp: newest_def split: option.splits)
    then have "e' = e"
      using store_invD(5) [OF inv] Some by (fastforce simp: valid_recs_def)
    with e'(1) Some show ?thesis by simp
  qed
qed

section \<open>Restart\<close>

lemma store_restart:
  assumes inv: "store_inv K m M is s"
  shows "\<exists>s'. blkio_init_cpu (kv_dev s) = Some (Inr s') \<and> store_inv K m M is s' \<and> kv_dev s' = kv_dev s"
proof -
  note D = store_invD [OF inv]
  obtain idx fl where sc: "index_init (kv_dev s) freelist_init = Some (Inr (scan_at idx fl MAX_LBA_NUM))"
    and si: "scan_inv K MAX_LBA_NUM m idx fl"
    using index_scan_items [OF D(1,3) scan_inv_start] recover_store [OF inv]
    by (auto simp: index_init_def)
  have "free_set fl = free_set (kv_freelist s)"
    using scan_invD(8) [OF si] scan_invD(8) [OF D(2)] by simp
  with inv si show ?thesis by (simp add: blkio_init_cpu_def sc store_inv_def)
qed

section \<open>Reads\<close>

lemma read_stored:
  assumes inv: "store_inv K m M is s" and k: "k \<in> K"
  shows "case M k of
      None \<Rightarrow> bsys_io_read s k True True = Inr (- 1, s)
    | Some val \<Rightarrow> bsys_io_read s k True True =
        (if unat (nblks (the (m k))) \<le> 4
         then Inr (0, s\<lparr>kv_events := kv_events s @ [Io_Read k val]\<rparr>) else Inl AssertFailed)"
proof (cases "m k")
  case None
  then have "M k = None" using store_invD(7) [OF inv] by auto
  with None show ?thesis
    using scan_invD(3) [OF store_invD(2) [OF inv] k] by (simp add: bsys_io_read_def get_index_ent_def)
next
  case (Some e)
  then obtain val where val: "M k = Some val" "Rec e val \<in> set is" using store_invD(6) [OF inv] by blast
  have "items_seg K (kv_dev s) 0 is" using store_invD(3) [OF inv] by (simp add: items_at_seg)
  from items_at_split [OF this val(2)]
  have ok: "item_ok K (kv_dev s) (unat (ie_lba e)) (Rec e val)" by metis
  then obtain pad where blk: "block_bytes (kv_dev s) (unat (ie_lba e)) (unat (nblks e)) = meta_bytes e @ val @ pad"
    and wf: "wf_rec K e val" and max: "unat (ie_lba e) + unat (nblks e) \<le> MAX_LBA_NUM" by auto
  have w: "length val \<le> STORAGE_SIZE" "ie_val_len e = of_nat (length val)" "length (meta_bytes e) = META_SZ"
    using wf length_meta_bytes by (simp_all add: wf_rec_def)
  have len: "unat (ie_val_len e) = length val" using w by (simp add: unat_of_nat STORAGE_SIZE_def)
  have n: "unat (CALC_NUMBLKS (ie_val_len e)) = unat (nblks e)"
    using unat_nblks [OF w(1,2)] unat_CALC_NUMBLKS [OF w(1)] w(2) by simp
  have "dummy_dev_read (kv_dev s) (scast (ie_lba e)) (CALC_NUMBLKS (ie_val_len e)) =
      Inr (meta_bytes e @ val @ pad)"
    using read_blocks [of "unat (ie_lba e)" "CALC_NUMBLKS (ie_val_len e)" "kv_dev s"] max blk n by simp
  then show ?thesis
    using scan_invD(3) [OF store_invD(2) [OF inv] k] Some val(1) n w(3) len
    by (simp add: bsys_io_read_def get_index_ent_def io_read_cb_def word_le_nat_alt MBUF_DATA_LEN_def
        LBA_SIZE_def)
qed

text \<open>A stored value of up to 1920 bytes takes at most the four blocks of a packet buffer.\<close>

lemma nblks_stored:
  assumes inv: "store_inv K m M is s" and val: "M k = Some val"
  shows "unat (nblks (the (m k))) \<le> 4 \<longleftrightarrow> length val \<le> 1920"
proof -
  obtain e where e: "m k = Some e" using store_invD(7) [OF inv] val by blast
  then have rec: "Rec e val \<in> set is" using store_invD(6) [OF inv] val by fastforce
  have "items_seg K (kv_dev s) 0 is" using store_invD(3) [OF inv] by (simp add: items_at_seg)
  from items_at_split [OF this rec] have "item_ok K (kv_dev s) (unat (ie_lba e)) (Rec e val)" by metis
  then have "length val \<le> STORAGE_SIZE" "ie_val_len e = of_nat (length val)"
    by (simp_all add: wf_rec_def)
  from unat_nblks [OF this] show ?thesis by (auto simp: e)
qed

section \<open>Writes\<close>

text \<open>
  Values that the code handles: not empty, not ending exactly at a block boundary beyond the first
  block (the padding would then be a whole block too long), and with no block that starts with the
  magic number.
\<close>

definition storable_val :: "bytes \<Rightarrow> bool" where
  "storable_val val \<longleftrightarrow>
     0 < length val \<and> length val \<le> STORAGE_SIZE \<and>
     (DATA_SZ < length val \<longrightarrow> (length val - DATA_SZ) mod LBA_SIZE \<noteq> 0) \<and>
     (\<forall>j. DATA_SZ + j * LBA_SIZE < length val \<longrightarrow>
        (from_le (take 2 (drop (DATA_SZ + j * LBA_SIZE) (val @ [0]))) :: u16) \<noteq> METAMAGIC)"

definition val_blocks :: "bytes \<Rightarrow> nat" where
  "val_blocks val = (if DATA_SZ < length val then 1 + (length val + 127) div 512 else 1)"

definition room :: "freelist \<Rightarrow> nat \<Rightarrow> bool" where
  "room fl n \<longleftrightarrow> (\<exists>b. {b..<b + n} \<subseteq> free_set fl \<and> b + n < MAX_LBA_NUM)"

lemma record_fills_blocks:
  assumes "storable_val val" "ie_val_len e = of_nat (length val)"
  shows "META_SZ + length val + num_zeros (length val) = unat (nblks e) * LBA_SIZE"
proof -
  have v: "length val \<le> STORAGE_SIZE" "384 < length val \<Longrightarrow> (length val - 384) mod 512 \<noteq> 0"
    using assms(1) by (simp_all add: storable_val_def DATA_SZ_eq LBA_SIZE_def)
  note n = unat_nblks [OF v(1) assms(2)]
  show ?thesis
  proof (cases "384 < length val")
    case True
    then obtain d where d: "length val = 384 + d" by (metis less_imp_add_positive)
    have "d mod 512 \<noteq> 0" using v(2) [OF True] d by simp
    moreover have "(d + 511) div 512 = d div 512 + 1"
    proof -
      have "d + 511 = (d mod 512 - 1) + (d div 512 + 1) * 512"
        using \<open>d mod 512 \<noteq> 0\<close> div_mult_mod_eq [of d 512] by simp
      then have "(d + 511) div 512 = d div 512 + 1 + (d mod 512 - 1) div 512"
        by (simp only: div_mult_self1 [of "512 :: nat"])
      also have "(d mod 512 - 1) div 512 = 0"
        using mod_less_divisor [of 512 d] by (intro div_less) linarith
      finally show ?thesis by simp
    qed
    moreover have "0 < d" using \<open>d mod 512 \<noteq> 0\<close> by (cases d) auto
    moreover have "d div 512 * 512 = d - d mod 512" "d mod 512 \<le> d"
      by (simp_all add: minus_mod_eq_div_mult)
    moreover have "unat (nblks e) = 1 + (d + 511) div 512"
      using n d True by (simp add: add.commute)
    ultimately show ?thesis
      using d by (simp add: num_zeros_def META_SZ_eq DATA_SZ_eq LBA_SIZE_def)
  next
    case False
    then show ?thesis using n by (simp add: num_zeros_def META_SZ_eq DATA_SZ_eq LBA_SIZE_def)
  qed
qed

text \<open>The blocks behind the first one of a freshly written record.\<close>

lemma written_tail_plain:
  assumes val: "storable_val val" "ie_val_len e = of_nat (length val)" "length (ie_key e) = MAX_KEY_LEN"
    and blk: "block_bytes dev (unat (ie_lba e)) (unat (nblks e)) =
      meta_bytes e @ val @ replicate (num_zeros (length val)) 0"
  shows "plain_tail dev e"
  unfolding plain_tail_def
proof (intro allI impI, elim conjE)
  fix b assume b: "unat (ie_lba e) < b" "b < unat (ie_lba e) + unat (nblks e)"
  let ?p = "unat (ie_lba e)" and ?n = "unat (nblks e)" and ?z = "num_zeros (length val)"
  obtain j where j: "b = ?p + Suc j" using b(1) less_iff_Suc_add by auto
  let ?off = "DATA_SZ + j * LBA_SIZE"
  have v: "length val \<le> STORAGE_SIZE" "length (meta_bytes e) = META_SZ"
    using val length_meta_bytes by (simp_all add: storable_val_def)
  have nb: "Suc j < ?n" using b(2) j by simp
  have long: "384 < length val" and "?n = 1 + (length val + 127) div 512"
    using unat_nblks [OF v(1) val(2)] nb by (auto split: if_splits)
  then have "Suc j * 512 \<le> length val + 127" using nb by (simp add: less_eq_div_iff_mult_less_eq)
  moreover have "?off \<noteq> length val"
  proof
    assume "?off = length val"
    then have "length val - DATA_SZ = j * LBA_SIZE" by simp
    with val(1) long show False by (simp add: storable_val_def DATA_SZ_eq)
  qed
  ultimately have off: "?off < length val" by (simp add: DATA_SZ_eq LBA_SIZE_def)
  have z: "0 < ?z" using long by (simp add: num_zeros_def DATA_SZ_eq LBA_SIZE_def)
  have "block_bytes dev b 1 = take LBA_SIZE (drop (Suc j * LBA_SIZE) (block_bytes dev ?p ?n))"
    using nb j by (intro nth_equalityI)
      (auto simp: block_bytes_def algebra_simps LBA_SIZE_def)
  also have "\<dots> = take LBA_SIZE (drop ?off (val @ replicate ?z 0))"
    using v(2) by (simp add: blk META_SZ_eq DATA_SZ_eq LBA_SIZE_def)
  finally have "take 2 (block_bytes dev b 1) = take 2 (drop ?off (val @ replicate ?z 0))"
    by (simp add: LBA_SIZE_def del: drop_append take_append)
  also have "\<dots> = take 2 (drop ?off (val @ [0]))"
    using off z by (cases ?z) (auto simp: take_Cons' numeral_2_eq_2)
  finally show "(from_le (take 2 (block_bytes dev b 1)) :: u16) \<noteq> METAMAGIC"
    using val(1) off by (simp add: storable_val_def)
qed

text \<open>Taking blocks for a record, then replacing the old record of its key.\<close>

lemma alloc_then_update:
  assumes safe: "prefix_safe K" and inv: "scan_inv K MAX_LBA_NUM m idx fl"
    and wf: "terminated e" "ekey e \<in> K" "0 < nblks e"
    and sub: "ent_range e \<subseteq> free_set fl" and top: "MAX_LBA_NUM - 1 \<in> free_set fl - ent_range e"
    and fl1: "fl_inv fl1" "free_set fl1 = free_set fl - ent_range e"
  shows "\<exists>idx' fl'. update_index idx fl1 e = Inr (idx', fl') \<and>
    scan_inv K MAX_LBA_NUM (m(ekey e \<mapsto> e)) idx' fl' \<and> MAX_LBA_NUM - 1 \<in> free_set fl'"
proof -
  note D = scan_invD [OF inv]
  let ?old = "case m (ekey e) of Some old \<Rightarrow> ent_range old | None \<Rightarrow> {}"
  let ?m = "m(ekey e \<mapsto> e)"
  have apart: "ent_range x \<inter> free_set fl = {}" if "m k = Some x" for k x
    using that D(8) by (auto intro: ranI)
  have rel: "\<exists>fl'. free_blk fl1 (ie_lba old) (nblks old) = Inr fl' \<and> fl_inv fl' \<and>
      free_set fl' = free_set fl1 \<union> ent_range old" if old: "m (ekey e) = Some old" for old
  proof -
    have "ent_range old \<subseteq> {..<MAX_LBA_NUM - 1}"
      using D(6) [OF old] apart [OF old] top by (auto simp: subset_eq) (metis DiffD1 IntI One_nat_def Suc_pred empty_iff less_SucE not_gr_zero less_nat_zero_code)
    then have "unat (ie_lba old) + unat (nblks old) \<le> MAX_LBA_NUM - 1"
      using D(5) [OF old] by (auto simp: ent_range_def blk_range_def word_less_nat_alt subset_eq
          dest!: bspec [of _ _ "unat (ie_lba old) + unat (nblks old) - 1"])
    then show ?thesis
      unfolding ent_range_def using fl1 top D(5) [OF old] apart [OF old]
      by (intro free_blk_below) (auto simp: ent_range_def)
  qed
  have "\<exists>fl'. update_index idx fl1 e = Inr (idx_put idx e, fl') \<and> fl_inv fl' \<and>
      free_set fl' = free_set fl1 \<union> ?old"
    using fl1(1) D(3) [OF wf(2)] rel
    by (auto simp: update_index_eq [OF wf(1)] nblks_def split: option.split)
  then obtain fl' where u: "update_index idx fl1 e = Inr (idx_put idx e, fl')" "fl_inv fl'"
    "free_set fl' = free_set fl1 \<union> ?old" by blast
  have old_sub: "?old \<subseteq> {..<MAX_LBA_NUM}" "?old \<inter> ent_range e = {}"
    using D(6) [of "ekey e"] apart [of "ekey e"] sub by (cases "m (ekey e)"; auto)+
  have dis: "ent_range x \<inter> ent_range e = {}" if "m k = Some x" for k x
    using apart [OF that] sub by blast
  have "free_set fl' = {..<MAX_LBA_NUM} - (\<Union>x \<in> ran ?m. ent_range x)"
    unfolding u(3) fl1(2) D(8) live_update [OF inv] using old_sub by blast
  moreover have "\<forall>x \<in> ran ?m. 0 < nblks x \<and> ent_range x \<subseteq> {..<MAX_LBA_NUM}"
    using D(5,6) wf(3) sub free_set_bounded [OF D(2)] by (fastforce simp: ran_def split: if_splits)
  ultimately have "scan_inv K MAX_LBA_NUM ?m (idx_put idx e) fl'"
    unfolding scan_inv_def
    using u(2) idx_inv_put [OF safe D(1) wf(1,2)] key_lookup_put [OF safe D(1) wf(1,2)] D(3,4,7) wf(2) dis
    by (auto simp: Int_commute)
  with u top fl1(2) show ?thesis by blast
qed

text \<open>The block before a first-fit allocation is in use, so the allocation starts at an item.\<close>

lemma items_boundary:
  assumes inv: "store_inv K m M is s" and free: "p \<in> free_set (kv_freelist s)"
    and before: "0 < p \<Longrightarrow> p - 1 \<notin> free_set (kv_freelist s)"
  shows "\<exists>xs ys. is = xs @ ys \<and> span xs = p"
proof (cases "p = 0")
  case False
  note D = scan_invD [OF store_invD(2) [OF inv]]
  have "p < MAX_LBA_NUM" using free D(8) by simp
  then obtain k e where e: "m k = Some e" "p - 1 \<in> ent_range e"
    using before False D(8) by (auto simp: ran_def)
  have "p \<notin> ent_range e" using free e(1) D(8) by (auto intro: ranI)
  then have fin: "unat (ie_lba e) + unat (nblks e) = p"
    using e(2) False by (auto simp: ent_range_def blk_range_def)
  obtain val where "Rec e val \<in> set is" using store_invD(6) [OF inv e(1)] by blast
  moreover have "items_seg K (kv_dev s) 0 is" using store_invD(3) [OF inv] by (simp add: items_at_seg)
  ultimately obtain xs ys where "is = xs @ Rec e val # ys" "span xs = unat (ie_lba e)"
    using items_at_split by (metis add_0)
  then have "is = (xs @ [Rec e val]) @ ys" "span (xs @ [Rec e val]) = p" using fin by simp_all
  then show ?thesis by blast
qed (intro exI [of _ "[]"] exI [of _ "is"], simp)

text \<open>Writing a record over free blocks that start at an item.\<close>

lemma same_blocks_put:
  assumes "length bs = n * LBA_SIZE" "B \<inter> {p..<p + n} = {}"
  shows "same_blocks dev (dev_put dev (p * LBA_SIZE) bs) B"
  unfolding same_blocks_def block_bytes_def
proof (intro ballI map_cong refl)
  fix b i assume b: "b \<in> B" and i: "i \<in> set [b * LBA_SIZE..<(b + 1) * LBA_SIZE]"
  have "b < p \<or> p + n \<le> b" using assms(2) b by fastforce
  then have "(b + 1) * LBA_SIZE \<le> p * LBA_SIZE \<or> (p + n) * LBA_SIZE \<le> b * LBA_SIZE"
    by (metis Suc_eq_plus1 Suc_leI mult_le_mono1)
  then have "i < p * LBA_SIZE \<or> (p + n) * LBA_SIZE \<le> i"
    using i by (simp only: set_upt atLeastLessThan_iff) linarith
  then show "dev i = dev_put dev (p * LBA_SIZE) bs i"
    by (auto simp: dev_put_def assms(1) add_mult_distrib)
qed

lemma plain_tail_same:
  "plain_tail dev e \<Longrightarrow> same_blocks dev dev' {unat (ie_lba e)..<unat (ie_lba e) + unat (nblks e)} \<Longrightarrow>
     plain_tail dev' e"
  by (auto simp: plain_tail_def same_blocks_def)

lemma items_overwrite:
  assumes at: "items_at K dev 0 (xs @ ys)" "\<forall>e val. Rec e val \<in> set (xs @ ys) \<longrightarrow> plain_tail dev e"
    and e: "wf_rec K e val" "unat (ie_lba e) = span xs" "span xs + unat (nblks e) \<le> MAX_LBA_NUM"
    and val: "storable_val val"
    and dev': "dev' = dev_put dev (span xs * LBA_SIZE)
      (meta_bytes e @ val @ replicate (num_zeros (length val)) 0)"
  shows "\<exists>zs. items_at K dev' 0 (xs @ Rec e val # zs) \<and> (\<forall>e v. Rec e v \<in> set zs \<longrightarrow> Rec e v \<in> set ys) \<and>
    (\<forall>x v. Rec x v \<in> set ys \<longrightarrow> span xs + unat (nblks e) \<le> unat (ie_lba x) \<longrightarrow> Rec x v \<in> set zs) \<and>
    (\<forall>x v. Rec x v \<in> set (xs @ Rec e val # zs) \<longrightarrow> plain_tail dev' x)"
proof -
  let ?p = "span xs" and ?n = "unat (nblks e)"
  let ?bs = "meta_bytes e @ val @ replicate (num_zeros (length val)) 0"
  have w: "length (ie_key e) = MAX_KEY_LEN" "ie_val_len e = of_nat (length val)"
    using e(1) by (simp_all add: wf_rec_def)
  have len: "length ?bs = ?n * LBA_SIZE"
    using record_fills_blocks [OF val w(2)] length_meta_bytes [OF w(1)] by simp
  have blk: "block_bytes dev' ?p ?n = ?bs"
    using block_bytes_put [of ?bs ?n dev ?p] len by (simp add: dev' add_mult_distrib del: append_assoc)
  have xs: "items_seg K dev 0 xs" and ys: "items_at K dev ?p ys"
    using at(1) by (simp_all add: items_at_append)
  have same: "same_blocks dev dev' {0..<?p}" "same_blocks dev dev' {?p + ?n..<MAX_LBA_NUM}"
    using same_blocks_put [OF len] by (auto simp: dev')
  obtain g ds where ds: "items_at K dev (?p + ?n) (replicate g Gap @ ds)" "set ds \<subseteq> set ys"
    "\<forall>x v. Rec x v \<in> set ys \<longrightarrow> ?p + ?n \<le> unat (ie_lba x) \<longrightarrow> Rec x v \<in> set ds"
    using items_cut [OF ys _ e(3)] at(2) by fastforce
  let ?zs = "replicate g Gap @ ds"
  have "items_seg K dev' 0 xs" using items_seg_same [OF xs] same(1) by simp
  moreover have "items_at K dev' (?p + ?n) ?zs" using ds(1) same(2) by (rule items_at_same)
  moreover have "item_ok K dev' ?p (Rec e val)" using e blk by auto
  ultimately have all: "items_at K dev' 0 (xs @ Rec e val # ?zs)"
    by (simp add: items_at_append items_at_Cons)
  have "plain_tail dev' x" if "Rec x v \<in> set xs" for x v
  proof (rule plain_tail_same)
    show "plain_tail dev x" using at(2) that by simp
    show "same_blocks dev dev' {unat (ie_lba x)..<unat (ie_lba x) + unat (nblks x)}"
      using seg_lba_bounds [OF xs that] by (intro same_blocks_mono [OF same(1)]) simp
  qed
  moreover have "plain_tail dev' x" if that: "Rec x v \<in> set ?zs" for x v
  proof (rule plain_tail_same)
    show "plain_tail dev x" using at(2) ds(2) that by auto
    show "same_blocks dev dev' {unat (ie_lba x)..<unat (ie_lba x) + unat (nblks x)}"
      using seg_lba_bounds [OF ds(1) [unfolded items_at_seg, THEN conjunct1] that] ds(1)
      by (intro same_blocks_mono [OF same(2)]) (simp add: items_at_seg)
  qed
  moreover have "plain_tail dev' e"
    using written_tail_plain [OF val w(2,1)] blk e(2) by simp
  ultimately have "\<forall>x v. Rec x v \<in> set (xs @ Rec e val # ?zs) \<longrightarrow> plain_tail dev' x" by auto
  with all ds(2,3) show ?thesis by (intro exI [of _ ?zs]) auto
qed

lemma kv_put_runs:
  assumes idle: "kv_batch s = []" "kv_numblks s = 0"
    and e0: "new_index_ent (kv_indx s) junk key val = Inr e0" "ie_magic e0 = METAMAGIC"
      "ie_val_len e0 = of_nat (length val)" "nblks e0 \<noteq> 0"
    and blk: "get_blk (kv_freelist s) (nblks e0) = (lba, fl1)" "unat lba + unat (nblks e0) \<le> MAX_LBA_NUM"
    and e: "e = e0\<lparr>ie_lba := lba\<rparr>"
    and bs: "bs = meta_bytes e @ val @ replicate (num_zeros (length val)) 0"
      "length bs = unat (nblks e0) * LBA_SIZE"
    and upd: "update_index (kv_indx s) fl1 e = Inr (idx', fl')"
  shows "kv_put s junk key val = Inr (s\<lparr>kv_indx := idx', kv_freelist := fl',
    kv_dev := dev_put (kv_dev s) (unat lba * LBA_SIZE) bs,
    kv_events := kv_events s @ [Io_Wrote key val]\<rparr>)"
proof -
  let ?slot = "\<lparr>sl_meta = e0, sl_val = val, sl_zeros = num_zeros (length val), sl_key = key\<rparr>"
  let ?slot' = "\<lparr>sl_meta = e, sl_val = val, sl_zeros = num_zeros (length val), sl_key = key\<rparr>"
  let ?s1 = "s\<lparr>kv_batch := [?slot], kv_numblks := nblks e0\<rparr>"
  have w: "bsys_io_write s junk key val = Inr ?s1"
    using idle e0 by (simp add: bsys_io_write_def MAX_BATCH_def nblks_def Let_def)
  have lba: "unat (scast lba :: u64) = unat lba"
    using scan_pos(3) [of "unat lba"] blk(2) by simp
  have cnt: "unat (ucast (nblks e0) :: u64) = unat (nblks e0)"
    by (simp add: unsigned_ucast_eq take_bit_nat_eq_self unsigned_less [THEN less_le_trans])
  have sg: "concat (sg_entries [?slot']) = bs" by (simp add: sg_entries_def bs(1))
  have "(unat lba + unat (nblks e0)) * 512 \<le> 1953125 * 512" using blk(2) by (simp add: MAX_LBA_NUM_eq)
  then have "dummy_dev_writev (kv_dev s) (sg_entries [?slot']) (scast lba) (ucast (nblks e0)) True =
      Inr (dev_put (kv_dev s) (unat lba * LBA_SIZE) bs)"
    using dummy_dev_writev_eq [of "scast lba" "ucast (nblks e0)" "sg_entries [?slot']" "kv_dev s"]
    unfolding lba cnt sg bs(2) by (simp add: LBA_SIZE_def STORAGE_SIZE_def)
  then have f: "bsys_io_write_flush ?s1 True = Inr (?s1\<lparr>kv_freelist := fl1, kv_batch := [?slot'],
      kv_dev := dev_put (kv_dev s) (unat lba * LBA_SIZE) bs, kv_pending := Suc (kv_pending s)\<rparr>)"
    using e0(4) blk(1) by (simp add: bsys_io_write_flush_def set_lbas_def e)
  show ?thesis
    using idle upd by (simp add: kv_put_def w f io_write_cb_def)
qed

text \<open>The map part of the invariant after a record has been written over free blocks.\<close>

lemma store_inv_put:
  assumes inv: "store_inv K m M (xs @ ys) s"
    and e: "ekey e = k" "ie_crc e = newer_crc val" "\<forall>old. m k = Some old \<longrightarrow> ie_version old < ie_version e"
      "unat (ie_lba e) = span xs" "ent_range e \<subseteq> free_set (kv_freelist s)" "0 < nblks e"
    and zs: "\<forall>x v. Rec x v \<in> set zs \<longrightarrow> Rec x v \<in> set ys"
      "\<forall>x v. Rec x v \<in> set ys \<longrightarrow> span xs + unat (nblks e) \<le> unat (ie_lba x) \<longrightarrow> Rec x v \<in> set zs"
    and at: "items_at K (kv_dev s') 0 (xs @ Rec e val # zs)"
      "\<forall>x v. Rec x v \<in> set (xs @ Rec e val # zs) \<longrightarrow> plain_tail (kv_dev s') x"
    and s': "scan_inv K MAX_LBA_NUM (m(k \<mapsto> e)) (kv_indx s') (kv_freelist s')"
      "MAX_LBA_NUM - 1 \<in> free_set (kv_freelist s')" "kv_batch s' = []" "kv_numblks s' = 0"
  shows "store_inv K (m(k \<mapsto> e)) (M(k \<mapsto> val)) (xs @ Rec e val # zs) s'"
proof -
  note D = store_invD [OF inv]
  let ?m = "m(k \<mapsto> e)"
  have older: "\<exists>x'. ?m (ekey x) = Some x' \<and> (x = x' \<or> ie_version x < ie_version x')"
    if rec: "Rec x v \<in> set (xs @ Rec e val # zs)" "ie_crc x = newer_crc v" for x v
  proof (cases "x = e \<and> v = val")
    case False
    then have "Rec x v \<in> set (xs @ ys)" using rec(1) zs(1) by auto
    with D(5) rec(2) obtain x' where x': "m (ekey x) = Some x'" "x = x' \<or> ie_version x < ie_version x'"
      by blast
    show ?thesis
    proof (cases "ekey x = k")
      case True
      then have "ie_version x' < ie_version e" using e(3) x'(1) by simp
      with x'(2) True show ?thesis by auto
    next
      case False
      with x' show ?thesis by simp
    qed
  qed (simp add: e(1))
  have kept: "Rec x v \<in> set (xs @ Rec e val # zs)" if x: "m k' = Some x" "Rec x v \<in> set (xs @ ys)" for k' x v
  proof (cases "Rec x v \<in> set xs")
    case False
    then have ys: "Rec x v \<in> set ys" using x(2) by simp
    have "items_seg K (kv_dev s) (span xs) ys"
      using D(3) by (simp add: items_seg_append items_at_seg)
    from seg_lba_bounds [OF this ys] have lo: "span xs \<le> unat (ie_lba x)" by simp
    have "ent_range x \<inter> free_set (kv_freelist s) = {}"
      using scan_invD(8) [OF D(2)] x(1) by (auto intro: ranI)
    moreover have "unat (ie_lba x) \<in> ent_range x"
      using scan_invD(5) [OF D(2) x(1)] by (simp add: ent_range_def blk_range_def word_less_nat_alt)
    ultimately have "unat (ie_lba x) \<notin> ent_range e" using e(5) by blast
    with lo have "span xs + unat (nblks e) \<le> unat (ie_lba x)"
      by (simp add: ent_range_def blk_range_def e(4))
    with zs(2) ys show ?thesis by simp
  qed simp
  have live: "ekey x = k' \<and> (\<exists>v. (M(k \<mapsto> val)) k' = Some v \<and> Rec x v \<in> set (xs @ Rec e val # zs) \<and> ie_crc x = newer_crc v)"
    if "?m k' = Some x" for k' x
  proof (cases "k' = k")
    case True
    with that e(1,2) show ?thesis by auto
  next
    case False
    with that have mx: "m k' = Some x" by simp
    then obtain v where "ekey x = k'" "M k' = Some v" "Rec x v \<in> set (xs @ ys)" "ie_crc x = newer_crc v"
      using D(6) by blast
    with kept [OF mx] False show ?thesis by auto
  qed
  have "dom (M(k \<mapsto> val)) = dom ?m" using D(7) by simp
  with D(1) s' at older live show ?thesis unfolding store_inv_def by blast
qed

text \<open>The main step: a flushed and completed write updates the map.\<close>

lemma put_stored:
  assumes inv: "store_inv K m M is s" and k: "k \<in> K" "length k < MAX_KEY_LEN" and val: "storable_val val"
    and ver: "\<forall>old. m k = Some old \<longrightarrow> ie_version old \<noteq> 0xFFFF"
    and space: "room (kv_freelist s) (val_blocks val)"
  shows "\<exists>s' e is'. kv_put s junk k val = Inr s' \<and> store_inv K (m(k \<mapsto> e)) (M(k \<mapsto> val)) is' s' \<and>
    kv_events s' = kv_events s @ [Io_Wrote k val] \<and>
    ie_version e = (case m k of None \<Rightarrow> 0 | Some old \<Rightarrow> ie_version old) + 1 \<and>
    free_set (kv_freelist s) - free_set (kv_freelist s') \<subseteq> ent_range e \<and>
    (\<forall>c. {c..<c + val_blocks val} \<subseteq> free_set (kv_freelist s) \<longrightarrow> ent_range e \<subseteq> {..<c + val_blocks val})"
proof -
  note D = store_invD [OF inv] and S = scan_invD [OF store_invD(2) [OF inv]]
  have "0 \<notin> set k" using D(1) k(1) by (simp add: prefix_safe_def)
  then obtain e0 where e0: "new_index_ent (kv_indx s) junk k val = Inr e0" "ekey e0 = k" "terminated e0"
    "length (ie_key e0) = MAX_KEY_LEN" "ie_magic e0 = METAMAGIC" "ie_val_len e0 = of_nat (length val)"
    "ie_crc e0 = newer_crc val" "ie_version e0 = get_version (kv_indx s) k + 1"
    using new_index_ent_ok [OF _ k(2)] by metis
  have vlen: "length val \<le> STORAGE_SIZE" "0 < length val" using val by (simp_all add: storable_val_def)
  let ?n = "nblks e0"
  have n: "0 < ?n" "unat ?n = val_blocks val"
    using nblks_fits(2) [OF vlen(1) e0(6)] unat_nblks [OF vlen(1) e0(6)]
    by (simp_all add: DATA_SZ_eq val_blocks_def)
  obtain b where b: "{b..<b + unat ?n} \<subseteq> free_set (kv_freelist s)" "b + unat ?n < MAX_LBA_NUM"
    using space n(2) by (auto simp: room_def)
  then obtain i where i: "first_fit (kv_freelist s) ?n = Some i"
    using get_blk_None_iff [OF S(2) n(1)] by auto
  obtain lba fl1 where gb: "get_blk (kv_freelist s) ?n = (lba, fl1)" by fastforce
  define e where "e = e0\<lparr>ie_lba := lba\<rparr>"
  have same: "nblks e = ?n" "ekey e = k" "terminated e" "ie_val_len e = of_nat (length val)"
    "ie_crc e = newer_crc val" "ie_version e = ie_version e0"
    using e0 by (simp_all add: e_def nblks_def ekey_def terminated_def)
  have G: "fl_inv fl1" "ent_range e \<subseteq> free_set (kv_freelist s)"
    "free_set fl1 = free_set (kv_freelist s) - ent_range e"
    "\<And>c. {c..<c + unat ?n} \<subseteq> free_set (kv_freelist s) \<Longrightarrow> unat lba \<le> c"
    using get_blk_Some [OF S(2) n(1) i] gb same(1) by (simp_all add: ent_range_def e_def)
  have "unat lba \<le> b" using G(4) b(1) .
  with b(2) have max: "unat lba + unat ?n < MAX_LBA_NUM" by simp
  have rg: "ent_range e = {unat lba..<unat lba + unat ?n}" 
    unfolding ent_range_def blk_range_def same(1) by (simp add: e_def)
  have top: "MAX_LBA_NUM - 1 \<in> free_set (kv_freelist s) - ent_range e" 
    using D(8) max rg by auto
  obtain idx' fl' where upd: "update_index (kv_indx s) fl1 e = Inr (idx', fl')"
    "scan_inv K MAX_LBA_NUM (m(k \<mapsto> e)) idx' fl'" "MAX_LBA_NUM - 1 \<in> free_set fl'"
    using alloc_then_update [OF D(1,2) same(3) _ _ G(2) top G(1,3)] same k n by auto
  define bs where "bs = meta_bytes e @ val @ replicate (num_zeros (length val)) 0"
  have wf: "wf_rec K e val" using e0 same k vlen by (simp add: wf_rec_def e_def)
  have len: "length bs = unat ?n * LBA_SIZE"
    using record_fills_blocks [OF val same(4)] length_meta_bytes [of e] e0(4) same(1)
    by (simp add: bs_def e_def)
  let ?s' = "s\<lparr>kv_indx := idx', kv_freelist := fl', kv_dev := dev_put (kv_dev s) (unat lba * LBA_SIZE) bs,
    kv_events := kv_events s @ [Io_Wrote k val]\<rparr>"
  have run: "kv_put s junk k val = Inr ?s'"
    using n(1) max by (intro kv_put_runs [OF D(9,10) e0(1,5,6) _ gb _ e_def bs_def len upd(1)]) auto
  have lo: "unat lba \<in> free_set (kv_freelist s)" using G(2) rg n(1) by (auto simp: word_less_nat_alt)
  have "unat lba - 1 \<notin> free_set (kv_freelist s)" if "0 < unat lba"
  proof
    assume "unat lba - 1 \<in> free_set (kv_freelist s)"
    moreover have "{unat lba - 1..<unat lba - 1 + unat ?n} \<subseteq> insert (unat lba - 1) (ent_range e)"
      unfolding rg by auto
    ultimately have "{unat lba - 1..<unat lba - 1 + unat ?n} \<subseteq> free_set (kv_freelist s)"
      using G(2) by blast
    from G(4) [OF this] that show False by simp
  qed
  with items_boundary [OF inv lo] obtain xs ys where xy: "is = xs @ ys" "span xs = unat lba" by blast
  have lba_e: "unat (ie_lba e) = span xs" by (simp add: e_def xy(2))
  obtain zs where zs: "items_at K (kv_dev ?s') 0 (xs @ Rec e val # zs)"
    "\<forall>x v. Rec x v \<in> set zs \<longrightarrow> Rec x v \<in> set ys"
    "\<forall>x v. Rec x v \<in> set ys \<longrightarrow> span xs + unat (nblks e) \<le> unat (ie_lba x) \<longrightarrow> Rec x v \<in> set zs"
    "\<forall>x v. Rec x v \<in> set (xs @ Rec e val # zs) \<longrightarrow> plain_tail (kv_dev ?s') x"
    using items_overwrite [OF D(3) [unfolded xy(1)] _ wf lba_e _ val refl] D(4) xy max same(1)
    by (auto simp: bs_def)
  have newer: "\<forall>old. m k = Some old \<longrightarrow> ie_version old < ie_version e"
    using ver S(3) [OF k(1)] version_less by (auto simp: same(6) e0(8) get_version_def)
  have "store_inv K (m(k \<mapsto> e)) (M(k \<mapsto> val)) (xs @ Rec e val # zs) ?s'"
    using upd(2,3) D(9,10) n(1) same(1)
    by (intro store_inv_put [OF inv [unfolded xy(1)] same(2,5) newer lba_e G(2) _ zs(2,3,1,4)]) auto
  moreover have "ie_version e = (case m k of None \<Rightarrow> 0 | Some old \<Rightarrow> ie_version old) + 1"
    using S(3) [OF k(1)] by (simp add: same(6) e0(8) get_version_def split: option.split)
  moreover have "ent_range e \<subseteq> {..<c + val_blocks val}"
    if "{c..<c + val_blocks val} \<subseteq> free_set (kv_freelist s)" for c
    using G(4) [of c] that n(2) rg by auto
  moreover have "free_set (kv_freelist s) - free_set fl' \<subseteq> ent_range e"
    unfolding scan_invD(8) [OF upd(2)] S(8) live_update [OF D(2)] by blast
  ultimately show ?thesis using run by (intro exI [of _ ?s'] exI [of _ e] exI conjI allI impI) auto
qed

section \<open>Runs of the store\<close>

datatype kv_op = Put bytes bytes | Restart

fun kv_exec :: "kv \<Rightarrow> kv_op list \<Rightarrow> kv res option" where
  "kv_exec s [] = Some (Inr s)"
| "kv_exec s (Put k val # ops) =
     (case kv_put s 0 k val of Inl f \<Rightarrow> Some (Inl f) | Inr s' \<Rightarrow> kv_exec s' ops)"
| "kv_exec s (Restart # ops) =
     (case blkio_init_cpu (kv_dev s) of
        None \<Rightarrow> None
      | Some (Inl f) \<Rightarrow> Some (Inl f)
      | Some (Inr s') \<Rightarrow> kv_exec s' ops)"

text \<open>The specification: a map that restarts do not change.\<close>

fun kv_spec :: "(bytes \<rightharpoonup> bytes) \<Rightarrow> kv_op list \<Rightarrow> (bytes \<rightharpoonup> bytes)" where
  "kv_spec M [] = M"
| "kv_spec M (Put k val # ops) = kv_spec (M(k \<mapsto> val)) ops"
| "kv_spec M (Restart # ops) = kv_spec M ops"

fun op_ok :: "bytes set \<Rightarrow> kv_op \<Rightarrow> bool" where
  "op_ok K (Put k val) \<longleftrightarrow> k \<in> K \<and> length k < MAX_KEY_LEN \<and> storable_val val"
| "op_ok K Restart \<longleftrightarrow> True"

fun op_blocks :: "kv_op \<Rightarrow> nat" where
  "op_blocks (Put k val) = val_blocks val"
| "op_blocks Restart = 0"

lemma kv_exec_correct:
  assumes "store_inv K m M is s" "\<forall>op \<in> set ops. op_ok K op"
    and "{c..<MAX_LBA_NUM} \<subseteq> free_set (kv_freelist s)" "c + sum_list (map op_blocks ops) < MAX_LBA_NUM"
    and "\<forall>e \<in> ran m. unat (ie_version e) \<le> v" "v + length ops < 2 ^ 16 - 1"
  shows "\<exists>m' is' s'. kv_exec s ops = Some (Inr s') \<and> store_inv K m' (kv_spec M ops) is' s'"
  using assms
proof (induction ops arbitrary: m M "is" s c v)
  case (Cons op ops)
  note D = store_invD [OF Cons.prems(1)]
  show ?case
  proof (cases op)
    case (Put k val)
    let ?n = "val_blocks val"
    have ok: "k \<in> K" "length k < MAX_KEY_LEN" "storable_val val" using Cons.prems(2) Put by auto
    have vers: "\<forall>old. m k = Some old \<longrightarrow> unat (ie_version old) \<le> v" using Cons.prems(5) by (auto intro: ranI)
    have v1: "\<forall>old. m k = Some old \<longrightarrow> ie_version old \<noteq> 0xFFFF"
    proof (intro allI impI notI)
      fix old assume "m k = Some old" "ie_version old = 0xFFFF"
      then have "65535 \<le> v" using vers by force
      then show False using Cons.prems(6) by simp
    qed
    have c: "{c..<c + ?n} \<subseteq> free_set (kv_freelist s)" "c + ?n < MAX_LBA_NUM"
      using Cons.prems(3,4) Put by (auto intro: subset_trans [OF _ Cons.prems(3)])
    then have "room (kv_freelist s) ?n" by (auto simp: room_def)
    from put_stored [OF Cons.prems(1) ok v1 this, of 0] obtain s' e is' where
      p: "kv_put s 0 k val = Inr s'" "store_inv K (m(k \<mapsto> e)) (M(k \<mapsto> val)) is' s'"
        "ie_version e = (case m k of None \<Rightarrow> 0 | Some old \<Rightarrow> ie_version old) + 1"
        "free_set (kv_freelist s) - free_set (kv_freelist s') \<subseteq> ent_range e"
        "ent_range e \<subseteq> {..<c + ?n}"
      using c(1) by blast
    have tail: "{c + ?n..<MAX_LBA_NUM} \<subseteq> free_set (kv_freelist s')"
    proof
      fix x assume x: "x \<in> {c + ?n..<MAX_LBA_NUM}"
      then have "x \<in> free_set (kv_freelist s)" using Cons.prems(3) by auto
      moreover have "x \<notin> ent_range e" using x p(5) by auto
      ultimately show "x \<in> free_set (kv_freelist s')" using p(4) by blast
    qed
    have ve: "unat (ie_version e) \<le> Suc v"
    proof -
      have inc: "unat (w + 1) \<le> Suc (unat w)" for w :: u16 by (simp add: unat_word_ariths)
      show ?thesis
      proof (cases "m k")
        case None
        then show ?thesis using p(3) by simp
      next
        case (Some old)
        then show ?thesis using p(3) vers inc [of "ie_version old"] by (simp add: le_trans)
      qed
    qed
    have vers': "\<forall>e \<in> ran (m(k \<mapsto> e)). unat (ie_version e) \<le> Suc v"
    proof
      fix x assume "x \<in> ran (m(k \<mapsto> e))"
      then have "x = e \<or> x \<in> ran m" by (auto simp: ran_def split: if_splits)
      then show "unat (ie_version x) \<le> Suc v" using ve Cons.prems(5) by (auto intro: le_SucI)
    qed
    have "\<exists>m' is' s''. kv_exec s' ops = Some (Inr s'') \<and> store_inv K m' (kv_spec (M(k \<mapsto> val)) ops) is' s''"
      using Cons.prems(2,4,6) Put by (intro Cons.IH [OF p(2) _ tail _ vers']) auto
    with p(1) Put show ?thesis by simp
  next
    case Restart
    obtain s' where r: "blkio_init_cpu (kv_dev s) = Some (Inr s')" "store_inv K m M is s'"
      using store_restart [OF Cons.prems(1)] by blast
    have "free_set (kv_freelist s') = free_set (kv_freelist s)"
      using scan_invD(8) [OF store_invD(2) [OF r(2)]] scan_invD(8) [OF D(2)] by simp
    then have "\<exists>m' is' s''. kv_exec s' ops = Some (Inr s'') \<and> store_inv K m' (kv_spec M ops) is' s''"
      using Cons.prems Restart by (intro Cons.IH [OF r(2)]) auto
    with r(1) Restart show ?thesis by simp
  qed
qed auto

text \<open>A device on which no block starts with the magic number is an empty store.\<close>

lemma store_inv_blank:
  assumes "prefix_safe K" "\<forall>b < MAX_LBA_NUM. (from_le (take 2 (block_bytes dev b 1)) :: u16) \<noteq> METAMAGIC"
  shows "\<exists>s. blkio_init_cpu dev = Some (Inr s) \<and>
    store_inv K Map.empty Map.empty (replicate MAX_LBA_NUM Gap) s \<and>
    free_set (kv_freelist s) = {..<MAX_LBA_NUM}"
proof -
  let ?is = "replicate MAX_LBA_NUM Gap"
  have at: "items_at K dev 0 ?is"
    unfolding items_at_seg using assms(2) by (auto intro!: gaps_at simp: sum_list_replicate)
  have "recover Map.empty (replicate n Gap) = Map.empty" for n by (induction n) simp_all
  then obtain idx fl where sc: "index_init dev freelist_init = Some (Inr (scan_at idx fl MAX_LBA_NUM))"
    and si: "scan_inv K MAX_LBA_NUM Map.empty idx fl"
    using index_scan_items [OF assms(1) at scan_inv_start] by (auto simp: index_init_def)
  have "free_set fl = {..<MAX_LBA_NUM}" using scan_invD(8) [OF si] by simp
  moreover have "MAX_LBA_NUM - 1 < MAX_LBA_NUM" by (simp add: MAX_LBA_NUM_eq)
  ultimately show ?thesis
    using assms(1) at si by (simp add: blkio_init_cpu_def sc store_inv_def)
qed

section \<open>Properties\<close>

text \<open>C1: the block store is a durable map. On a device without records, let an application store
  values one at a time (each write flushed and completed before the next), with restarts anywhere
  in between. As long as the blocks written so far fit the device and no version counter wraps,
  no operation faults, every scan returns, and afterwards a read of a key answers -1 if the key was
  never stored and otherwise delivers exactly the value stored last, as long as the value fits one
  packet buffer; for a longer value the read stops at its assertion.\<close>

theorem kv_store_is_durable_map:
  assumes K: "prefix_safe K" and ops: "\<forall>op \<in> set ops. op_ok K op"
    and blank: "\<forall>b < MAX_LBA_NUM. (from_le (take 2 (block_bytes dev b 1)) :: u16) \<noteq> METAMAGIC"
    and space: "sum_list (map op_blocks ops) < MAX_LBA_NUM" and short: "length ops < 2 ^ 16 - 1"
  shows "\<exists>s0 s. blkio_init_cpu dev = Some (Inr s0) \<and> kv_exec s0 ops = Some (Inr s) \<and>
    (\<forall>k \<in> K. bsys_io_read s k True True =
      (case kv_spec Map.empty ops k of
         None \<Rightarrow> Inr (- 1, s)
       | Some val \<Rightarrow>
           if length val \<le> 1920 then Inr (0, s\<lparr>kv_events := kv_events s @ [Io_Read k val]\<rparr>)
           else Inl AssertFailed))"
proof -
  obtain s0 where s0: "blkio_init_cpu dev = Some (Inr s0)"
    "store_inv K Map.empty Map.empty (replicate MAX_LBA_NUM Gap) s0"
    "free_set (kv_freelist s0) = {..<MAX_LBA_NUM}"
    using store_inv_blank [OF K blank] by blast
  have all: "{0..<MAX_LBA_NUM} \<subseteq> free_set (kv_freelist s0)"
    unfolding s0(3) lessThan_atLeast0 by (rule subset_refl)
  have "\<exists>m is s. kv_exec s0 ops = Some (Inr s) \<and> store_inv K m (kv_spec Map.empty ops) is s"
  proof (rule kv_exec_correct [OF s0(2) ops all])
    show "0 + sum_list (map op_blocks ops) < MAX_LBA_NUM" using space by simp
    show "\<forall>e \<in> ran Map.empty. unat (ie_version e) \<le> 0" by simp
    show "0 + length ops < 2 ^ 16 - 1" using short by simp
  qed
  then obtain m "is" s where s: "kv_exec s0 ops = Some (Inr s)" "store_inv K m (kv_spec Map.empty ops) is s"
    by blast
  have "bsys_io_read s k True True =
      (case kv_spec Map.empty ops k of
         None \<Rightarrow> Inr (- 1, s)
       | Some val \<Rightarrow>
           if length val \<le> 1920 then Inr (0, s\<lparr>kv_events := kv_events s @ [Io_Read k val]\<rparr>)
           else Inl AssertFailed)" if "k \<in> K" for k
    using read_stored [OF s(2) that] nblks_stored [OF s(2), of k]
    by (cases "kv_spec Map.empty ops k") simp_all
  with s0(1) s(1) show ?thesis by blast
qed

theorem kv_store_is_durable_map_witness:
  "\<exists>s0 s. blkio_init_cpu (\<lambda>_. 0) = Some (Inr s0) \<and>
    kv_exec s0 [Put [107] [1, 2, 3], Restart, Put [107] [4]] = Some (Inr s) \<and>
    bsys_io_read s [107] True True = Inr (0, s\<lparr>kv_events := kv_events s @ [Io_Read [107] [4]]\<rparr>)"
proof -
  let ?ops = "[Put [107] [1, 2, 3], Restart, Put [107] [4]]"
  have K: "prefix_safe {[107]}" by (simp add: prefix_safe_def)
  have sv: "storable_val [1, 2, 3]" "storable_val [4]"
    by (simp_all add: storable_val_def STORAGE_SIZE_def DATA_SZ_eq)
  have ops: "\<forall>op \<in> set ?ops. op_ok {[107]} op" using sv by (simp add: MAX_KEY_LEN_def)
  have "take 2 (block_bytes (\<lambda>_. 0) b 1) = [0, 0]" for b
    by (intro nth_equalityI) (auto simp: length_block_bytes LBA_SIZE_def block_bytes_def less_2_cases_iff)
  then have blank: "\<forall>b < MAX_LBA_NUM. (from_le (take 2 (block_bytes (\<lambda>_. 0) b 1)) :: u16) \<noteq> METAMAGIC"
    by (simp add: METAMAGIC_def)
  have sp: "sum_list (map op_blocks ?ops) < MAX_LBA_NUM"
    by (simp add: val_blocks_def DATA_SZ_eq MAX_LBA_NUM_eq)
  have len: "length ?ops < 2 ^ 16 - 1" by simp
  have spec: "kv_spec Map.empty ?ops [107] = Some [4]" by simp
  obtain s0 s where s: "blkio_init_cpu (\<lambda>_. 0) = Some (Inr s0)" "kv_exec s0 ?ops = Some (Inr s)"
    and rd: "\<forall>k \<in> {[107]}. bsys_io_read s k True True =
      (case kv_spec Map.empty ?ops k of
         None \<Rightarrow> Inr (- 1, s)
       | Some val \<Rightarrow>
           if length val \<le> 1920 then Inr (0, s\<lparr>kv_events := kv_events s @ [Io_Read k val]\<rparr>)
           else Inl AssertFailed)"
    using kv_store_is_durable_map [OF K ops blank sp len] by blast
  have "bsys_io_read s [107] True True = Inr (0, s\<lparr>kv_events := kv_events s @ [Io_Read [107] [4]]\<rparr>)"
    using bspec [OF rd, of "[107]"] unfolding spec by simp
  with s show ?thesis by blast
qed

end
