(* ===== verification/Pbuf.thy ===== *)
theory Pbuf
  imports IX_Prelude
begin

text \<open>
  Packet buffers (\<open>dp/lwip/pbuf.c\<close>, \<open>inc/lwip/lwip/pbuf.h\<close>). Buffers live in an explicit store,
  since chains share buffers and reference counts decide when one goes back to its pool. A pointer
  is an address or NULL (\<open>None\<close>); reading through a pointer to a buffer that is in its pool is a
  fault of the model. Loops over chains are partial functions: \<open>None\<close> is a loop that does not
  end (a cyclic chain).

  The payload of a buffer points into the bytes \<open>pb_mem\<close>: the memory behind the structure for
  RAM and POOL buffers, foreign memory for ROM and REF buffers. Two buffers never share payload
  memory. Assertions of lwIP are compiled out (\<open>LWIP_NOASSERT\<close>); \<open>LWIP_ERROR\<close> checks remain.
\<close>

section \<open>Data\<close>

datatype pbuf_layer = PBUF_TRANSPORT | PBUF_IP | PBUF_LINK | PBUF_RAW

datatype pbuf_type = PBUF_RAM | PBUF_ROM | PBUF_REF | PBUF_POOL

datatype err =
    ERR_OK | ERR_MEM | ERR_BUF | ERR_TIMEOUT | ERR_RTE | ERR_INPROGRESS | ERR_VAL | ERR_WOULDBLOCK
  | ERR_USE | ERR_ISCONN | ERR_ABRT | ERR_RST | ERR_CLSD | ERR_CONN | ERR_ARG | ERR_IF

type_synonym ptr = "nat option"

record pbuf =
  pb_next :: ptr
  pb_payload :: int
  pb_mem :: bytes
  pb_mbuf :: ptr
  pb_tot_len :: u16
  pb_len :: u16
  pb_type :: pbuf_type
  pb_flags :: u8
  pb_ref :: u16

text \<open>
  The store: the contents of every element, which of them are in use, the free elements of the
  pools of plain buffers and of buffers with payload, and the packet buffers released so far.
\<close>

record pheap =
  ph_mem :: "nat \<Rightarrow> pbuf"
  ph_live :: "nat \<Rightarrow> bool"
  ph_pbufs :: "nat list"
  ph_rams :: "nat list"
  ph_mbufs :: "nat list"

definition deref :: "pheap \<Rightarrow> ptr \<Rightarrow> pbuf res" where
  "deref h p =
     (case p of
        None \<Rightarrow> Inl NullDeref
      | Some a \<Rightarrow> if ph_live h a then Inr (ph_mem h a) else Inl UseAfterFree)"

definition upd :: "pheap \<Rightarrow> nat \<Rightarrow> (pbuf \<Rightarrow> pbuf) \<Rightarrow> pheap" where
  "upd h a f = h\<lparr>ph_mem := (ph_mem h)(a := f (ph_mem h a))\<rparr>"

text \<open>Reading and writing \<open>len\<close> bytes at \<open>payload + off\<close>.\<close>

definition pb_read :: "pbuf \<Rightarrow> nat \<Rightarrow> nat \<Rightarrow> bytes res" where
  "pb_read b off len =
     (if len = 0 then Inr []
      else if 0 \<le> pb_payload b \<and> nat (pb_payload b) + off + len \<le> length (pb_mem b)
      then Inr (take len (drop (nat (pb_payload b) + off) (pb_mem b))) else Inl OutOfBounds)"

definition pb_write :: "pbuf \<Rightarrow> nat \<Rightarrow> bytes \<Rightarrow> pbuf res" where
  "pb_write b off bs =
     (if bs = [] then Inr b
      else if 0 \<le> pb_payload b \<and> nat (pb_payload b) + off + length bs \<le> length (pb_mem b)
      then let i = nat (pb_payload b) + off in
        Inr (b\<lparr>pb_mem := take i (pb_mem b) @ bs @ drop (i + length bs) (pb_mem b)\<rparr>)
      else Inl OutOfBounds)"

section \<open>Allocation\<close>

datatype memp = MEMP_PBUF | MEMP_PBUF_POOL

text \<open>\<open>memp_malloc\<close>: there is no pool behind \<open>MEMP_PBUF_POOL\<close>.\<close>

definition memp_malloc :: "pheap \<Rightarrow> memp \<Rightarrow> ptr \<times> pheap" where
  "memp_malloc h t =
     (case t of
        MEMP_PBUF \<Rightarrow>
          (case ph_pbufs h of
             [] \<Rightarrow> (None, h)
           | a # as \<Rightarrow> (Some a, h\<lparr>ph_pbufs := as, ph_live := (ph_live h)(a := True)\<rparr>))
      | MEMP_PBUF_POOL \<Rightarrow> (None, h))"

definition ram_alloc :: "pheap \<Rightarrow> ptr \<times> pheap" where
  "ram_alloc h =
     (case ph_rams h of
        [] \<Rightarrow> (None, h)
      | a # as \<Rightarrow> (Some a, h\<lparr>ph_rams := as, ph_live := (ph_live h)(a := True)\<rparr>))"

text \<open>
  A buffer goes back to the pool of its type. \<open>memp_free\<close> of \<open>MEMP_PBUF_POOL\<close> does nothing.
\<close>

definition release :: "pheap \<Rightarrow> nat \<Rightarrow> pheap" where
  "release h a =
     (case pb_type (ph_mem h a) of
        PBUF_POOL \<Rightarrow> h
      | PBUF_RAM \<Rightarrow> h\<lparr>ph_rams := a # ph_rams h, ph_live := (ph_live h)(a := False)\<rparr>
      | _ \<Rightarrow> h\<lparr>ph_pbufs := a # ph_pbufs h, ph_live := (ph_live h)(a := False)\<rparr>)"

section \<open>Reference counts\<close>

partial_function (option) free_loop :: "pheap \<Rightarrow> ptr \<Rightarrow> u8 \<Rightarrow> (u8 \<times> pheap) res option" where
  "free_loop h p count =
     (case p of
        None \<Rightarrow> Some (Inr (count, h))
      | Some a \<Rightarrow>
          (case deref h p of
             Inl f \<Rightarrow> Some (Inl f)
           | Inr b \<Rightarrow>
               let ref = pb_ref b - 1; h1 = upd h a (\<lambda>b. b\<lparr>pb_ref := ref\<rparr>) in
               if ref = 0 then
                 let h2 = (case pb_mbuf b of
                             None \<Rightarrow> h1
                           | Some m \<Rightarrow> upd (h1\<lparr>ph_mbufs := m # ph_mbufs h1\<rparr>) a (\<lambda>b. b\<lparr>pb_mbuf := None\<rparr>)) in
                 free_loop (release h2 a) (pb_next b) (count + 1)
               else Some (Inr (count, h1))))"

definition pbuf_free :: "pheap \<Rightarrow> ptr \<Rightarrow> (u8 \<times> pheap) res option" where
  "pbuf_free h p = (if p = None then Some (Inr (0, h)) else free_loop h p 0)"

partial_function (option) clen_loop :: "pheap \<Rightarrow> ptr \<Rightarrow> u8 \<Rightarrow> u8 res option" where
  "clen_loop h p len =
     (case p of
        None \<Rightarrow> Some (Inr len)
      | Some a \<Rightarrow>
          (case deref h p of
             Inl f \<Rightarrow> Some (Inl f)
           | Inr b \<Rightarrow> clen_loop h (pb_next b) (len + 1)))"

definition pbuf_clen :: "pheap \<Rightarrow> ptr \<Rightarrow> u8 res option" where
  "pbuf_clen h p = clen_loop h p 0"

definition pbuf_ref :: "pheap \<Rightarrow> ptr \<Rightarrow> pheap res" where
  "pbuf_ref h p =
     (case p of
        None \<Rightarrow> Inr h
      | Some a \<Rightarrow> rbind (deref h p) (\<lambda>_. Inr (upd h a (\<lambda>b. b\<lparr>pb_ref := pb_ref b + 1\<rparr>))))"

section \<open>pbuf_alloc\<close>

definition PBUF_LINK_HLEN :: nat where "PBUF_LINK_HLEN = 14"

definition PBUF_IP_HLEN :: nat where "PBUF_IP_HLEN = 20"

definition PBUF_TRANSPORT_HLEN :: nat where "PBUF_TRANSPORT_HLEN = 20"

definition PBUF_POOL_BUFSIZE :: nat where "PBUF_POOL_BUFSIZE = 1460 + 40 + PBUF_LINK_HLEN"

definition layer_offset :: "pbuf_layer \<Rightarrow> nat" where
  "layer_offset layer =
     (case layer of
        PBUF_TRANSPORT \<Rightarrow> PBUF_LINK_HLEN + PBUF_IP_HLEN + PBUF_TRANSPORT_HLEN
      | PBUF_IP \<Rightarrow> PBUF_LINK_HLEN + PBUF_IP_HLEN
      | PBUF_LINK \<Rightarrow> PBUF_LINK_HLEN
      | PBUF_RAW \<Rightarrow> 0)"

text \<open>
  The tail of a POOL chain: \<open>p\<close> is its head, \<open>r\<close> its last buffer and \<open>rem\<close> the remaining length.
\<close>

function pool_tail :: "pheap \<Rightarrow> nat \<Rightarrow> nat \<Rightarrow> nat \<Rightarrow> (bool \<times> pheap) res option" where
  "pool_tail h p r rem =
     (if rem = 0 then Some (Inr (True, h))
      else case memp_malloc h MEMP_PBUF_POOL of
        (None, h') \<Rightarrow>
          (case pbuf_free h' (Some p) of
             None \<Rightarrow> None
           | Some (Inl f) \<Rightarrow> Some (Inl f)
           | Some (Inr (n, h'')) \<Rightarrow> Some (Inr (False, h'')))
      | (Some q, h') \<Rightarrow>
          let len = min rem PBUF_POOL_BUFSIZE;
            h1 = upd h' q (\<lambda>b. b\<lparr>pb_type := PBUF_POOL, pb_flags := 0, pb_next := None,
                   pb_tot_len := of_nat rem, pb_len := of_nat len, pb_payload := 0, pb_ref := 1\<rparr>);
            h2 = upd h1 r (\<lambda>b. b\<lparr>pb_next := Some q\<rparr>) in
          pool_tail h2 p q (rem - len))"
  by pat_completeness auto
termination
  by (relation "measure (\<lambda>(h, p, r, rem). rem)") (auto simp: PBUF_POOL_BUFSIZE_def)

definition init_pbuf :: "pheap \<Rightarrow> nat \<Rightarrow> int \<Rightarrow> u16 \<Rightarrow> pbuf_type \<Rightarrow> pheap" where
  "init_pbuf h a payload len type =
     upd h a (\<lambda>b. b\<lparr>pb_payload := payload, pb_len := len, pb_tot_len := len, pb_next := None,
       pb_type := type, pb_ref := 1, pb_flags := 0\<rparr>)"

definition pbuf_alloc :: "pheap \<Rightarrow> pbuf_layer \<Rightarrow> u16 \<Rightarrow> pbuf_type \<Rightarrow> (ptr \<times> pheap) res option" where
  "pbuf_alloc h layer len type =
     (let offset = layer_offset layer in
      case type of
        PBUF_POOL \<Rightarrow>
          (case memp_malloc h MEMP_PBUF_POOL of
             (None, h') \<Rightarrow> Some (Inr (None, h'))
           | (Some p, h') \<Rightarrow>
               let plen = min (unat len) (PBUF_POOL_BUFSIZE - offset);
                 h1 = upd (init_pbuf h' p (int offset) len PBUF_POOL) p (\<lambda>b. b\<lparr>pb_len := of_nat plen\<rparr>) in
               (case pool_tail h1 p p (unat len - plen) of
                  None \<Rightarrow> None
                | Some (Inl f) \<Rightarrow> Some (Inl f)
                | Some (Inr (ok, h2)) \<Rightarrow> Some (Inr (if ok then Some p else None, h2))))
      | PBUF_RAM \<Rightarrow>
          (case ram_alloc h of
             (None, h') \<Rightarrow> Some (Inr (None, h'))
           | (Some p, h') \<Rightarrow> Some (Inr (Some p, init_pbuf h' p (int offset) len PBUF_RAM)))
      | _ \<Rightarrow>
          (case memp_malloc h MEMP_PBUF of
             (None, h') \<Rightarrow> Some (Inr (None, h'))
           | (Some p, h') \<Rightarrow>
               Some (Inr (Some p, upd (init_pbuf h' p 0 len type) p (\<lambda>b. b\<lparr>pb_mem := []\<rparr>)))))"

section \<open>Lengths and headers\<close>

text \<open>The walk of \<open>pbuf_realloc\<close> to the new last buffer; \<open>grow\<close> is the (negative) change in length.\<close>

partial_function (option) realloc_walk ::
  "pheap \<Rightarrow> ptr \<Rightarrow> u16 \<Rightarrow> u16 \<Rightarrow> (nat \<times> u16 \<times> pheap) res option" where
  "realloc_walk h q rem_len grow =
     (case q of
        None \<Rightarrow> Some (Inl NullDeref)
      | Some a \<Rightarrow>
          (case deref h q of
             Inl f \<Rightarrow> Some (Inl f)
           | Inr b \<Rightarrow>
               if pb_len b < rem_len
               then realloc_walk (upd h a (\<lambda>b. b\<lparr>pb_tot_len := pb_tot_len b + grow\<rparr>)) (pb_next b)
                      (rem_len - pb_len b) grow
               else Some (Inr (a, rem_len, h))))"

text \<open>\<open>mem_trim\<close> is the identity.\<close>

definition pbuf_realloc :: "pheap \<Rightarrow> ptr \<Rightarrow> u16 \<Rightarrow> pheap res option" where
  "pbuf_realloc h p new_len =
     (case deref h p of
        Inl f \<Rightarrow> Some (Inl f)
      | Inr b \<Rightarrow>
          if pb_tot_len b \<le> new_len then Some (Inr h)
          else
            (case realloc_walk h p new_len (new_len - pb_tot_len b) of
               None \<Rightarrow> None
             | Some (Inl f) \<Rightarrow> Some (Inl f)
             | Some (Inr (q, rem_len, h1)) \<Rightarrow>
                 let h2 = upd h1 q (\<lambda>b. b\<lparr>pb_len := rem_len, pb_tot_len := rem_len\<rparr>) in
                 if pb_next (ph_mem h2 q) = None then Some (Inr h2)
                 else
                   (case pbuf_free h2 (pb_next (ph_mem h2 q)) of
                      None \<Rightarrow> None
                    | Some (Inl f) \<Rightarrow> Some (Inl f)
                    | Some (Inr (n, h3)) \<Rightarrow> Some (Inr (upd h3 q (\<lambda>b. b\<lparr>pb_next := None\<rparr>))))))"

text \<open>\<open>pbuf_header\<close> returns \<open>True\<close> on failure; \<open>inc\<close> is a signed 16-bit number.\<close>

definition pbuf_header :: "pheap \<Rightarrow> ptr \<Rightarrow> 16 word \<Rightarrow> (bool \<times> pheap) res" where
  "pbuf_header h p inc =
     (if inc = 0 \<or> p = None then Inr (False, h)
      else rbind (deref h p) (\<lambda>b.
        let a = the p;
          shift = upd h a (\<lambda>b. b\<lparr>pb_payload := pb_payload b - sint inc, pb_len := pb_len b + inc,
                    pb_tot_len := pb_tot_len b + inc\<rparr>) in
        if inc <s 0 \<and> \<not> - inc \<le> pb_len b then Inr (True, h)
        else if pb_type b = PBUF_RAM \<or> pb_type b = PBUF_POOL
        then if pb_payload b - sint inc < 0 then Inr (True, h) else Inr (False, shift)
        else if inc <s 0 \<and> - inc \<le> pb_len b then Inr (False, shift) else Inr (True, h)))"

section \<open>Chains\<close>

partial_function (option) cat_loop :: "pheap \<Rightarrow> ptr \<Rightarrow> ptr \<Rightarrow> (nat \<times> pheap) res option" where
  "cat_loop h p t =
     (case p of
        None \<Rightarrow> Some (Inl NullDeref)
      | Some a \<Rightarrow>
          (case deref h p of
             Inl f \<Rightarrow> Some (Inl f)
           | Inr b \<Rightarrow>
               if pb_next b = None then Some (Inr (a, h))
               else
                 (case deref h t of
                    Inl f \<Rightarrow> Some (Inl f)
                  | Inr tb \<Rightarrow>
                      cat_loop (upd h a (\<lambda>b. b\<lparr>pb_tot_len := pb_tot_len b + pb_tot_len tb\<rparr>)) (pb_next b) t)))"

definition pbuf_cat :: "pheap \<Rightarrow> ptr \<Rightarrow> ptr \<Rightarrow> pheap res option" where
  "pbuf_cat h p t =
     (if p = None \<or> t = None then Some (Inr h)
      else
        (case cat_loop h p t of
           None \<Rightarrow> None
         | Some (Inl f) \<Rightarrow> Some (Inl f)
         | Some (Inr (a, h1)) \<Rightarrow>
             (case deref h1 t of
                Inl f \<Rightarrow> Some (Inl f)
              | Inr tb \<Rightarrow>
                  Some (Inr (upd h1 a (\<lambda>b. b\<lparr>pb_tot_len := pb_tot_len b + pb_tot_len tb, pb_next := t\<rparr>))))))"

definition pbuf_chain :: "pheap \<Rightarrow> ptr \<Rightarrow> ptr \<Rightarrow> pheap res option" where
  "pbuf_chain h p t =
     (case pbuf_cat h p t of
        None \<Rightarrow> None
      | Some (Inl f) \<Rightarrow> Some (Inl f)
      | Some (Inr h1) \<Rightarrow> Some (pbuf_ref h1 t))"

definition pbuf_dechain :: "pheap \<Rightarrow> ptr \<Rightarrow> (ptr \<times> pheap) res option" where
  "pbuf_dechain h p =
     (case deref h p of
        Inl f \<Rightarrow> Some (Inl f)
      | Inr b \<Rightarrow>
          (case pb_next b of
             None \<Rightarrow> Some (Inr (None, h))
           | Some q \<Rightarrow>
               (case deref h (Some q) of
                  Inl f \<Rightarrow> Some (Inl f)
                | Inr _ \<Rightarrow>
                    let h1 = upd h q (\<lambda>qb. qb\<lparr>pb_tot_len := pb_tot_len b - pb_len b\<rparr>);
                      h2 = upd h1 (the p) (\<lambda>b. b\<lparr>pb_next := None, pb_tot_len := pb_len b\<rparr>) in
                    (case pbuf_free h2 (Some q) of
                       None \<Rightarrow> None
                     | Some (Inl f) \<Rightarrow> Some (Inl f)
                     | Some (Inr (tail_gone, h3)) \<Rightarrow>
                         Some (Inr (if 0 < tail_gone then None else Some q, h3))))))"

text \<open>
  \<open>pbuf_split_64k\<close>: \<open>i\<close> is the last buffer of the front part so far. The first loop finds it, the
  second takes the length of the rest off the front part.
\<close>

partial_function (option) split_walk :: "pheap \<Rightarrow> nat \<Rightarrow> ptr \<Rightarrow> u16 \<Rightarrow> (nat \<times> ptr) res option" where
  "split_walk h i r tot_len_front =
     (case r of
        None \<Rightarrow> Some (Inr (i, None))
      | Some a \<Rightarrow>
          (case deref h r of
             Inl f \<Rightarrow> Some (Inl f)
           | Inr b \<Rightarrow>
               if tot_len_front < tot_len_front + pb_len b
               then split_walk h a (pb_next b) (tot_len_front + pb_len b)
               else Some (Inr (i, r))))"

partial_function (option) split_fix :: "pheap \<Rightarrow> ptr \<Rightarrow> u16 \<Rightarrow> pheap res option" where
  "split_fix h i rest_len =
     (case i of
        None \<Rightarrow> Some (Inr h)
      | Some a \<Rightarrow>
          (case deref h i of
             Inl f \<Rightarrow> Some (Inl f)
           | Inr b \<Rightarrow>
               split_fix (upd h a (\<lambda>b. b\<lparr>pb_tot_len := pb_tot_len b - rest_len\<rparr>)) (pb_next b) rest_len))"

definition PBUF_FLAG_TCP_FIN :: u8 where "PBUF_FLAG_TCP_FIN = 0x20"

definition pbuf_split_64k :: "pheap \<Rightarrow> ptr \<Rightarrow> (ptr \<times> pheap) res option" where
  "pbuf_split_64k h p =
     (case p of
        None \<Rightarrow> Some (Inr (None, h))
      | Some pa \<Rightarrow>
          (case deref h p of
             Inl f \<Rightarrow> Some (Inl f)
           | Inr b \<Rightarrow>
               if pb_next b = None then Some (Inr (None, h))
               else
                 (case split_walk h pa (pb_next b) (pb_len b) of
                    None \<Rightarrow> None
                  | Some (Inl f) \<Rightarrow> Some (Inl f)
                  | Some (Inr (i, r)) \<Rightarrow>
                      let h1 = upd h i (\<lambda>b. b\<lparr>pb_next := None\<rparr>) in
                      (case r of
                         None \<Rightarrow> Some (Inr (None, h1))
                       | Some ra \<Rightarrow>
                           (case split_fix h1 p (pb_tot_len (ph_mem h1 ra)) of
                              None \<Rightarrow> None
                            | Some (Inl f) \<Rightarrow> Some (Inl f)
                            | Some (Inr h2) \<Rightarrow>
                                Some (Inr (r,
                                  if pb_flags (ph_mem h2 pa) AND PBUF_FLAG_TCP_FIN \<noteq> 0
                                  then upd h2 ra (\<lambda>b. b\<lparr>pb_flags := pb_flags b OR PBUF_FLAG_TCP_FIN\<rparr>)
                                  else h2)))))))"

section \<open>Copying\<close>

text \<open>
  \<open>pbuf_copy\<close>: one chunk is what is left of the current source or target buffer, whichever is
  shorter. Lengths are promoted to \<open>int\<close> before they are subtracted.
\<close>

definition copy_chunk :: "pheap \<Rightarrow> ptr \<Rightarrow> u16 \<Rightarrow> ptr \<Rightarrow> u16 \<Rightarrow> (u16 \<times> pbuf \<times> pbuf) res" where
  "copy_chunk h p_to offset_to p_from offset_from =
     rbind (deref h p_to) (\<lambda>tb. rbind (deref h p_from) (\<lambda>fb.
       let len = (if uint (pb_len fb) - uint offset_from \<le> uint (pb_len tb) - uint offset_to
                  then pb_len fb - offset_from else pb_len tb - offset_to) in
       rbind (pb_read fb (unat offset_from) (unat len)) (\<lambda>bs.
       rbind (pb_write tb (unat offset_to) bs) (\<lambda>tb'. Inr (len, tb', fb)))))"

text \<open>A last buffer of a packet that is followed by another packet.\<close>

definition is_queue :: "pheap \<Rightarrow> ptr \<Rightarrow> bool res" where
  "is_queue h p =
     (if p = None then Inr False
      else rbind (deref h p) (\<lambda>b. Inr (pb_len b = pb_tot_len b \<and> pb_next b \<noteq> None)))"

partial_function (option) copy_loop ::
  "pheap \<Rightarrow> ptr \<Rightarrow> u16 \<Rightarrow> ptr \<Rightarrow> u16 \<Rightarrow> (err \<times> pheap) res option" where
  "copy_loop h p_to offset_to p_from offset_from =
     (case copy_chunk h p_to offset_to p_from offset_from of
        Inl f \<Rightarrow> Some (Inl f)
      | Inr (len, tb, fb) \<Rightarrow>
          let h1 = upd h (the p_to) (\<lambda>_. tb);
            ot = offset_to + len;
            fo = offset_from + len;
            p_from1 = (if pb_len fb \<le> fo then pb_next fb else p_from);
            fo1 = (if pb_len fb \<le> fo then 0 else fo);
            p_to1 = (if ot = pb_len tb then pb_next tb else p_to);
            ot1 = (if ot = pb_len tb then 0 else ot) in
          if ot = pb_len tb \<and> p_to1 = None \<and> p_from1 \<noteq> None then Some (Inr (ERR_ARG, h1))
          else
            (case rbind (is_queue h1 p_from1) (\<lambda>qf. rbind (is_queue h1 p_to1) (\<lambda>qt. Inr (qf \<or> qt))) of
               Inl f \<Rightarrow> Some (Inl f)
             | Inr queue \<Rightarrow>
                 if queue then Some (Inr (ERR_VAL, h1))
                 else if p_from1 = None then Some (Inr (ERR_OK, h1))
                 else copy_loop h1 p_to1 ot1 p_from1 fo1))"

definition pbuf_copy :: "pheap \<Rightarrow> ptr \<Rightarrow> ptr \<Rightarrow> (err \<times> pheap) res option" where
  "pbuf_copy h p_to p_from =
     (if p_to = None \<or> p_from = None then Some (Inr (ERR_ARG, h))
      else
        (case rbind (deref h p_to) (\<lambda>tb. rbind (deref h p_from) (\<lambda>fb. Inr (pb_tot_len fb \<le> pb_tot_len tb))) of
           Inl f \<Rightarrow> Some (Inl f)
         | Inr fits \<Rightarrow> if fits then copy_loop h p_to 0 p_from 0 else Some (Inr (ERR_ARG, h))))"

text \<open>\<open>pbuf_copy_partial\<close>: \<open>acc\<close> is what has been written to the application's buffer.\<close>

partial_function (option) copy_partial_loop ::
  "pheap \<Rightarrow> ptr \<Rightarrow> u16 \<Rightarrow> u16 \<Rightarrow> bytes \<Rightarrow> bytes res option" where
  "copy_partial_loop h p len offset acc =
     (if len = 0 \<or> p = None then Some (Inr acc)
      else
        (case deref h p of
           Inl f \<Rightarrow> Some (Inl f)
         | Inr b \<Rightarrow>
             if offset \<noteq> 0 \<and> pb_len b \<le> offset
             then copy_partial_loop h (pb_next b) len (offset - pb_len b) acc
             else
               let n = min (pb_len b - offset) len in
               (case pb_read b (unat offset) (unat n) of
                  Inl f \<Rightarrow> Some (Inl f)
                | Inr bs \<Rightarrow> copy_partial_loop h (pb_next b) (len - n) 0 (acc @ bs))))"

definition pbuf_copy_partial :: "pheap \<Rightarrow> ptr \<Rightarrow> u16 \<Rightarrow> u16 \<Rightarrow> bytes res option" where
  "pbuf_copy_partial h buf len offset = copy_partial_loop h buf len offset []"

text \<open>\<open>pbuf_take\<close>: \<open>data\<close> is what is left of the application's data.\<close>

partial_function (option) take_loop :: "pheap \<Rightarrow> ptr \<Rightarrow> bytes \<Rightarrow> pheap res option" where
  "take_loop h p data =
     (if data = [] then Some (Inr h)
      else
        (case p of
           None \<Rightarrow> Some (Inl NullDeref)
         | Some a \<Rightarrow>
             (case rbind (deref h p) (\<lambda>b.
                     let n = min (length data) (unat (pb_len b)) in
                     rbind (pb_write b 0 (take n data)) (\<lambda>b'. Inr (n, b'))) of
                Inl f \<Rightarrow> Some (Inl f)
              | Inr (n, b') \<Rightarrow> take_loop (upd h a (\<lambda>_. b')) (pb_next b') (drop n data))))"

definition pbuf_take :: "pheap \<Rightarrow> ptr \<Rightarrow> bytes \<Rightarrow> (err \<times> pheap) res option" where
  "pbuf_take h buf data =
     (case buf of
        None \<Rightarrow> Some (Inr (ERR_OK, h))
      | Some a \<Rightarrow>
          (case deref h buf of
             Inl f \<Rightarrow> Some (Inl f)
           | Inr b \<Rightarrow>
               if unat (pb_tot_len b) < length data then Some (Inr (ERR_ARG, h))
               else
                 (case take_loop h buf data of
                    None \<Rightarrow> None
                  | Some (Inl f) \<Rightarrow> Some (Inl f)
                  | Some (Inr h') \<Rightarrow> Some (Inr (ERR_OK, h')))))"

definition pbuf_coalesce :: "pheap \<Rightarrow> ptr \<Rightarrow> pbuf_layer \<Rightarrow> (ptr \<times> pheap) res option" where
  "pbuf_coalesce h p layer =
     (case deref h p of
        Inl f \<Rightarrow> Some (Inl f)
      | Inr b \<Rightarrow>
          if pb_next b = None then Some (Inr (p, h))
          else
            (case pbuf_alloc h layer (pb_tot_len b) PBUF_RAM of
               None \<Rightarrow> None
             | Some (Inl f) \<Rightarrow> Some (Inl f)
             | Some (Inr (None, h1)) \<Rightarrow> Some (Inr (p, h1))
             | Some (Inr (Some q, h1)) \<Rightarrow>
                 (case pbuf_copy h1 (Some q) p of
                    None \<Rightarrow> None
                  | Some (Inl f) \<Rightarrow> Some (Inl f)
                  | Some (Inr (err, h2)) \<Rightarrow>
                      if err \<noteq> ERR_OK then Some (Inl AssertFailed)
                      else
                        (case pbuf_free h2 p of
                           None \<Rightarrow> None
                         | Some (Inl f) \<Rightarrow> Some (Inl f)
                         | Some (Inr (n, h3)) \<Rightarrow> Some (Inr (Some q, h3))))))"

section \<open>Searching\<close>

text \<open>The loop shared by \<open>pbuf_get_at\<close> and \<open>pbuf_memcmp\<close>: the buffer that holds an offset.\<close>

partial_function (option) find_buf :: "pheap \<Rightarrow> ptr \<Rightarrow> u16 \<Rightarrow> (ptr \<times> u16) res option" where
  "find_buf h q start =
     (if q = None then Some (Inr (None, start))
      else
        (case deref h q of
           Inl f \<Rightarrow> Some (Inl f)
         | Inr b \<Rightarrow>
             if pb_len b \<le> start then find_buf h (pb_next b) (start - pb_len b)
             else Some (Inr (q, start))))"

definition pbuf_get_at :: "pheap \<Rightarrow> ptr \<Rightarrow> u16 \<Rightarrow> u8 res option" where
  "pbuf_get_at h p offset =
     (case find_buf h p offset of
        None \<Rightarrow> None
      | Some (Inl f) \<Rightarrow> Some (Inl f)
      | Some (Inr (None, start)) \<Rightarrow> Some (Inr 0)
      | Some (Inr (Some q, start)) \<Rightarrow>
          Some (rbind (pb_read (ph_mem h q) (unat start) 1) (\<lambda>bs. Inr (hd bs))))"

text \<open>The comparison loop from index \<open>i\<close> on.\<close>

fun memcmp_loop :: "pheap \<Rightarrow> ptr \<Rightarrow> u16 \<Rightarrow> bytes \<Rightarrow> u16 \<Rightarrow> u16 res option" where
  "memcmp_loop h q start [] i = Some (Inr 0)"
| "memcmp_loop h q start (c # cs) i =
     (case pbuf_get_at h q (start + i) of
        None \<Rightarrow> None
      | Some (Inl f) \<Rightarrow> Some (Inl f)
      | Some (Inr a) \<Rightarrow> if a \<noteq> c then Some (Inr (i + 1)) else memcmp_loop h q start cs (i + 1))"

definition pbuf_memcmp :: "pheap \<Rightarrow> ptr \<Rightarrow> u16 \<Rightarrow> bytes \<Rightarrow> u16 res option" where
  "pbuf_memcmp h p offset s2 =
     (case find_buf h p offset of
        None \<Rightarrow> None
      | Some (Inl f) \<Rightarrow> Some (Inl f)
      | Some (Inr (None, start)) \<Rightarrow> Some (Inr 0xFFFF)
      | Some (Inr (q, start)) \<Rightarrow> memcmp_loop h q start s2 0)"

partial_function (option) memfind_loop :: "pheap \<Rightarrow> ptr \<Rightarrow> bytes \<Rightarrow> u16 \<Rightarrow> u16 \<Rightarrow> u16 res option" where
  "memfind_loop h p mem limit i =
     (if i \<le> limit
      then (case pbuf_memcmp h p i mem of
              None \<Rightarrow> None
            | Some (Inl f) \<Rightarrow> Some (Inl f)
            | Some (Inr step) \<Rightarrow> if step = 0 then Some (Inr i) else memfind_loop h p mem limit (i + step))
      else Some (Inr 0xFFFF))"

definition pbuf_memfind :: "pheap \<Rightarrow> ptr \<Rightarrow> bytes \<Rightarrow> u16 \<Rightarrow> u16 res option" where
  "pbuf_memfind h p mem start_offset =
     (case deref h p of
        Inl f \<Rightarrow> Some (Inl f)
      | Inr b \<Rightarrow>
          if length mem + unat start_offset \<le> unat (pb_tot_len b)
          then memfind_loop h p mem (pb_tot_len b - of_nat (length mem)) start_offset
          else Some (Inr 0xFFFF))"

definition pbuf_strstr :: "pheap \<Rightarrow> ptr \<Rightarrow> bytes \<Rightarrow> u16 res option" where
  "pbuf_strstr h p substr =
     (case deref h p of
        Inl f \<Rightarrow> Some (Inl f)
      | Inr b \<Rightarrow>
          if substr = [] \<or> pb_tot_len b = 0xFFFF \<or> 0xFFFF \<le> length substr then Some (Inr 0xFFFF)
          else pbuf_memfind h p substr 0)"

end
