(* ===== verification/Pbuf_Chain.thy ===== *)
theory Pbuf_Chain
  imports Pbuf "HOL-Library.Multiset"
begin

text \<open>
  Chains of packet buffers as lists of addresses and as byte sequences: what the operations of
  \<open>dp/lwip/pbuf.c\<close> do to the contents, the lengths and the reference counts of a packet.
\<close>

section \<open>Chains\<close>

fun chain :: "pheap \<Rightarrow> ptr \<Rightarrow> nat list \<Rightarrow> bool" where
  "chain h p [] \<longleftrightarrow> p = None"
| "chain h p (a # as) \<longleftrightarrow> p = Some a \<and> ph_live h a \<and> chain h (pb_next (ph_mem h a)) as"

definition buf_ok :: "pbuf \<Rightarrow> bool" where
  "buf_ok b \<longleftrightarrow> 0 \<le> pb_payload b \<and> nat (pb_payload b) + unat (pb_len b) \<le> length (pb_mem b)"

definition buf_data :: "pbuf \<Rightarrow> bytes" where
  "buf_data b = take (unat (pb_len b)) (drop (nat (pb_payload b)) (pb_mem b))"

definition chain_data :: "pheap \<Rightarrow> nat list \<Rightarrow> bytes" where
  "chain_data h as = concat (map (\<lambda>a. buf_data (ph_mem h a)) as)"

definition chain_len :: "pheap \<Rightarrow> nat list \<Rightarrow> nat" where
  "chain_len h as = sum_list (map (\<lambda>a. unat (pb_len (ph_mem h a))) as)"

text \<open>The documented invariant of \<open>tot_len\<close>: it counts this buffer and all later ones.\<close>

fun tot_ok :: "pheap \<Rightarrow> nat list \<Rightarrow> bool" where
  "tot_ok h [] \<longleftrightarrow> True"
| "tot_ok h (a # as) \<longleftrightarrow> unat (pb_tot_len (ph_mem h a)) = chain_len h (a # as) \<and> tot_ok h as"

definition packet :: "pheap \<Rightarrow> ptr \<Rightarrow> nat list \<Rightarrow> bool" where
  "packet h p as \<longleftrightarrow> chain h p as \<and> (\<forall>a \<in> set as. buf_ok (ph_mem h a)) \<and> tot_ok h as"

lemma chain_unique: "chain h p as \<Longrightarrow> chain h p bs \<Longrightarrow> as = bs"
proof (induction as arbitrary: p bs)
  case (Cons a as)
  then show ?case by (cases bs) auto
qed (metis chain.elims(2) chain.simps(1) option.distinct(1))

lemma chain_append:
  "chain h p (xs @ a # ys) \<Longrightarrow> chain h (Some a) (a # ys)"
  by (induction xs arbitrary: p) auto

lemma chain_live: "chain h p as \<Longrightarrow> a \<in> set as \<Longrightarrow> ph_live h a"
  by (induction as arbitrary: p) auto

lemma chain_distinct: "chain h p as \<Longrightarrow> distinct as"
proof (rule ccontr)
  assume c: "chain h p as" and "\<not> distinct as"
  then obtain xs ys zs a where as: "as = xs @ [a] @ ys @ [a] @ zs" by (meson not_distinct_decomp)
  have "chain h (Some a) (a # ys @ a # zs)" using c chain_append [of h p xs a "ys @ a # zs"] by (simp add: as)
  moreover have "chain h (Some a) (a # zs)" using c chain_append [of h p "xs @ a # ys" a zs] by (simp add: as)
  ultimately have "a # ys @ a # zs = a # zs" by (rule chain_unique)
  then have "length (a # ys @ a # zs) = length (a # zs)" by (simp only:)
  then show False by simp
qed

lemma deref_live [simp]: "ph_live h a \<Longrightarrow> deref h (Some a) = Inr (ph_mem h a)"
  by (simp add: deref_def)

lemma upd_simps [simp]:
  "ph_mem (upd h a f) b = (if b = a then f (ph_mem h a) else ph_mem h b)"
  "ph_live (upd h a f) = ph_live h"
  "ph_pbufs (upd h a f) = ph_pbufs h" "ph_rams (upd h a f) = ph_rams h" "ph_mbufs (upd h a f) = ph_mbufs h"
  by (simp_all add: upd_def)

text \<open>What a chain depends on.\<close>

lemma chain_cong:
  "(\<And>a. a \<in> set as \<Longrightarrow> ph_live h' a = ph_live h a \<and> pb_next (ph_mem h' a) = pb_next (ph_mem h a)) \<Longrightarrow>
     chain h' p as = chain h p as"
  by (induction as arbitrary: p) auto

lemma chain_len_cong:
  "(\<And>a. a \<in> set as \<Longrightarrow> pb_len (ph_mem h' a) = pb_len (ph_mem h a)) \<Longrightarrow> chain_len h' as = chain_len h as"
  by (simp add: chain_len_def cong: map_cong)

lemma chain_data_cong:
  "(\<And>a. a \<in> set as \<Longrightarrow> ph_mem h' a = ph_mem h a) \<Longrightarrow> chain_data h' as = chain_data h as"
  by (simp add: chain_data_def cong: map_cong)

lemma tot_ok_cong:
  "(\<And>a. a \<in> set as \<Longrightarrow> ph_mem h' a = ph_mem h a) \<Longrightarrow> tot_ok h' as = tot_ok h as"
  by (induction as) (auto simp: chain_len_def cong: map_cong)

lemma packet_cong:
  "(\<And>a. a \<in> set as \<Longrightarrow> ph_live h' a = ph_live h a \<and> ph_mem h' a = ph_mem h a) \<Longrightarrow>
     packet h' p as = packet h p as"
  using tot_ok_cong [of as h' h] chain_cong [of as h' h p] unfolding packet_def by (metis (no_types, lifting))

lemma chain_simps [simp]:
  "chain_len h [] = 0" "chain_len h (a # as) = unat (pb_len (ph_mem h a)) + chain_len h as"
  "chain_len h (as @ bs) = chain_len h as + chain_len h bs"
  "chain_data h [] = []" "chain_data h (a # as) = buf_data (ph_mem h a) @ chain_data h as"
  "chain_data h (as @ bs) = chain_data h as @ chain_data h bs"
  by (simp_all add: chain_len_def chain_data_def)

lemma length_buf_data [simp]: "buf_ok b \<Longrightarrow> length (buf_data b) = unat (pb_len b)"
  by (auto simp: buf_ok_def buf_data_def)

lemma length_chain_data: "\<forall>a \<in> set as. buf_ok (ph_mem h a) \<Longrightarrow> length (chain_data h as) = chain_len h as"
  by (induction as) auto

lemma packet_Cons:
  "packet h p (a # as) \<longleftrightarrow> p = Some a \<and> ph_live h a \<and> buf_ok (ph_mem h a) \<and>
     unat (pb_tot_len (ph_mem h a)) = chain_len h (a # as) \<and> packet h (pb_next (ph_mem h a)) as"
  by (auto simp: packet_def)

section \<open>Reference counts\<close>

definition shared :: "pheap \<Rightarrow> nat \<Rightarrow> bool" where
  "shared h a \<longleftrightarrow> pb_ref (ph_mem h a) \<noteq> 1"

lemma word_minus_one_eq_0: "w - 1 = 0 \<longleftrightarrow> w = 1" for w :: "'a :: len word"
  by (simp add: right_minus_eq)

lemma free_loop_step:
  assumes "ph_live h a" "\<not> shared h a" "pb_type (ph_mem h a) \<noteq> PBUF_POOL"
  shows "\<exists>h3. free_loop h (Some a) c = free_loop h3 (pb_next (ph_mem h a)) (c + 1) \<and>
    ph_live h3 = (ph_live h)(a := False) \<and> (\<forall>x. x \<noteq> a \<longrightarrow> ph_mem h3 x = ph_mem h x) \<and>
    mset (ph_pbufs h3 @ ph_rams h3) = mset (ph_pbufs h @ ph_rams h) + {#a#}"
proof -
  define h2 where "h2 = (let h1 = upd h a (\<lambda>b. b\<lparr>pb_ref := 0\<rparr>) in
    case pb_mbuf (ph_mem h a) of None \<Rightarrow> h1
    | Some m \<Rightarrow> upd (h1\<lparr>ph_mbufs := m # ph_mbufs h1\<rparr>) a (\<lambda>b. b\<lparr>pb_mbuf := None\<rparr>))"
  have h2: "ph_live h2 = ph_live h" "ph_pbufs h2 = ph_pbufs h" "ph_rams h2 = ph_rams h"
    "pb_type (ph_mem h2 a) = pb_type (ph_mem h a)" "\<And>x. x \<noteq> a \<Longrightarrow> ph_mem h2 x = ph_mem h x"
    by (auto simp: h2_def Let_def split: option.split)
  have "free_loop h (Some a) c = free_loop (release h2 a) (pb_next (ph_mem h a)) (c + 1)"
    using assms(1,2) by (subst free_loop.simps) (simp add: shared_def Let_def h2_def)
  moreover have "ph_live (release h2 a) = (ph_live h)(a := False)"
    "\<forall>x. x \<noteq> a \<longrightarrow> ph_mem (release h2 a) x = ph_mem h x"
    "mset (ph_pbufs (release h2 a) @ ph_rams (release h2 a)) = mset (ph_pbufs h @ ph_rams h) + {#a#}"
    using assms(3) h2 by (auto simp: release_def split: pbuf_type.split)
  ultimately show ?thesis by blast
qed

text \<open>
  Releasing a chain: the buffers up to the first shared one go back to their pools, the shared
  one loses one reference and everything behind it is left alone.
\<close>

lemma free_loop_correct:
  assumes "chain h p (fs @ rest)" "\<forall>a \<in> set fs. \<not> shared h a \<and> pb_type (ph_mem h a) \<noteq> PBUF_POOL"
    and "rest \<noteq> [] \<Longrightarrow> shared h (hd rest)"
  shows "\<exists>h'. free_loop h p c = Some (Inr (c + of_nat (length fs), h')) \<and>
    (\<forall>x. ph_live h' x = (ph_live h x \<and> x \<notin> set fs)) \<and>
    mset (ph_pbufs h' @ ph_rams h') = mset (ph_pbufs h @ ph_rams h) + mset fs \<and>
    (\<forall>x. x \<notin> set fs \<and> x \<notin> set (take 1 rest) \<longrightarrow> ph_mem h' x = ph_mem h x) \<and>
    (\<forall>x \<in> set (take 1 rest). ph_mem h' x = (ph_mem h x)\<lparr>pb_ref := pb_ref (ph_mem h x) - 1\<rparr>)"
  using assms
proof (induction fs arbitrary: h p c)
  case Nil
  show ?case
  proof (cases rest)
    case Nil
    with Nil.prems show ?thesis by (subst free_loop.simps) simp
  next
    case (Cons a as)
    then have "pb_ref (ph_mem h a) - 1 \<noteq> 0" "p = Some a" "ph_live h a"
      using Nil.prems by (auto simp: shared_def word_minus_one_eq_0)
    then have "free_loop h p c = Some (Inr (c, upd h a (\<lambda>b. b\<lparr>pb_ref := pb_ref (ph_mem h a) - 1\<rparr>)))"
      by (subst free_loop.simps) (simp add: Let_def)
    with Cons show ?thesis by simp
  qed
next
  case (Cons a fs)
  have p: "p = Some a" "ph_live h a" "chain h (pb_next (ph_mem h a)) (fs @ rest)" using Cons.prems(1) by auto
  have d: "a \<notin> set (fs @ rest)" using chain_distinct [OF Cons.prems(1)] by simp
  obtain h3 where step: "free_loop h p c = free_loop h3 (pb_next (ph_mem h a)) (c + 1)"
    and h3: "ph_live h3 = (ph_live h)(a := False)" "\<And>x. x \<noteq> a \<Longrightarrow> ph_mem h3 x = ph_mem h x"
      "mset (ph_pbufs h3 @ ph_rams h3) = mset (ph_pbufs h @ ph_rams h) + {#a#}"
    using free_loop_step [OF p(2), of c] Cons.prems(2) p(1) by auto
  have same: "ph_mem h3 x = ph_mem h x" "shared h3 x = shared h x" "ph_live h3 x = ph_live h x"
    if "x \<in> set (fs @ rest)" for x
  proof -
    have "x \<noteq> a" using that d by auto
    then show "ph_mem h3 x = ph_mem h x" "shared h3 x = shared h x" "ph_live h3 x = ph_live h x"
      by (simp_all add: h3(1,2) shared_def)
  qed
  have "chain h3 (pb_next (ph_mem h a)) (fs @ rest)" 
    using p(3) chain_cong [of "fs @ rest" h3 h "pb_next (ph_mem h a)"] same by presburger
  moreover have "\<forall>x \<in> set fs. \<not> shared h3 x \<and> pb_type (ph_mem h3 x) \<noteq> PBUF_POOL" using Cons.prems(2) same by simp
  moreover have "shared h3 (hd rest)" if "rest \<noteq> []" using Cons.prems(3) that same by simp
  ultimately obtain h' where IH: "free_loop h3 (pb_next (ph_mem h a)) (c + 1) = Some (Inr (c + 1 + of_nat (length fs), h'))"
    "\<forall>x. ph_live h' x = (ph_live h3 x \<and> x \<notin> set fs)"
    "mset (ph_pbufs h' @ ph_rams h') = mset (ph_pbufs h3 @ ph_rams h3) + mset fs"
    "\<forall>x. x \<notin> set fs \<and> x \<notin> set (take 1 rest) \<longrightarrow> ph_mem h' x = ph_mem h3 x"
    "\<forall>x \<in> set (take 1 rest). ph_mem h' x = (ph_mem h3 x)\<lparr>pb_ref := pb_ref (ph_mem h3 x) - 1\<rparr>"
    using Cons.IH [of h3 "pb_next (ph_mem h a)" "c + 1"] by blast
  have sub: "set (take 1 rest) \<subseteq> set rest" by (rule set_take_subset)
  have "free_loop h p c = Some (Inr (c + of_nat (length (a # fs)), h'))"
    using step IH(1) by (simp add: add.assoc)
  moreover have "\<forall>x. ph_live h' x = (ph_live h x \<and> x \<notin> set (a # fs))" using IH(2) h3(1) by simp
  moreover have "mset (ph_pbufs h' @ ph_rams h') = mset (ph_pbufs h @ ph_rams h) + mset (a # fs)"
    using IH(3) h3(3) by simp
  moreover have "\<forall>x. x \<notin> set (a # fs) \<and> x \<notin> set (take 1 rest) \<longrightarrow> ph_mem h' x = ph_mem h x"
    using IH(4) h3(2) by simp
  moreover have "\<forall>x \<in> set (take 1 rest). ph_mem h' x = (ph_mem h x)\<lparr>pb_ref := pb_ref (ph_mem h x) - 1\<rparr>"
  proof
    fix x assume x: "x \<in> set (take 1 rest)"
    then have "ph_mem h3 x = ph_mem h x" using sub by (intro same) auto
    with IH(5) x show "ph_mem h' x = (ph_mem h x)\<lparr>pb_ref := pb_ref (ph_mem h x) - 1\<rparr>" by simp
  qed
  ultimately show ?case by (intro exI [of _ h'] conjI)
qed

text \<open>Whatever the reference counts are, releasing a chain returns and touches only the chain.\<close>

lemma pbuf_free_frame:
  assumes "chain h p as" "\<forall>a \<in> set as. pb_type (ph_mem h a) \<noteq> PBUF_POOL"
  shows "\<exists>n h'. pbuf_free h p = Some (Inr (n, h')) \<and>
    (\<forall>x. x \<notin> set as \<longrightarrow> ph_mem h' x = ph_mem h x \<and> ph_live h' x = ph_live h x)"
proof (cases p)
  case (Some a)
  define fs rest where "fs = takeWhile (\<lambda>a. \<not> shared h a) as" and "rest = dropWhile (\<lambda>a. \<not> shared h a) as"
  have as: "as = fs @ rest" by (simp add: fs_def rest_def)
  have 1: "\<forall>a \<in> set fs. \<not> shared h a \<and> pb_type (ph_mem h a) \<noteq> PBUF_POOL"
    using assms(2) set_takeWhileD [of _ "\<lambda>a. \<not> shared h a" as] unfolding fs_def by blast
  have 2: "shared h (hd rest)" if "rest \<noteq> []" 
    using that hd_dropWhile [of "\<lambda>a. \<not> shared h a" as] by (simp add: rest_def)
  obtain h' where "free_loop h p 0 = Some (Inr (0 + of_nat (length fs), h'))"
    "\<forall>x. ph_live h' x = (ph_live h x \<and> x \<notin> set fs)"
    "\<forall>x. x \<notin> set fs \<and> x \<notin> set (take 1 rest) \<longrightarrow> ph_mem h' x = ph_mem h x"
    using free_loop_correct [OF assms(1) [unfolded as] 1 2, of 0] by blast
  moreover have "x \<notin> set fs \<and> x \<notin> set (take 1 rest)" if "x \<notin> set as" for x
    using that set_take_subset [of 1 rest] unfolding as by auto
  ultimately show ?thesis using Some unfolding pbuf_free_def by auto
qed (simp add: pbuf_free_def)

section \<open>Shrinking\<close>

lemma tot_ok_tail: "tot_ok h (xs @ ys) \<Longrightarrow> tot_ok h ys"
  by (induction xs) auto

text \<open>
  The walk of \<open>pbuf_realloc\<close> over the buffers \<open>xs\<close> that stay whole, up to the new last buffer \<open>q\<close>.
\<close>

lemma realloc_walk_correct:
  assumes "chain h p (xs @ q # ys)" "unat rem_len = chain_len h xs + r" "r \<le> unat (pb_len (ph_mem h q))"
    and "xs \<noteq> [] \<Longrightarrow> 0 < r"
  shows "\<exists>h'. realloc_walk h p rem_len grow = Some (Inr (q, of_nat r, h')) \<and> ph_live h' = ph_live h \<and>
    (\<forall>x. x \<notin> set xs \<longrightarrow> ph_mem h' x = ph_mem h x) \<and>
    (\<forall>x \<in> set xs. ph_mem h' x = (ph_mem h x)\<lparr>pb_tot_len := pb_tot_len (ph_mem h x) + grow\<rparr>)"
  using assms
proof (induction xs arbitrary: h p rem_len)
  case Nil
  then have "\<not> pb_len (ph_mem h q) < rem_len" "rem_len = of_nat r"
    by (auto simp: word_less_nat_alt)
  with Nil show ?case by (subst realloc_walk.simps) simp
next
  case (Cons a xs)
  have p: "p = Some a" "ph_live h a" "chain h (pb_next (ph_mem h a)) (xs @ q # ys)" using Cons.prems(1) by auto
  have d: "a \<notin> set (xs @ q # ys)" using chain_distinct [OF Cons.prems(1)] by simp
  let ?h1 = "upd h a (\<lambda>b. b\<lparr>pb_tot_len := pb_tot_len b + grow\<rparr>)"
  have r0: "0 < r" using Cons.prems(4) by simp
  then have lt: "pb_len (ph_mem h a) < rem_len" using Cons.prems(2) by (simp add: word_less_nat_alt)
  have rem: "unat (rem_len - pb_len (ph_mem h a)) = chain_len h xs + r"
    using Cons.prems(2) lt by (subst unat_sub_no_wrap) (simp_all add: word_less_nat_alt)
  have same: "ph_mem ?h1 x = ph_mem h x" if "x \<in> set (xs @ q # ys)" for x using that d by auto
  have ch: "chain ?h1 (pb_next (ph_mem h a)) (xs @ q # ys)"
    using p(3) chain_cong [of "xs @ q # ys" ?h1 h] same by simp
  have len: "chain_len ?h1 xs = chain_len h xs" using same by (intro chain_len_cong) simp
  obtain h' where IH: "realloc_walk ?h1 (pb_next (ph_mem h a)) (rem_len - pb_len (ph_mem h a)) grow =
      Some (Inr (q, of_nat r, h'))" "ph_live h' = ph_live ?h1"
    "\<forall>x. x \<notin> set xs \<longrightarrow> ph_mem h' x = ph_mem ?h1 x"
    "\<forall>x \<in> set xs. ph_mem h' x = (ph_mem ?h1 x)\<lparr>pb_tot_len := pb_tot_len (ph_mem ?h1 x) + grow\<rparr>"
    using Cons.IH [OF ch, of "rem_len - pb_len (ph_mem h a)"] rem len Cons.prems(3) d r0 by auto
  have "realloc_walk h p rem_len grow = Some (Inr (q, of_nat r, h'))"
    using p(1,2) lt IH(1) by (subst realloc_walk.simps) simp
  moreover have "ph_live h' = ph_live h" using IH(2) by simp
  moreover have "\<forall>x. x \<notin> set (a # xs) \<longrightarrow> ph_mem h' x = ph_mem h x" using IH(3) by simp
  moreover have "\<forall>x \<in> set (a # xs). ph_mem h' x = (ph_mem h x)\<lparr>pb_tot_len := pb_tot_len (ph_mem h x) + grow\<rparr>"
    using IH(3,4) d by auto
  ultimately show ?case by (intro exI [of _ h'] conjI)
qed

lemma split_at_len:
  assumes "n < chain_len h as"
  shows "\<exists>xs q ys r. as = xs @ q # ys \<and> n = chain_len h xs + r \<and> r \<le> unat (pb_len (ph_mem h q)) \<and>
    (xs \<noteq> [] \<longrightarrow> 0 < r)"
  using assms
proof (induction as arbitrary: n)
  case (Cons a as)
  let ?l = "unat (pb_len (ph_mem h a))"
  show ?case
  proof (cases "n \<le> ?l")
    case True
    then show ?thesis by (intro exI [of _ "[]"] exI [of _ a] exI [of _ as] exI [of _ n]) simp
  next
    case False
    then have "n - ?l < chain_len h as" using Cons.prems by simp
    from Cons.IH [OF this] obtain xs q ys r where IH: "as = xs @ q # ys" "n - ?l = chain_len h xs + r"
      "r \<le> unat (pb_len (ph_mem h q))" "xs \<noteq> [] \<longrightarrow> 0 < r" by blast
    have "0 < r" using IH(2,4) False by (cases xs) auto
    with IH False show ?thesis by (intro exI [of _ "a # xs"] exI [of _ q] exI [of _ ys] exI [of _ r]) auto
  qed
qed simp

lemma chain_cut:
  assumes "chain h p (xs @ q # ys)" "ph_live h' q" "pb_next (ph_mem h' q) = None"
    and "\<forall>x \<in> set xs. ph_live h' x \<and> pb_next (ph_mem h' x) = pb_next (ph_mem h x)"
  shows "chain h' p (xs @ [q])"
  using assms by (induction xs arbitrary: p) auto

lemma tot_ok_shrink:
  assumes "tot_ok h (xs @ q # ys)" "grow = of_nat r - of_nat (unat (pb_len (ph_mem h q)) + chain_len h ys)"
    and "r \<le> unat (pb_len (ph_mem h q))"
    and "\<forall>x \<in> set xs. pb_len (ph_mem h' x) = pb_len (ph_mem h x) \<and>
      pb_tot_len (ph_mem h' x) = pb_tot_len (ph_mem h x) + grow"
    and "unat (pb_len (ph_mem h' q)) = r" "pb_tot_len (ph_mem h' q) = pb_len (ph_mem h' q)"
  shows "tot_ok h' (xs @ [q])"
  using assms(1,4)
proof (induction xs)
  case Nil
  then show ?case using assms(5,6) by simp
next
  case (Cons a xs)
  let ?R = "unat (pb_len (ph_mem h q)) + chain_len h ys"
  let ?l = "chain_len h (a # xs)"
  have tot: "unat (pb_tot_len (ph_mem h a)) = ?l + ?R" using Cons.prems(1) by simp
  have "pb_tot_len (ph_mem h a) = of_nat (?l + ?R)" using tot by (rule word_of_unat)
  then have "pb_tot_len (ph_mem h' a) = of_nat (?l + r)"
    using Cons.prems(2) assms(2) by simp
  moreover have "?l + r < 2 ^ LENGTH(16)"
    using tot assms(3) unsigned_less [of "pb_tot_len (ph_mem h a)", where ?'a = nat] by simp
  ultimately have "unat (pb_tot_len (ph_mem h' a)) = ?l + r" by (simp only: unat_of_nat_eq)
  moreover have "chain_len h' (a # xs) = ?l" using Cons.prems(2) by (intro chain_len_cong) auto
  ultimately show ?case using Cons assms(5) by simp
qed

lemma pbuf_realloc_correct:
  assumes pk: "packet h p as" and ty: "\<forall>a \<in> set as. pb_type (ph_mem h a) \<noteq> PBUF_POOL"
    and n: "unat new_len < chain_len h as"
  shows "\<exists>h' bs. pbuf_realloc h p new_len = Some (Inr h') \<and> packet h' p bs \<and>
    chain_data h' bs = take (unat new_len) (chain_data h as)"
proof -
  have ch: "chain h p as" and ok: "\<forall>a \<in> set as. buf_ok (ph_mem h a)" and tot: "tot_ok h as"
    using pk by (simp_all add: packet_def)
  obtain xs q ys r where sp: "as = xs @ q # ys" "unat new_len = chain_len h xs + r"
    "r \<le> unat (pb_len (ph_mem h q))" "xs \<noteq> [] \<Longrightarrow> 0 < r"
    using split_at_len [OF n] by blast
  have d: "distinct (xs @ q # ys)" using chain_distinct [OF ch] sp(1) by simp
  obtain a as' where as: "as = a # as'" using n by (cases as) auto
  then have p: "p = Some a" "ph_live h a" "unat (pb_tot_len (ph_mem h a)) = chain_len h as"
    using ch tot by auto
  define grow where "grow = new_len - pb_tot_len (ph_mem h a)"
  have "new_len = of_nat (chain_len h xs + r)" "pb_tot_len (ph_mem h a) = of_nat (chain_len h as)"
    using sp(2) p(3) by (auto intro: word_of_unat simp del: of_nat_add)
  then have grow: "grow = of_nat r - of_nat (unat (pb_len (ph_mem h q)) + chain_len h ys)"
    by (simp add: grow_def sp(1))
  obtain h1 where h1: "realloc_walk h p new_len grow = Some (Inr (q, of_nat r, h1))" "ph_live h1 = ph_live h"
    "\<forall>x. x \<notin> set xs \<longrightarrow> ph_mem h1 x = ph_mem h x"
    "\<forall>x \<in> set xs. ph_mem h1 x = (ph_mem h x)\<lparr>pb_tot_len := pb_tot_len (ph_mem h x) + grow\<rparr>"
    using realloc_walk_correct [OF ch [unfolded sp(1)] sp(2-4)] by blast
  define h2 where "h2 = upd h1 q (\<lambda>b. b\<lparr>pb_len := of_nat r, pb_tot_len := of_nat r\<rparr>)"
  have q1: "ph_mem h1 q = ph_mem h q" using h1(3) d by simp
  have ys2: "ph_mem h2 x = ph_mem h x" "ph_live h2 x = ph_live h x" if "x \<in> set ys" for x
    using that d h1 by (auto simp: h2_def)
  have chq: "chain h (Some q) (q # ys)" using chain_append ch sp(1) by blast
  have chy: "chain h2 (pb_next (ph_mem h q)) ys"
    using chq chain_cong [of ys h2 h "pb_next (ph_mem h q)"] ys2 by simp
  have "\<forall>x \<in> set ys. pb_type (ph_mem h2 x) \<noteq> PBUF_POOL" using ty sp(1) ys2 by simp
  from pbuf_free_frame [OF chy this] obtain c h3 where h3: "pbuf_free h2 (pb_next (ph_mem h q)) = Some (Inr (c, h3))"
    "\<forall>x. x \<notin> set ys \<longrightarrow> ph_mem h3 x = ph_mem h2 x \<and> ph_live h3 x = ph_live h2 x" by blast
  define h' where "h' = upd h3 q (\<lambda>b. b\<lparr>pb_next := None\<rparr>)"
  have nxt: "pb_next (ph_mem h2 q) = pb_next (ph_mem h q)" by (simp add: h2_def q1)
  have run: "pbuf_realloc h p new_len = Some (Inr h')"
  proof -
    have "\<not> pb_tot_len (ph_mem h a) \<le> new_len" using n p(3) by (simp add: word_le_nat_alt)
    moreover have "h' = h2" if "pb_next (ph_mem h q) = None"
      using that h3(1) nxt by (simp add: pbuf_free_def h'_def upd_def fun_upd_idem_iff)
    ultimately show ?thesis
      using p h1(1) h3(1) nxt
      by (cases "pb_next (ph_mem h q)")
        (simp_all add: pbuf_realloc_def Let_def q1 grow_def [symmetric] h2_def [symmetric] h'_def [symmetric])
  qed
  have r: "unat (of_nat r :: u16) = r"
    using sp(3) unsigned_less [of "pb_len (ph_mem h q)", where ?'a = nat] by (simp add: unat_of_nat)
  have q': "ph_mem h' q = (ph_mem h q)\<lparr>pb_len := of_nat r, pb_tot_len := of_nat r, pb_next := None\<rparr>"
    using d h3(2) by (simp add: h'_def h2_def q1)
  have xs': "ph_mem h' x = (ph_mem h x)\<lparr>pb_tot_len := pb_tot_len (ph_mem h x) + grow\<rparr>" "ph_live h' x = ph_live h x"
    if "x \<in> set xs" for x
    using that d h3(2) h1 by (auto simp: h'_def h2_def)
  have live: "ph_live h' q" "\<forall>x \<in> set xs. ph_live h x"
    using d h3(2) h1(2) chq ch chain_live by (auto simp: h'_def h2_def sp(1))
  have "chain h' p (xs @ [q])"
    using ch [unfolded sp(1)] live xs' q' by (intro chain_cut) auto
  moreover have "tot_ok h' (xs @ [q])"
    using tot [unfolded sp(1)] grow sp(3) xs' q' r by (intro tot_ok_shrink) auto
  moreover have "\<forall>x \<in> set (xs @ [q]). buf_ok (ph_mem h' x)"
    using ok sp(1,3) xs' q' r by (auto simp: buf_ok_def)
  ultimately have "packet h' p (xs @ [q])" by (simp add: packet_def)
  moreover have "chain_data h' (xs @ [q]) = take (unat new_len) (chain_data h as)"
  proof -
    have "chain_data h' xs = chain_data h xs"
      unfolding chain_data_def using xs' by (intro arg_cong [where f = concat] map_cong) (auto simp: buf_data_def)
    moreover have "buf_data (ph_mem h' q) = take r (buf_data (ph_mem h q))"
      using sp(3) by (simp add: q' buf_data_def r)
    moreover have "length (chain_data h xs) = chain_len h xs" using ok sp(1) by (intro length_chain_data) simp
    moreover have "length (buf_data (ph_mem h q)) = unat (pb_len (ph_mem h q))" using ok sp(1) by simp
    ultimately show ?thesis using sp(1-3) by simp
  qed
  ultimately show ?thesis using run by blast
qed

section \<open>Concatenation\<close>

lemma cat_loop_correct:
  assumes "chain h p (xs @ [q])" "t = Some b" "ph_live h b" "b \<notin> set (xs @ [q])"
  shows "\<exists>h'. cat_loop h p t = Some (Inr (q, h')) \<and> ph_live h' = ph_live h \<and>
    (\<forall>x. x \<notin> set xs \<longrightarrow> ph_mem h' x = ph_mem h x) \<and>
    (\<forall>x \<in> set xs. ph_mem h' x =
       (ph_mem h x)\<lparr>pb_tot_len := pb_tot_len (ph_mem h x) + pb_tot_len (ph_mem h b)\<rparr>)"
  using assms
proof (induction xs arbitrary: h p)
  case Nil
  then show ?case by (subst cat_loop.simps) simp
next
  case (Cons a xs)
  have p: "p = Some a" "ph_live h a" "chain h (pb_next (ph_mem h a)) (xs @ [q])" using Cons.prems(1) by auto
  have d: "a \<notin> set (xs @ [q])" using chain_distinct [OF Cons.prems(1)] by simp
  let ?h1 = "upd h a (\<lambda>x. x\<lparr>pb_tot_len := pb_tot_len x + pb_tot_len (ph_mem h b)\<rparr>)"
  have "pb_next (ph_mem h a) \<noteq> None" using p(3) by (cases xs) auto
  then have step: "cat_loop h p t = cat_loop ?h1 (pb_next (ph_mem h a)) t"
    using p Cons.prems(2,3) by (subst cat_loop.simps) auto
  have same: "ph_mem ?h1 x = ph_mem h x" if "x \<in> set (xs @ [q]) \<or> x = b" for x using that d Cons.prems(4) by auto
  have "chain ?h1 (pb_next (ph_mem h a)) (xs @ [q])"
    using p(3) chain_cong [of "xs @ [q]" ?h1 h] same by simp
  from Cons.IH [OF this Cons.prems(2)] obtain h' where IH: "cat_loop ?h1 (pb_next (ph_mem h a)) t = Some (Inr (q, h'))"
    "ph_live h' = ph_live ?h1" "\<forall>x. x \<notin> set xs \<longrightarrow> ph_mem h' x = ph_mem ?h1 x"
    "\<forall>x \<in> set xs. ph_mem h' x = (ph_mem ?h1 x)\<lparr>pb_tot_len := pb_tot_len (ph_mem ?h1 x) + pb_tot_len (ph_mem ?h1 b)\<rparr>"
    using Cons.prems(3,4) by auto
  have "cat_loop h p t = Some (Inr (q, h'))" using step IH(1) by simp
  moreover have "ph_live h' = ph_live h" using IH(2) by simp
  moreover have "\<forall>x. x \<notin> set (a # xs) \<longrightarrow> ph_mem h' x = ph_mem h x" using IH(3) by simp
  moreover have "\<forall>x \<in> set (a # xs). ph_mem h' x =
      (ph_mem h x)\<lparr>pb_tot_len := pb_tot_len (ph_mem h x) + pb_tot_len (ph_mem h b)\<rparr>"
    using IH(3,4) d Cons.prems(4) by auto
  ultimately show ?case by (intro exI [of _ h'] conjI)
qed

lemma chain_join:
  assumes "chain h p (xs @ [q])" "chain h' t ys" "pb_next (ph_mem h' q) = t" "ph_live h' q"
    and "\<forall>x \<in> set xs. ph_live h' x \<and> pb_next (ph_mem h' x) = pb_next (ph_mem h x)"
  shows "chain h' p (xs @ q # ys)"
  using assms by (induction xs arbitrary: p) auto

lemma tot_ok_join:
  assumes "tot_ok h (xs @ [q])" "tot_ok h' ys" "chain_len h (xs @ [q]) + chain_len h' ys < 2 ^ 16"
    and "\<forall>x \<in> set (xs @ [q]). pb_len (ph_mem h' x) = pb_len (ph_mem h x) \<and>
      pb_tot_len (ph_mem h' x) = pb_tot_len (ph_mem h x) + of_nat (chain_len h' ys)"
  shows "tot_ok h' (xs @ q # ys)"
  using assms(1,3,4)
proof (induction xs)
  case Nil
  have "unat (of_nat (chain_len h' ys) :: u16) = chain_len h' ys" using Nil by (intro unat_of_nat_eq) simp
  then have "unat (pb_tot_len (ph_mem h q) + of_nat (chain_len h' ys)) = unat (pb_len (ph_mem h q)) + chain_len h' ys"
    using Nil by (subst unat_add_no_wrap) simp_all
  with Nil assms(2) show ?case by simp
next
  case (Cons a xs)
  have "unat (of_nat (chain_len h' ys) :: u16) = chain_len h' ys" using Cons.prems by (intro unat_of_nat_eq) simp
  then have "unat (pb_tot_len (ph_mem h a) + of_nat (chain_len h' ys)) = chain_len h (a # xs @ [q]) + chain_len h' ys"
    using Cons.prems by (subst unat_add_no_wrap) simp_all
  moreover have "chain_len h' (a # xs @ [q]) = chain_len h (a # xs @ [q])"
    using Cons.prems by (intro chain_len_cong) auto
  ultimately show ?case using Cons by simp
qed

lemma pbuf_cat_correct:
  assumes pa: "packet h p as" "as \<noteq> []" and pb: "packet h t bs" "bs \<noteq> []" and dis: "set as \<inter> set bs = {}"
    and len: "chain_len h as + chain_len h bs < 2 ^ 16"
  shows "\<exists>h'. pbuf_cat h p t = Some (Inr h') \<and> packet h' p (as @ bs) \<and>
    chain_data h' (as @ bs) = chain_data h as @ chain_data h bs"
proof -
  obtain xs q where as: "as = xs @ [q]" using pa(2) by (metis rev_exhaust)
  obtain b bs' where b: "bs = b # bs'" using pb(2) by (cases bs) auto
  have ch: "chain h p (xs @ [q])" "chain h t bs" using pa(1) pb(1) by (simp_all add: packet_def as)
  then have t: "t = Some b" "ph_live h b" "b \<notin> set (xs @ [q])" using b dis as by auto
  have pn: "p \<noteq> None" using ch(1) by (cases xs) auto
  have tb: "pb_tot_len (ph_mem h b) = of_nat (chain_len h bs)"
    using pb(1) b by (intro word_of_unat) (simp add: packet_def)
  obtain h1 where h1: "cat_loop h p t = Some (Inr (q, h1))" "ph_live h1 = ph_live h"
    "\<forall>x. x \<notin> set xs \<longrightarrow> ph_mem h1 x = ph_mem h x"
    "\<forall>x \<in> set xs. ph_mem h1 x = (ph_mem h x)\<lparr>pb_tot_len := pb_tot_len (ph_mem h x) + of_nat (chain_len h bs)\<rparr>"
    using cat_loop_correct [OF ch(1) t] tb by auto
  have d: "distinct (xs @ [q])" using chain_distinct [OF ch(1)] .
  define h' where "h' = upd h1 q (\<lambda>x. x\<lparr>pb_tot_len := pb_tot_len x + of_nat (chain_len h bs), pb_next := t\<rparr>)"
  have "ph_mem h1 b = ph_mem h b" using h1(3) t(3) by simp
  then have run: "pbuf_cat h p t = Some (Inr h')"
    using pn t h1(1,2) tb by (auto simp: pbuf_cat_def h'_def)
  have bs': "ph_mem h' x = ph_mem h x" "ph_live h' x = ph_live h x" if "x \<in> set bs" for x
    using that dis as h1 by (auto simp: h'_def)
  have q': "ph_mem h' q = (ph_mem h q)\<lparr>pb_tot_len := pb_tot_len (ph_mem h q) + of_nat (chain_len h bs), pb_next := t\<rparr>"
    using h1(3) d by (simp add: h'_def)
  have xs': "ph_mem h' x = (ph_mem h x)\<lparr>pb_tot_len := pb_tot_len (ph_mem h x) + of_nat (chain_len h bs)\<rparr>"
    "ph_live h' x = ph_live h x" if "x \<in> set xs" for x
    using that d h1 by (auto simp: h'_def)
  have pkb: "packet h' t bs" 
  proof -
    have "packet h' t bs = packet h t bs" using bs' by (intro packet_cong) blast
    with pb(1) show ?thesis by blast
  qed
  have lenb: "chain_len h' bs = chain_len h bs" using bs' by (intro chain_len_cong) simp
  have lv: "ph_live h' q" "\<forall>x \<in> set xs. ph_live h' x"
    using chain_live [OF ch(1)] h1(2) by (auto simp: h'_def)
  have "chain h' p (xs @ q # bs)"
    using pkb q' xs' lv by (intro chain_join [OF ch(1)]) (auto simp: packet_def)
  moreover have "tot_ok h' (xs @ q # bs)"
  proof (rule tot_ok_join [of h])
    show "tot_ok h (xs @ [q])" "tot_ok h' bs" using pa(1) pkb unfolding packet_def as by blast+
    show "chain_len h (xs @ [q]) + chain_len h' bs < 2 ^ 16" using len unfolding lenb as .
    show "\<forall>x \<in> set (xs @ [q]). pb_len (ph_mem h' x) = pb_len (ph_mem h x) \<and>
      pb_tot_len (ph_mem h' x) = pb_tot_len (ph_mem h x) + of_nat (chain_len h' bs)"
      unfolding lenb using q' xs'(1) by simp
  qed
  moreover have "\<forall>x \<in> set (xs @ q # bs). buf_ok (ph_mem h' x)"
    using pa(1) pkb q' xs' by (auto simp: packet_def as buf_ok_def)
  ultimately have "packet h' p (as @ bs)" by (simp add: packet_def as)
  moreover have "chain_data h' as = chain_data h as"
    unfolding chain_data_def as using xs' q'
    by (intro arg_cong [where f = concat] map_cong) (auto simp: buf_data_def)
  moreover have "chain_data h' bs = chain_data h bs" using bs' by (intro chain_data_cong)
  ultimately show ?thesis using run by (intro exI [of _ h']) simp
qed


section \<open>Copying between packets and application buffers\<close>

lemma pb_read_data:
  assumes "buf_ok b" "off + n \<le> unat (pb_len b)"
  shows "pb_read b off n = Inr (take n (drop off (buf_data b)))"
  using assms by (auto simp: pb_read_def buf_ok_def buf_data_def take_drop add.commute)

lemma copy_partial_loop_correct:
  assumes "chain h p as" "\<forall>a \<in> set as. buf_ok (ph_mem h a)"
  shows "copy_partial_loop h p len off acc =
    Some (Inr (acc @ take (unat len) (drop (unat off) (chain_data h as))))"
  using assms
proof (induction as arbitrary: p len off acc)
  case Nil
  then show ?case by (subst copy_partial_loop.simps) simp
next
  case (Cons a as)
  let ?b = "ph_mem h a"
  have p: "p = Some a" "ph_live h a" "buf_ok ?b" "chain h (pb_next ?b) as" using Cons.prems by auto
  note IH = Cons.IH [OF p(4)]
  have l: "length (buf_data ?b) = unat (pb_len ?b)" using p(3) by simp
  show ?case
  proof (cases "len = 0 \<or> (off \<noteq> 0 \<and> pb_len ?b \<le> off)")
    case True
    then show ?thesis using p IH l Cons.prems(2)
      by (subst copy_partial_loop.simps) (auto simp: unat_sub word_le_nat_alt)
  next
    case False
    then have lt: "unat off \<le> unat (pb_len ?b)" by (auto simp: word_le_nat_alt)
    define n where "n = min (pb_len ?b - off) len"
    have n: "unat n = min (unat (pb_len ?b) - unat off) (unat len)"
      using lt by (simp add: n_def min_def word_le_nat_alt unat_sub)
    have "unat (len - n) = unat len - unat n" using n by (intro unat_sub) (simp add: word_le_nat_alt)
    moreover have "pb_read ?b (unat off) (unat n) = Inr (take (unat n) (drop (unat off) (buf_data ?b)))"
      using p(3) lt n by (intro pb_read_data) auto
    moreover have "\<forall>a \<in> set as. buf_ok (ph_mem h a)" using Cons.prems(2) by simp
    moreover have "unat (0 :: u16) = 0" by simp
    ultimately have "copy_partial_loop h p len off acc =
      Some (Inr (acc @ take (unat n) (drop (unat off) (buf_data ?b)) @ take (unat len - unat n) (chain_data h as)))"
      using False p(1,2) IH [of "len - n" 0]
      by (subst copy_partial_loop.simps) (simp add: n_def [symmetric] Let_def, blast)
    then show ?thesis using l lt by (simp add: n min_def)
  qed
qed

lemma pb_write_data:
  assumes "buf_ok b" "length bs \<le> unat (pb_len b)"
  shows "\<exists>m. pb_write b 0 bs = Inr (b\<lparr>pb_mem := m\<rparr>) \<and> length m = length (pb_mem b) \<and>
    buf_data (b\<lparr>pb_mem := m\<rparr>) = bs @ drop (length bs) (buf_data b)"
proof (cases "bs = []")
  case False
  let ?i = "nat (pb_payload b)"
  let ?m = "take ?i (pb_mem b) @ bs @ drop (?i + length bs) (pb_mem b)"
  have "?i + unat (pb_len b) \<le> length (pb_mem b)" "0 \<le> pb_payload b" using assms by (auto simp: buf_ok_def)
  then show ?thesis using False assms(2)
    by (intro exI [of _ ?m]) (auto simp: pb_write_def buf_data_def Let_def drop_take add.commute)
qed (auto simp: pb_write_def intro: exI [of _ "pb_mem b"])

lemma same_mem: "\<exists>m. b = b\<lparr>pb_mem := m\<rparr> \<and> length m = length (pb_mem b)"
  by (intro exI [of _ "pb_mem b"]) simp

lemma take_loop_correct:
  assumes "chain h p as" "\<forall>a \<in> set as. buf_ok (ph_mem h a)" "length data \<le> chain_len h as"
  shows "\<exists>h'. take_loop h p data = Some (Inr h') \<and> ph_live h' = ph_live h \<and>
    (\<forall>x. x \<notin> set as \<longrightarrow> ph_mem h' x = ph_mem h x) \<and>
    (\<forall>x. \<exists>m. ph_mem h' x = (ph_mem h x)\<lparr>pb_mem := m\<rparr> \<and> length m = length (pb_mem (ph_mem h x))) \<and>
    chain_data h' as = data @ drop (length data) (chain_data h as)"
  using assms
proof (induction as arbitrary: h p data)
  case Nil
  then show ?case by (subst take_loop.simps) (simp add: same_mem)
next
  case (Cons a as)
  let ?b = "ph_mem h a"
  have p: "p = Some a" "ph_live h a" "buf_ok ?b" "chain h (pb_next ?b) as" "a \<notin> set as"
    using Cons.prems chain_distinct [OF Cons.prems(1)] by auto
  show ?case
  proof (cases "data = []")
    case True
    then show ?thesis by (subst take_loop.simps) (simp add: same_mem)
  next
    case False
    define n where "n = min (length data) (unat (pb_len ?b))"
    obtain m where m: "pb_write ?b 0 (take n data) = Inr (?b\<lparr>pb_mem := m\<rparr>)" "length m = length (pb_mem ?b)"
      "buf_data (?b\<lparr>pb_mem := m\<rparr>) = take n data @ drop n (buf_data ?b)"
      using pb_write_data [OF p(3), of "take n data"] by (auto simp: n_def)
    define h1 where "h1 = upd h a (\<lambda>_. ?b\<lparr>pb_mem := m\<rparr>)"
    have same: "ph_mem h1 x = ph_mem h x" "ph_live h1 x = ph_live h x" if "x \<in> set as" for x
      using that p(5) by (auto simp: h1_def)
    have c: "chain h1 (pb_next ?b) as" using p(4) chain_cong [of as h1 h "pb_next ?b"] same by simp
    have len: "chain_len h1 as = chain_len h as" by (rule chain_len_cong) (simp add: same)
    have dat: "chain_data h1 as = chain_data h as" by (rule chain_data_cong) (simp add: same)
    have "length (drop n data) \<le> chain_len h1 as" using Cons.prems(3) len by (auto simp: n_def)
    then obtain h' where h': "take_loop h1 (pb_next ?b) (drop n data) = Some (Inr h')" "ph_live h' = ph_live h1"
      "\<forall>x. x \<notin> set as \<longrightarrow> ph_mem h' x = ph_mem h1 x"
      "\<forall>x. \<exists>m. ph_mem h' x = (ph_mem h1 x)\<lparr>pb_mem := m\<rparr> \<and> length m = length (pb_mem (ph_mem h1 x))"
      "chain_data h' as = drop n data @ drop (length data - n) (chain_data h as)"
      using Cons.IH [OF c, of "drop n data"] Cons.prems(2) same dat by auto
    have run: "take_loop h p data = Some (Inr h')"
      using False p m(1) h'(1) by (subst take_loop.simps) (simp add: n_def [symmetric] h1_def [symmetric] Let_def)
    have "\<exists>m. ph_mem h' x = (ph_mem h x)\<lparr>pb_mem := m\<rparr> \<and> length m = length (pb_mem (ph_mem h x))" for x
    proof -
      obtain m' where "ph_mem h' x = (ph_mem h1 x)\<lparr>pb_mem := m'\<rparr>" "length m' = length (pb_mem (ph_mem h1 x))"
        using h'(4) by blast
      then show ?thesis using m(2) by (intro exI [of _ m']) (simp add: h1_def)
    qed
    moreover have "ph_mem h' a = ?b\<lparr>pb_mem := m\<rparr>" using h'(3) p(5) by (simp add: h1_def)
    then have "chain_data h' (a # as) = data @ drop (length data) (chain_data h (a # as))"
      using h'(5) m(3) p(3) by (auto simp: n_def min_def)
    moreover have "\<forall>x. x \<notin> set (a # as) \<longrightarrow> ph_mem h' x = ph_mem h x" using h'(3) by (simp add: h1_def)
    moreover have "ph_live h' = ph_live h" using h'(2) by (simp add: h1_def)
    ultimately show ?thesis using run by (intro exI [of _ h'] conjI) auto
  qed
qed

end
