(* ===== verification/Pbuf_Props.thy ===== *)
theory Pbuf_Props
  imports Pbuf_Chain
begin

text \<open>
  Searching in packets, and what the operations of \<open>dp/lwip/pbuf.c\<close> promise to their callers.
\<close>

section \<open>Bytes at an offset\<close>

lemma find_buf_correct:
  assumes "chain h p as" "\<forall>a \<in> set as. buf_ok (ph_mem h a)"
  shows "\<exists>q xs start. find_buf h p off = Some (Inr (q, start)) \<and> chain h q xs \<and> set xs \<subseteq> set as \<and> start \<le> off \<and>
    drop (unat off) (chain_data h as) = drop (unat start) (chain_data h xs) \<and>
    (if unat off < chain_len h as then \<exists>a ys. xs = a # ys \<and> unat start < unat (pb_len (ph_mem h a))
     else xs = [])"
  using assms
proof (induction as arbitrary: p off)
  case Nil
  then show ?case by (subst find_buf.simps) simp
next
  case (Cons a as)
  let ?b = "ph_mem h a"
  have p: "p = Some a" "ph_live h a" "buf_ok ?b" "chain h (pb_next ?b) as" using Cons.prems by auto
  show ?case
  proof (cases "pb_len ?b \<le> off")
    case True
    then have u: "unat (off - pb_len ?b) = unat off - unat (pb_len ?b)" "unat (pb_len ?b) \<le> unat off"
      by (simp_all add: unat_sub word_le_nat_alt)
    have run: "find_buf h p off = find_buf h (pb_next ?b) (off - pb_len ?b)"
      using p(1,2) True by (subst find_buf.simps) simp
    obtain q xs start where IH: "find_buf h (pb_next ?b) (off - pb_len ?b) = Some (Inr (q, start))"
      "chain h q xs" "set xs \<subseteq> set as" "start \<le> off - pb_len ?b"
      "drop (unat (off - pb_len ?b)) (chain_data h as) = drop (unat start) (chain_data h xs)"
      "if unat (off - pb_len ?b) < chain_len h as then \<exists>a ys. xs = a # ys \<and> unat start < unat (pb_len (ph_mem h a))
       else xs = []"
      using Cons.IH [OF p(4), of "off - pb_len ?b"] Cons.prems(2) by auto
    have "drop (unat off) (chain_data h (a # as)) = drop (unat start) (chain_data h xs)"
      using IH(5) u p(3) by simp
    moreover have "unat (off - pb_len ?b) < chain_len h as \<longleftrightarrow> unat off < chain_len h (a # as)" using u by auto
    moreover have "start \<le> off" using IH(4) u by (simp add: word_le_nat_alt)
    ultimately show ?thesis using IH run by (intro exI [of _ q] exI [of _ xs] exI [of _ start]) auto
  next
    case False
    then have "unat off < unat (pb_len ?b)" by (simp add: word_le_nat_alt)
    then show ?thesis using p False Cons.prems(1)
      by (subst find_buf.simps, intro exI [of _ p] exI [of _ "a # as"] exI [of _ off]) simp
  qed
qed

definition byte_at :: "bytes \<Rightarrow> nat \<Rightarrow> u8" where
  "byte_at d i = (if i < length d then d ! i else 0)"

lemma byte_at_drop: "byte_at (drop n d) i = byte_at d (n + i)"
  by (auto simp: byte_at_def)

lemma pbuf_get_at_correct:
  assumes "chain h p as" "\<forall>a \<in> set as. buf_ok (ph_mem h a)"
  shows "pbuf_get_at h p off = Some (Inr (byte_at (chain_data h as) (unat off)))"
proof -
  obtain q xs start where f: "find_buf h p off = Some (Inr (q, start))" "chain h q xs" "set xs \<subseteq> set as"
    "drop (unat off) (chain_data h as) = drop (unat start) (chain_data h xs)"
    "if unat off < chain_len h as then \<exists>a ys. xs = a # ys \<and> unat start < unat (pb_len (ph_mem h a)) else xs = []"
    using find_buf_correct [OF assms, of off] by blast
  have l: "length (chain_data h as) = chain_len h as" using length_chain_data assms(2) .
  show ?thesis
  proof (cases "unat off < chain_len h as")
    case True
    then obtain a ys where a: "xs = a # ys" "unat start < unat (pb_len (ph_mem h a))" using f(5) by auto
    have ok: "buf_ok (ph_mem h a)" using a(1) f(3) assms(2) by auto
    have "pb_read (ph_mem h a) (unat start) 1 = Inr (take 1 (drop (unat start) (buf_data (ph_mem h a))))"
      using a(2) by (intro pb_read_data [OF ok]) simp
    moreover have "hd (take 1 (drop (unat start) (buf_data (ph_mem h a)))) = buf_data (ph_mem h a) ! unat start"
      using a(2) ok by (simp add: hd_drop_conv_nth)
    moreover have "chain_data h as ! unat off = buf_data (ph_mem h a) ! unat start"
    proof -
      have "chain_data h as ! unat off = hd (drop (unat off) (chain_data h as))"
        using True l by (simp add: hd_drop_conv_nth)
      also have "\<dots> = buf_data (ph_mem h a) ! unat start"
        unfolding f(4) using a ok by (simp add: hd_append hd_drop_conv_nth)
      finally show ?thesis .
    qed
    ultimately show ?thesis using True l f(1,2) a(1) by (simp add: pbuf_get_at_def byte_at_def)
  next
    case False
    then have "q = None" using f(2,5) by simp
    with False l f(1) show ?thesis by (simp add: pbuf_get_at_def byte_at_def)
  qed
qed


section \<open>Comparing and searching\<close>

definition occurs_at :: "bytes \<Rightarrow> bytes \<Rightarrow> nat \<Rightarrow> bool" where
  "occurs_at s d k \<longleftrightarrow> take (length s) (drop k d) = s"

definition agrees_at :: "bytes \<Rightarrow> bytes \<Rightarrow> nat \<Rightarrow> bool" where
  "agrees_at s d k \<longleftrightarrow> (\<forall>j < length s. byte_at d (k + j) = s ! j)"

lemma agrees_at_Nil [simp]: "agrees_at [] d k"
  by (simp add: agrees_at_def)

lemma agrees_at_Cons: "agrees_at (c # s) d k \<longleftrightarrow> byte_at d k = c \<and> agrees_at s d (Suc k)"
proof -
  have "agrees_at (c # s) d k \<longleftrightarrow> (\<forall>j < Suc (length s). byte_at d (k + j) = (c # s) ! j)"
    by (simp only: agrees_at_def length_Cons)
  also have "\<dots> \<longleftrightarrow> byte_at d k = c \<and> (\<forall>j < length s. byte_at d (k + Suc j) = s ! j)"
    unfolding All_less_Suc2 by simp
  finally show ?thesis by (simp add: agrees_at_def)
qed

lemma agrees_at_occurs:
  assumes "k + length s \<le> length d"
  shows "agrees_at s d k \<longleftrightarrow> occurs_at s d k"
  using assms by (simp add: agrees_at_def occurs_at_def byte_at_def list_eq_iff_nth_eq)

lemma memcmp_loop_correct:
  assumes "chain h q xs" "\<forall>a \<in> set xs. buf_ok (ph_mem h a)" "unat start + unat i + length s < 2 ^ 16"
  shows "\<exists>r. memcmp_loop h q start s i = Some (Inr r) \<and>
    (if agrees_at s (chain_data h xs) (unat start + unat i) then r = 0
     else unat i < unat r \<and> unat r \<le> unat i + length s)"
  using assms(3)
proof (induction s arbitrary: i)
  case (Cons c s)
  let ?D = "chain_data h xs"
  have u: "unat (start + i) = unat start + unat i" "unat (i + 1) = Suc (unat i)"
    using Cons.prems by (simp_all add: unat_add_no_wrap)
  have g: "pbuf_get_at h q (start + i) = Some (Inr (byte_at ?D (unat start + unat i)))"
    using pbuf_get_at_correct [OF assms(1,2), of "start + i"] u(1) by simp
  show ?case
  proof (cases "byte_at ?D (unat start + unat i) = c")
    case True
    obtain r where r: "memcmp_loop h q start s (i + 1) = Some (Inr r)"
      "if agrees_at s ?D (Suc (unat start + unat i)) then r = 0
       else Suc (unat i) < unat r \<and> unat r \<le> Suc (unat i) + length s"
    proof -
      have "unat start + unat (i + 1) + length s < 2 ^ 16" using Cons.prems u by simp
      from Cons.IH [OF this] show ?thesis using that unfolding u by auto
    qed
    then show ?thesis using g True by (auto simp: agrees_at_Cons split: if_splits)
  next
    case False
    then show ?thesis using g u by (auto simp: agrees_at_Cons)
  qed
qed simp

lemma pbuf_memcmp_correct:
  assumes "chain h p as" "\<forall>a \<in> set as. buf_ok (ph_mem h a)" "unat off < chain_len h as"
    and "unat off + length s < 2 ^ 16"
  shows "\<exists>r. pbuf_memcmp h p off s = Some (Inr r) \<and>
    (if agrees_at s (chain_data h as) (unat off) then r = 0 else 0 < unat r \<and> unat r \<le> length s)"
proof -
  obtain q xs start where f: "find_buf h p off = Some (Inr (q, start))" "chain h q xs" "set xs \<subseteq> set as"
    "drop (unat off) (chain_data h as) = drop (unat start) (chain_data h xs)"
    "\<exists>a ys. xs = a # ys \<and> unat start < unat (pb_len (ph_mem h a))"
    and le: "unat start \<le> unat off"
    using find_buf_correct [OF assms(1,2), of off] unfolding word_le_nat_alt if_P [OF assms(3)] by blast
  have ok: "\<forall>a \<in> set xs. buf_ok (ph_mem h a)" using f(3) assms(2) by auto
  have "agrees_at s (chain_data h xs) (unat start) = agrees_at s (chain_data h as) (unat off)"
    unfolding agrees_at_def byte_at_drop [symmetric] f(4) ..
  moreover obtain r where "memcmp_loop h q start s 0 = Some (Inr r)"
    "if agrees_at s (chain_data h xs) (unat start) then r = 0 else 0 < unat r \<and> unat r \<le> length s"
    using memcmp_loop_correct [OF f(2) ok, of start 0 s] assms(4) le by (auto split: if_splits)
  moreover have "\<exists>a. q = Some a" using f(2,5) by auto
  ultimately show ?thesis using f(1) by (auto simp: pbuf_memcmp_def)
qed

lemma memfind_loop_correct:
  assumes "chain h p as" "\<forall>a \<in> set as. buf_ok (ph_mem h a)" "mem \<noteq> []" "chain_len h as < 2 ^ 16"
    and "unat limit + length mem = chain_len h as"
  shows "\<exists>r. memfind_loop h p mem limit i = Some (Inr r) \<and>
    (r \<noteq> 0xFFFF \<longrightarrow> i \<le> r \<and> r \<le> limit \<and> occurs_at mem (chain_data h as) (unat r)) \<and>
    (r = 0xFFFF \<and> length mem = 1 \<longrightarrow> (\<forall>k. unat i \<le> k \<and> k \<le> unat limit \<longrightarrow> \<not> occurs_at mem (chain_data h as) k))"
  using assms
proof (induction "unat limit + 1 - unat i" arbitrary: i rule: less_induct)
  case less
  let ?D = "chain_data h as"
  have D: "length ?D = chain_len h as" using length_chain_data assms(2) .
  have m: "0 < length mem" using assms(3) by simp
  show ?case
  proof (cases "i \<le> limit")
    case False
    then show ?thesis by (subst memfind_loop.simps) (auto simp: word_le_nat_alt)
  next
    case True
    then have il: "unat i \<le> unat limit" by (simp add: word_le_nat_alt)
    then have lt: "unat i < chain_len h as" "unat i + length mem < 2 ^ 16" using assms(4,5) m by linarith+
    have ag: "agrees_at mem ?D (unat i) = occurs_at mem ?D (unat i)"
      using il assms(5) D by (intro agrees_at_occurs) simp
    obtain r where r: "pbuf_memcmp h p i mem = Some (Inr r)"
      "if occurs_at mem ?D (unat i) then r = 0 else 0 < unat r \<and> unat r \<le> length mem"
      using pbuf_memcmp_correct [OF assms(1,2) lt] ag by auto
    have i': "i \<noteq> 0xFFFF"
    proof
      assume "i = 0xFFFF"
      then have "unat i = 65535" by simp
      with lt(2) m show False by simp
    qed
    show ?thesis
    proof (cases "occurs_at mem ?D (unat i)")
      case True
      then show ?thesis using r i' \<open>i \<le> limit\<close> by (subst memfind_loop.simps) simp
    next
      case False
      then have s: "0 < unat r" "unat r \<le> length mem" using r(2) by auto
      have u: "unat (i + r) = unat i + unat r" using s lt(2) by (intro unat_add_no_wrap) simp
      have run: "memfind_loop h p mem limit i = memfind_loop h p mem limit (i + r)"
        using True r(1) s(1) by (subst memfind_loop.simps) auto
      have less_r: "unat limit + 1 - unat (i + r) < unat limit + 1 - unat i" using u s(1) il by linarith
      obtain r' where r': "memfind_loop h p mem limit (i + r) = Some (Inr r')"
        "r' \<noteq> 0xFFFF \<longrightarrow> i + r \<le> r' \<and> r' \<le> limit \<and> occurs_at mem ?D (unat r')"
        "r' = 0xFFFF \<and> length mem = 1 \<longrightarrow>
          (\<forall>k. unat (i + r) \<le> k \<and> k \<le> unat limit \<longrightarrow> \<not> occurs_at mem ?D k)"
        using less.hyps [OF less_r assms] by blast
      have "i \<le> r'" if "r' \<noteq> 0xFFFF" using r'(2) that u by (simp add: word_le_nat_alt)
      moreover have "\<not> occurs_at mem ?D k" if "r' = 0xFFFF" "length mem = 1" "unat i \<le> k" "k \<le> unat limit" for k
      proof (cases "k = unat i")
        case False
        then have "unat (i + r) \<le> k" using that u s by simp
        then show ?thesis using r'(3) that by blast
      qed (use \<open>\<not> occurs_at mem ?D (unat i)\<close> in simp)
      ultimately show ?thesis using run r'(1,2) by (intro exI [of _ r']) auto
    qed
  qed
qed


section \<open>What the operations promise\<close>

lemma pbuf_memfind_correct:
  assumes "packet h p as" "as \<noteq> []" "mem \<noteq> []"
  shows "\<exists>r. pbuf_memfind h p mem start = Some (Inr r) \<and>
    (r \<noteq> 0xFFFF \<longrightarrow> start \<le> r \<and> occurs_at mem (chain_data h as) (unat r)) \<and>
    (r = 0xFFFF \<and> length mem = 1 \<longrightarrow> (\<forall>k \<ge> unat start. \<not> occurs_at mem (chain_data h as) k))"
proof -
  obtain a as' where a: "as = a # as'" "p = Some a" "ph_live h a"
    using assms(1,2) by (cases as) (auto simp: packet_def)
  let ?t = "pb_tot_len (ph_mem h a)" and ?D = "chain_data h as"
  have ch: "chain h p as" and ok: "\<forall>a \<in> set as. buf_ok (ph_mem h a)" and t: "unat ?t = chain_len h as"
    using assms(1) a(1) by (auto simp: packet_def)
  have D: "length ?D = chain_len h as" using length_chain_data [OF ok] .
  have fit: "k + length mem \<le> chain_len h as" if "occurs_at mem ?D k" for k
  proof -
    have "length (take (length mem) (drop k ?D)) = length mem" using that by (simp only: occurs_at_def)
    then have "length mem \<le> length ?D - k" by simp
    moreover have "0 < length mem" using assms(3) by simp
    ultimately show ?thesis using D by linarith
  qed
  have lt: "chain_len h as < 2 ^ 16" using t unsigned_less [of ?t, where ?'a = nat] by simp
  show ?thesis
  proof (cases "length mem + unat start \<le> unat ?t")
    case True
    then have "length mem < 2 ^ 16" using lt t by simp
    then have "unat (of_nat (length mem) :: u16) = length mem" by (intro unat_of_nat_eq) simp
    then have lim: "unat (?t - of_nat (length mem)) = chain_len h as - length mem"
      using True t by (subst unat_sub) (auto simp: word_le_nat_alt)
    then have "unat (?t - of_nat (length mem)) + length mem = chain_len h as" using True t by linarith
    from memfind_loop_correct [OF ch ok assms(3) lt this, of start]
    obtain r where r: "memfind_loop h p mem (?t - of_nat (length mem)) start = Some (Inr r)"
      "r \<noteq> 0xFFFF \<longrightarrow> start \<le> r \<and> occurs_at mem ?D (unat r)"
      "r = 0xFFFF \<and> length mem = 1 \<longrightarrow>
        (\<forall>k. unat start \<le> k \<and> k \<le> chain_len h as - length mem \<longrightarrow> \<not> occurs_at mem ?D k)"
      unfolding lim by blast
    have "pbuf_memfind h p mem start = Some (Inr r)" using True r(1) a by (simp add: pbuf_memfind_def)
    moreover have "\<not> occurs_at mem ?D k" if "r = 0xFFFF" "length mem = 1" "unat start \<le> k" for k
    proof
      assume o: "occurs_at mem ?D k"
      then have "k \<le> chain_len h as - length mem" using fit [OF o] by linarith
      with r(3) that o show False by blast
    qed
    ultimately show ?thesis using r(2) by blast
  next
    case False
    then have "pbuf_memfind h p mem start = Some (Inr 0xFFFF)" using a by (simp add: pbuf_memfind_def)
    moreover have "\<not> occurs_at mem ?D k" if "unat start \<le> k" for k using fit [of k] that False t by linarith
    ultimately show ?thesis by blast
  qed
qed

text \<open>A store with one packet of two buffers, \<open>1\<close> and \<open>2\<close>, and a second packet, \<open>3\<close>.\<close>

definition sample_buf :: "ptr \<Rightarrow> bytes \<Rightarrow> u16 \<Rightarrow> u16 \<Rightarrow> pbuf" where
  "sample_buf nxt bs tot ref = \<lparr>pb_next = nxt, pb_payload = 0, pb_mem = bs, pb_mbuf = None,
     pb_tot_len = tot, pb_len = of_nat (length bs), pb_type = PBUF_RAM, pb_flags = 0, pb_ref = ref\<rparr>"

definition sample_heap :: pheap where
  "sample_heap = \<lparr>ph_mem = (\<lambda>a. if a = 1 then sample_buf (Some 2) [0x61, 0x61] 3 1
       else if a = 2 then sample_buf None [0x62] 1 2 else sample_buf None [0x63] 1 1),
     ph_live = (\<lambda>a. a \<in> {1, 2, 3}), ph_pbufs = [], ph_rams = [4], ph_mbufs = []\<rparr>"

lemmas sample_simps = sample_heap_def sample_buf_def packet_def buf_ok_def buf_data_def shared_def



text \<open>C25: \<open>pbuf_realloc\<close> to a smaller length truncates a packet: it returns, what is left is a well-formed
  packet, with every \<open>len\<close> and \<open>tot_len\<close> right again, and its bytes are the first \<open>new_len\<close> of the old ones.
\<close>

theorem pbuf_realloc_truncates:
  assumes "packet h p as" "\<forall>a \<in> set as. pb_type (ph_mem h a) \<noteq> PBUF_POOL" "unat new_len < chain_len h as"
  shows "\<exists>h' bs. pbuf_realloc h p new_len = Some (Inr h') \<and> packet h' p bs \<and>
    chain_data h' bs = take (unat new_len) (chain_data h as)"
  by (rule pbuf_realloc_correct [OF assms])

theorem pbuf_realloc_truncates_witness:
  "\<exists>h' bs. pbuf_realloc sample_heap (Some 1) 1 = Some (Inr h') \<and> packet h' (Some 1) bs \<and> chain_data h' bs = [0x61]"
  using pbuf_realloc_truncates [of sample_heap "Some 1" "[1, 2]" 1] by (simp add: sample_simps)

text \<open>C27: \<open>pbuf_cat\<close> of two disjoint packets whose lengths add up to less than 64 KB gives one well-formed
  packet over the buffers of both, whose bytes are those of the first followed by those of the second.
\<close>

theorem pbuf_cat_concatenates:
  assumes "packet h p as" "as \<noteq> []" and "packet h t bs" "bs \<noteq> []" and "set as \<inter> set bs = {}"
    and "chain_len h as + chain_len h bs < 2 ^ 16"
  shows "\<exists>h'. pbuf_cat h p t = Some (Inr h') \<and> packet h' p (as @ bs) \<and>
    chain_data h' (as @ bs) = chain_data h as @ chain_data h bs"
  by (rule pbuf_cat_correct [OF assms])

theorem pbuf_cat_concatenates_witness:
  "\<exists>h'. pbuf_cat sample_heap (Some 1) (Some 3) = Some (Inr h') \<and> packet h' (Some 1) [1, 2, 3] \<and>
    chain_data h' [1, 2, 3] = [0x61, 0x61, 0x62, 0x63]"
  using pbuf_cat_concatenates [of sample_heap "Some 1" "[1, 2]" "Some 3" "[3]"] by (simp add: sample_simps)

text \<open>C21: Data written into a packet by \<open>pbuf_take\<close> is read back by \<open>pbuf_copy_partial\<close>, at every offset
  and for every length and whatever the division into buffers: the packet then holds the data followed
  by what it held behind it, and the copy returns that slice of it.
\<close>

theorem pbuf_take_copy_partial:
  assumes "packet h p as" "as \<noteq> []" "length data \<le> chain_len h as"
  shows "\<exists>h'. pbuf_take h p data = Some (Inr (ERR_OK, h')) \<and>
    pbuf_copy_partial h' p len off =
      Some (Inr (take (unat len) (drop (unat off) (data @ drop (length data) (chain_data h as)))))"
proof -
  have ch: "chain h p as" and ok: "\<forall>a \<in> set as. buf_ok (ph_mem h a)" using assms(1) by (auto simp: packet_def)
  obtain h' where h': "take_loop h p data = Some (Inr h')" "ph_live h' = ph_live h"
    "\<forall>x. \<exists>m. ph_mem h' x = (ph_mem h x)\<lparr>pb_mem := m\<rparr> \<and> length m = length (pb_mem (ph_mem h x))"
    "chain_data h' as = data @ drop (length data) (chain_data h as)"
    using take_loop_correct [OF ch ok assms(3)] by blast
  have nx: "pb_next (ph_mem h' x) = pb_next (ph_mem h x)" "buf_ok (ph_mem h' x) = buf_ok (ph_mem h x)" for x
  proof -
    obtain m where "ph_mem h' x = (ph_mem h x)\<lparr>pb_mem := m\<rparr>" "length m = length (pb_mem (ph_mem h x))"
      using h'(3) by blast
    then show "pb_next (ph_mem h' x) = pb_next (ph_mem h x)" "buf_ok (ph_mem h' x) = buf_ok (ph_mem h x)"
      by (simp_all add: buf_ok_def)
  qed
  have "chain h' p as" using ch chain_cong [of as h' h p] h'(2) nx by simp
  moreover have "\<forall>a \<in> set as. buf_ok (ph_mem h' a)" using ok nx by simp
  ultimately have "pbuf_copy_partial h' p len off = Some (Inr (take (unat len) (drop (unat off) (chain_data h' as))))"
    unfolding pbuf_copy_partial_def by (subst copy_partial_loop_correct) simp_all
  moreover have "pbuf_take h p data = Some (Inr (ERR_OK, h'))"
    using assms h'(1) by (cases as) (auto simp: pbuf_take_def packet_def)
  ultimately show ?thesis using h'(4) by simp
qed

theorem pbuf_take_copy_partial_witness:
  "\<exists>h'. pbuf_take sample_heap (Some 1) [1, 2] = Some (Inr (ERR_OK, h')) \<and>
    pbuf_copy_partial h' (Some 1) 5 1 = Some (Inr [2, 0x62])"
  using pbuf_take_copy_partial [of sample_heap "Some 1" "[1, 2]" "[1, 2]" 5 1] by (simp add: sample_simps)

text \<open>C29: \<open>pbuf_memfind\<close> always returns, on every packet and non-empty pattern, and a position it
  returns is one, not before the start offset, where the pattern really occurs. For a pattern of one
  byte, "not found" means that the byte does not occur.
\<close>

theorem pbuf_memfind_sound:
  assumes "packet h p as" "as \<noteq> []" "mem \<noteq> []"
  shows "\<exists>r. pbuf_memfind h p mem start = Some (Inr r) \<and>
    (r \<noteq> 0xFFFF \<longrightarrow> start \<le> r \<and> occurs_at mem (chain_data h as) (unat r)) \<and>
    (r = 0xFFFF \<and> length mem = 1 \<longrightarrow> (\<forall>k \<ge> unat start. \<not> occurs_at mem (chain_data h as) k))"
  by (rule pbuf_memfind_correct [OF assms])

theorem pbuf_memfind_sound_witness:
  "\<exists>r. pbuf_memfind sample_heap (Some 1) [0x62] 0 = Some (Inr r) \<and> (r \<noteq> 0xFFFF \<longrightarrow> occurs_at [0x62] [0x61, 0x61, 0x62] (unat r))"
  using pbuf_memfind_sound [of sample_heap "Some 1" "[1, 2]" "[0x62]" 0] by (auto simp: sample_simps)


end
