(* ===== verification/Chksum_Props.thy ===== *)
theory Chksum_Props
  imports Inet_Chksum
begin

text \<open>
  The routines of \<open>Inet_Chksum\<close> compute the one's complement sum: lwIP's loop over 16-bit words, its
  sums over chains of packet buffers and over the TCP pseudo header, and what follows for senders and
  receivers.
\<close>


section \<open>lwIP's routines are correct\<close>

lemma mask_0xFFFF: "u AND 0xFFFF = take_bit 16 u" for u :: u32
proof -
  have "(0xFFFF :: u32) = mask 16" by (simp add: mask_eq_exp_minus_1)
  then show ?thesis by (simp only: take_bit_eq_mask)
qed

lemma unat_and_0xFFFF: "unat (u AND 0xFFFF) = unat u mod 65536" for u :: u32
  using unsigned_take_bit_eq [of 16 u, where ?'a = nat] by (simp only: mask_0xFFFF take_bit_eq_mod [of _ "unat u"]) simp

lemma unat_drop_bit_div: "unat (drop_bit n u) = unat u div 2 ^ n" for u :: "'a::len word"
  using unat_drop_bit_eq [of n u] by (simp only: drop_bit_eq_div [of _ "unat u"])

lemma unat_FOLD: "unat (FOLD_U32T u) = unat u div 65536 + unat u mod 65536"
proof -
  have "unat u div 65536 < 65536" using unsigned_less [of u, where ?'a = nat] by (simp add: less_mult_imp_div_less)
  then show ?thesis unfolding FOLD_U32T_def
    by (subst unat_add_no_wrap) (simp_all add: unat_and_0xFFFF unat_drop_bit_div)
qed

lemma FOLD_ones: "ones_eq (unat (FOLD_U32T u)) (unat u)"
  using ones_eq_wrap [of "unat u mod 65536" "unat u div 65536"] ones_eq_sym by (simp add: unat_FOLD add.commute)

lemma FOLD_le:
  "unat (FOLD_U32T u) \<le> 131070" "unat u \<le> 131070 \<Longrightarrow> unat (FOLD_U32T u) \<le> 65535"
proof -
  have "unat u div 65536 < 65536" using unsigned_less [of u, where ?'a = nat] by (simp add: less_mult_imp_div_less)
  moreover have "unat u mod 65536 < 65536" by simp
  ultimately show "unat (FOLD_U32T u) \<le> 131070" unfolding unat_FOLD by linarith
  assume le: "unat u \<le> 131070"
  show "unat (FOLD_U32T u) \<le> 65535"
  proof (cases "unat u < 65536")
    case False
    then have "unat u div 65536 = 1" "unat u mod 65536 = unat u - 65536"
      using le by (simp_all add: div_nat_eqI le_mod_geq)
    then show ?thesis using le by (simp add: unat_FOLD)
  qed (simp add: unat_FOLD)
qed

lemma unat_bswap16: "unat (bswap16 v) = 256 * (unat v mod 256) + unat v div 256"
proof -
  have m: "(0xFF00 :: u16) = push_bit 8 (mask 8)" "(0xFF :: u16) = mask 8" by (simp_all add: mask_eq_exp_minus_1)
  have "bswap16 v = push_bit 8 v OR drop_bit 8 v"
    unfolding bswap16_def m by (rule bit_word_eqI) (auto simp: bit_simps dest: bit_imp_le_length)
  also have "\<dots> = push_bit 8 v + drop_bit 8 v"
    by (rule disjunctive_add [symmetric]) (auto simp: bit_simps dest: bit_imp_le_length)
  finally have "bswap16 v = push_bit 8 v + drop_bit 8 v" .
  moreover have p: "unat (push_bit 8 v) = 256 * (unat v mod 256)"
  proof -
    have "unat (push_bit 8 v) = (unat v * 256) mod (256 * 256)" by (simp add: push_bit_eq_mult unat_word_ariths)
    then show ?thesis by (simp only: mult.commute [of "unat v"] mod_mult_mult1)
  qed
  moreover have "unat v div 256 < 256" using unat_u16_le [of v] by (simp add: less_mult_imp_div_less)
  moreover have "unat v mod 256 < 256" by simp
  ultimately show ?thesis by (simp add: unat_add_no_wrap unat_drop_bit_div)
qed

lemma bswap16_ones: "ones_eq (unat (bswap16 v)) (256 * unat v)"
proof -
  have "256 * unat v = 256 * (unat v mod 256) + 65536 * (unat v div 256)"
    using mult_div_mod_eq [of 256 "unat v"] by linarith
  then show ?thesis using ones_eq_sym [OF ones_eq_wrap] by (simp add: unat_bswap16)
qed

lemma unat_SWAP: "unat u \<le> 65535 \<Longrightarrow> unat (SWAP_BYTES_IN_WORD u) = unat (bswap16 (ucast u))"
  using unat_u16_le [of "bswap16 (ucast u)"]
  by (simp add: SWAP_BYTES_IN_WORD_def unsigned_ucast_eq take_bit_nat_eq_self)

lemma SWAP_ones:
  assumes "unat u \<le> 65535"
  shows "ones_eq (unat (SWAP_BYTES_IN_WORD u)) (256 * unat u)" "unat (SWAP_BYTES_IN_WORD u) \<le> 65535"
proof -
  have "unat (ucast u :: u16) = unat u" using assms by (simp add: unsigned_ucast_eq take_bit_nat_eq_self)
  then show "ones_eq (unat (SWAP_BYTES_IN_WORD u)) (256 * unat u)"
    using bswap16_ones [of "ucast u"] by (simp add: unat_SWAP [OF assms])
  show "unat (SWAP_BYTES_IN_WORD u) \<le> 65535" by (simp add: unat_SWAP [OF assms] unat_u16_le)
qed

lemma sum_words_correct:
  assumes "unat sm + 65535 * (length bs div 2) < 2 ^ 32"
  shows "\<exists>s pre rest. sum_words bs sm = (s, rest) \<and> bs = pre @ rest \<and> even (length pre) \<and> length rest = length bs mod 2 \<and>
    unat s \<le> unat sm + 65535 * (length bs div 2) \<and> ones_eq (unat s) (unat sm + le_num pre)"
  using assms
proof (induction bs sm rule: sum_words.induct)
  case (1 a b bs sm)
  have f: "unat (from_le [a, b] :: u32) = unat a + 256 * unat b" by (subst unat_from_le) simp_all
  moreover have le: "unat a + 256 * unat b \<le> 65535" using unat_u8_le [of a] unat_u8_le [of b] by linarith
  ultimately have u: "unat (sm + from_le [a, b]) = unat sm + (unat a + 256 * unat b)"
    using 1(2) by (subst unat_add_no_wrap) simp_all
  define k where "k = length bs div 2"
  have half: "length (a # b # bs) div 2 = k + 1" by (simp add: k_def)
  have prem: "unat (sm + from_le [a, b]) + 65535 * (length bs div 2) < 2 ^ 32"
    using 1(2) le unfolding u half k_def [symmetric] by simp
  obtain s pre rest where IH: "sum_words bs (sm + from_le [a, b]) = (s, rest)" "bs = pre @ rest" "even (length pre)"
    "length rest = length bs mod 2" "unat s \<le> unat (sm + from_le [a, b]) + 65535 * (length bs div 2)"
    "ones_eq (unat s) (unat (sm + from_le [a, b]) + le_num pre)"
    using 1(1) [OF prem] by blast
  have "ones_eq (unat s) (unat sm + (unat a + 256 * unat b + le_num pre))" using IH(6) u by (simp add: add.assoc)
  also have "ones_eq \<dots> (unat sm + (unat a + 256 * unat b + 65536 * le_num pre))"
    by (rule ones_eq_add [OF ones_eq_refl ones_eq_sym [OF ones_eq_wrap]])
  finally have "ones_eq (unat s) (unat sm + le_num (a # b # pre))" by (simp add: algebra_simps)
  moreover have "unat s \<le> unat sm + 65535 * (length (a # b # bs) div 2)"
    using IH(5) le unfolding u half k_def [symmetric] by simp
  moreover have "sum_words (a # b # bs) sm = (s, rest)" using IH(1) by simp
  moreover have "a # b # bs = (a # b # pre) @ rest" using IH(2) by simp
  moreover have "even (length (a # b # pre))" using IH(3) by simp
  moreover have "length rest = length (a # b # bs) mod 2" using IH(4) by simp
  ultimately show ?case by blast
qed (simp_all add: exI [of _ "[]"])


lemma unat_ucast_u16: "unat u \<le> 65535 \<Longrightarrow> unat (ucast u :: u16) = unat u" for u :: u32
  by (simp add: unsigned_ucast_eq take_bit_nat_eq_self)

lemma unat_ucast_u32: "unat (ucast u :: u32) = unat u" for u :: u16
  using unat_u16_le [of u] by (simp add: unsigned_ucast_eq take_bit_nat_eq_self)

lemma FOLD2:
  "ones_eq (unat (FOLD_U32T (FOLD_U32T u))) (unat u)" "unat (FOLD_U32T (FOLD_U32T u)) \<le> 65535"
  using FOLD_ones [of u] FOLD_ones [of "FOLD_U32T u"] FOLD_le by (auto simp: ones_eq_def)

text \<open>The sum before folding, where \<open>t1\<close> is the byte that was taken off to align the data.\<close>

lemma sum_end_bytes:
  assumes "sum_words bs 0 = (s, rest)" "length bs \<le> 0x20000"
  shows "ones_eq (unat (s + from_le [if rest \<noteq> [] then hd rest else 0, t1])) (256 * unat t1 + le_num bs)"
proof -
  let ?t0 = "if rest \<noteq> [] then hd rest else 0"
  define k where "k = length bs div 2"
  have k: "k \<le> 65536" using assms(2) by (simp add: k_def)
  then have "unat (0 :: u32) + 65535 * (length bs div 2) < 2 ^ 32" by (simp add: k_def [symmetric])
  from sum_words_correct [OF this] obtain s' pre rest' where pre': "sum_words bs 0 = (s', rest')" "bs = pre @ rest'"
    "even (length pre)" "length rest' = length bs mod 2" "unat s' \<le> unat (0 :: u32) + 65535 * (length bs div 2)"
    "ones_eq (unat s') (unat (0 :: u32) + le_num pre)" by blast
  have "s' = s" "rest' = rest" using pre'(1) assms(1) by simp_all
  then have pre: "bs = pre @ rest" "even (length pre)" "length rest = length bs mod 2" "unat s \<le> 65535 * k"
    "ones_eq (unat s) (le_num pre)" using pre'(2-6) by (simp_all only: k_def unat_0 add_0)
  have le: "unat ?t0 + 256 * unat t1 \<le> 65535" using unat_u8_le [of ?t0] unat_u8_le [of t1] by linarith
  have f: "unat (from_le [?t0, t1] :: u32) = unat ?t0 + 256 * unat t1" by (subst unat_from_le) simp_all
  have u: "unat (s + from_le [?t0, t1]) = unat s + (unat ?t0 + 256 * unat t1)"
    using pre(4) k le f by (subst unat_add_no_wrap) simp_all
  have "length rest \<le> 1" using pre(3) by simp
  then have "le_num rest = unat ?t0" by (cases rest) auto
  then have "ones_eq (le_num bs) (le_num pre + unat ?t0)" using le_num_even [OF pre(2), of rest] pre(1) by simp
  moreover have "ones_eq (unat s + (unat ?t0 + 256 * unat t1)) (le_num pre + (unat ?t0 + 256 * unat t1))"
    using ones_eq_add [OF pre(5) ones_eq_refl] .
  moreover have "ones_eq (256 * unat t1 + le_num bs) (256 * unat t1 + (le_num pre + unat ?t0))"
    using ones_eq_add [OF ones_eq_refl calculation(1)] .
  ultimately show ?thesis unfolding u by (simp only: ones_eq_def ac_simps)
qed

lemma lwip_standard_chksum_ones:
  assumes "length bs \<le> 0x20000"
  shows "ones_eq (unat (lwip_standard_chksum od bs)) (le_num bs)"
proof -
  define t1 bs' where "t1 = (if od \<and> bs \<noteq> [] then hd bs else 0)" and "bs' = (if od \<and> bs \<noteq> [] then tl bs else bs)"
  obtain s rest where s: "sum_words bs' 0 = (s, rest)" by (cases "sum_words bs' 0")
  define v where "v = FOLD_U32T (FOLD_U32T (s + from_le [if rest \<noteq> [] then hd rest else 0, t1]))"
  have r: "lwip_standard_chksum od bs = ucast (if od then SWAP_BYTES_IN_WORD v else v)"
    using s by (auto simp: lwip_standard_chksum_def Let_def t1_def bs'_def v_def)
  have v: "ones_eq (unat v) (256 * unat t1 + le_num bs')" "unat v \<le> 65535"
    using sum_end_bytes [OF s, of t1] FOLD2 assms unfolding v_def by (auto simp: ones_eq_def bs'_def)
  show ?thesis
  proof (cases od)
    case False
    then show ?thesis using v unfolding r by (simp add: unat_ucast_u16 t1_def bs'_def)
  next
    case True
    have "ones_eq (unat (SWAP_BYTES_IN_WORD v)) (256 * (256 * unat t1 + le_num bs'))"
      using SWAP_ones(1) [OF v(2)] ones_eq_mult [OF v(1), of 256] ones_eq_trans by blast
    also have "256 * (256 * unat t1 + le_num bs') = 256 * le_num bs' + 65536 * unat t1" by simp
    also have "ones_eq \<dots> (256 * le_num bs' + unat t1)" by (rule ones_eq_wrap)
    finally have sw: "ones_eq (unat (SWAP_BYTES_IN_WORD v)) (256 * le_num bs' + unat t1)" .
    have "256 * le_num bs' + unat t1 = le_num bs"
      using True by (cases bs) (simp_all add: t1_def bs'_def)
    then show ?thesis using sw True SWAP_ones(2) [OF v(2)] unfolding r by (simp add: unat_ucast_u16)
  qed
qed

lemma inet_chksum_correct:
  "length bs \<le> 0x20000 \<Longrightarrow> inet_chksum od bs = NOT (of_nat (ones_sum bs))"
  using ones_sum_word [OF lwip_standard_chksum_ones, of bs od] by (simp add: inet_chksum_def)

section \<open>Chains of packet buffers\<close>

text \<open>
  \<open>acc\<close> is the sum of the bytes \<open>pre\<close>, with its bytes swapped if their number is odd.
\<close>

definition acc_ok :: "u32 \<Rightarrow> bool \<Rightarrow> nat \<Rightarrow> bytes \<Rightarrow> bool" where
  "acc_ok acc swapped start pre \<longleftrightarrow> unat acc \<le> 65535 \<and> swapped = odd (length pre) \<and>
     ones_eq (unat acc) (if swapped then 256 * (start + le_num pre) else start + le_num pre)"

lemma ones_eq_256_256: "ones_eq (256 * (256 * n)) n"
  using ones_eq_wrap [of 0 n] by (simp add: mult.assoc [symmetric])

lemma le_num_append_ones:
  "ones_eq (le_num (xs @ ys)) (le_num xs + (if even (length xs) then le_num ys else 256 * le_num ys))"
  unfolding le_num_append by (rule ones_eq_add [OF ones_eq_refl ones_eq_pow])

lemma acc_ok_fold:
  assumes "acc_ok acc swapped start pre" "length bs \<le> 65535"
  shows "ones_eq (unat (FOLD_U32T (acc + ucast (lwip_standard_chksum od bs))))
      (if swapped then 256 * (start + le_num (pre @ bs)) else start + le_num (pre @ bs))"
    "unat (FOLD_U32T (acc + ucast (lwip_standard_chksum od bs))) \<le> 65535"
proof -
  let ?c = "ucast (lwip_standard_chksum od bs) :: u32"
  have c: "ones_eq (unat ?c) (le_num bs)" "unat ?c \<le> 65535"
    using lwip_standard_chksum_ones [of bs od] assms(2) unat_u16_le by (simp_all add: unat_ucast_u32)
  have a: "unat acc \<le> 65535" "swapped = odd (length pre)"
    "ones_eq (unat acc) (if swapped then 256 * (start + le_num pre) else start + le_num pre)"
    using assms(1) unfolding acc_ok_def by blast+
  have u: "unat (acc + ?c) = unat acc + unat ?c" using a(1) c(2) by (intro unat_add_no_wrap) simp
  then show "unat (FOLD_U32T (acc + ?c)) \<le> 65535" using a(1) c(2) by (intro FOLD_le) simp
  have "ones_eq (unat (FOLD_U32T (acc + ?c))) (unat acc + unat ?c)" using FOLD_ones [of "acc + ?c"] u by simp
  also have "ones_eq \<dots> ((if swapped then 256 * (start + le_num pre) else start + le_num pre) + le_num bs)"
    by (rule ones_eq_add [OF a(3) c(1)])
  also have "ones_eq \<dots> (if swapped then 256 * (start + le_num (pre @ bs)) else start + le_num (pre @ bs))"
  proof (cases swapped)
    case True
    have "ones_eq (256 * (start + le_num (pre @ bs))) (256 * (start + (le_num pre + 256 * le_num bs)))"
      using le_num_append_ones [of pre bs] True a(2) by (intro ones_eq_mult ones_eq_add ones_eq_refl) simp
    also have "256 * (start + (le_num pre + 256 * le_num bs)) = 256 * (start + le_num pre) + 256 * (256 * le_num bs)"
      by (simp add: algebra_simps)
    also have "ones_eq \<dots> (256 * (start + le_num pre) + le_num bs)"
      by (intro ones_eq_add ones_eq_refl ones_eq_256_256)
    finally show ?thesis using True ones_eq_sym by simp
  next
    case False
    then have "ones_eq (start + le_num (pre @ bs)) (start + (le_num pre + le_num bs))"
      using le_num_append_ones [of pre bs] a(2) by (intro ones_eq_add ones_eq_refl) simp
    then show ?thesis using False ones_eq_sym by (simp add: add.assoc)
  qed
  finally show "ones_eq (unat (FOLD_U32T (acc + ?c)))
      (if swapped then 256 * (start + le_num (pre @ bs)) else start + le_num (pre @ bs))" .
qed


lemma chksum_buf_correct:
  assumes "acc_ok acc swapped start pre" "buf_ok b" "n \<le> pb_len b"
  shows "\<exists>acc' s'. chksum_buf base a b n acc swapped = Inr (acc', s') \<and> unat acc' \<le> 65535 \<and>
    ones_eq (unat acc') (if s' then 256 * (start + le_num (pre @ take (unat n) (buf_data b)))
      else start + le_num (pre @ take (unat n) (buf_data b))) \<and>
    (n = pb_len b \<longrightarrow> acc_ok acc' s' start (pre @ buf_data b))"
proof -
  let ?bs = "take (unat n) (buf_data b)"
  define od where "od = odd (int (base a) + pb_payload b)"
  define v where "v = FOLD_U32T (acc + ucast (lwip_standard_chksum od ?bs))"
  have n: "unat n \<le> unat (pb_len b)" using assms(3) by (simp add: word_le_nat_alt)
  have rd: "pb_read b 0 (unat n) = Inr ?bs" using pb_read_data [OF assms(2), of 0 "unat n"] n by simp
  have len: "length ?bs \<le> 65535" using n unat_u16_le [of n] by simp
  note v = acc_ok_fold [OF assms(1) len, of od, folded v_def]
  define r where "r = (if odd (unat (pb_len b)) then (SWAP_BYTES_IN_WORD v, \<not> swapped) else (v, swapped))"
  have run: "chksum_buf base a b n acc swapped = Inr r"
    using rd by (simp add: chksum_buf_def Let_def r_def v_def od_def)
  have par: "swapped = odd (length pre)" using assms(1) by (simp add: acc_ok_def)
  have A: "unat (fst r) \<le> 65535 \<and> ones_eq (unat (fst r)) (if snd r then 256 * (start + le_num (pre @ ?bs)) else start + le_num (pre @ ?bs))"
  proof (cases "odd (unat (pb_len b))")
    case True
    have "ones_eq (unat (SWAP_BYTES_IN_WORD v)) (256 * (if swapped then 256 * (start + le_num (pre @ ?bs)) else start + le_num (pre @ ?bs)))"
      using SWAP_ones(1) [OF v(2)] ones_eq_mult [OF v(1), of 256] ones_eq_trans by blast
    then have "ones_eq (unat (SWAP_BYTES_IN_WORD v)) (if swapped then start + le_num (pre @ ?bs) else 256 * (start + le_num (pre @ ?bs)))"
      using ones_eq_256_256 [of "start + le_num (pre @ ?bs)"] ones_eq_trans by (cases swapped) (auto simp only: if_True if_False)
    then show ?thesis using True SWAP_ones(2) [OF v(2)] by (cases swapped) (simp_all only: r_def if_True fst_conv snd_conv simp_thms if_False)
  next
    case False
    then show ?thesis using v by (simp only: r_def if_False fst_conv snd_conv simp_thms)
  qed
  have B: "snd r = odd (length (pre @ buf_data b))" using assms(2) par by (auto simp: r_def)
  have C: "acc_ok (fst r) (snd r) start (pre @ buf_data b)" if "n = pb_len b"
  proof -
    have e: "?bs = buf_data b" using that assms(2) by simp
    show ?thesis using A B unfolding acc_ok_def e by blast
  qed
  show ?thesis using run A C
    by (intro exI [of _ "fst r"] exI [of _ "snd r"]) (simp only: prod.collapse, blast)
qed

lemma chksum_loop_correct:
  assumes "chain h p as" "\<forall>a \<in> set as. buf_ok (ph_mem h a)" "acc_ok acc swapped start pre"
  shows "\<exists>acc' s'. chksum_loop base h p acc swapped = Some (Inr (acc', s')) \<and> acc_ok acc' s' start (pre @ chain_data h as)"
  using assms
proof (induction as arbitrary: p acc swapped pre)
  case Nil
  then show ?case by (subst chksum_loop.simps) simp
next
  case (Cons a as)
  let ?b = "ph_mem h a"
  have p: "p = Some a" "ph_live h a" "buf_ok ?b" "chain h (pb_next ?b) as" "\<forall>a \<in> set as. buf_ok (ph_mem h a)"
    using Cons.prems by auto
  obtain acc' s' where c: "chksum_buf base a ?b (pb_len ?b) acc swapped = Inr (acc', s')" "acc_ok acc' s' start (pre @ buf_data ?b)"
    using chksum_buf_correct [OF Cons.prems(3) p(3), of "pb_len ?b" base a] by auto
  have "chksum_loop base h p acc swapped = chksum_loop base h (pb_next ?b) acc' s'"
    using p(1,2) c(1) by (subst chksum_loop.simps) simp
  then show ?case using Cons.IH [OF p(4,5) c(2)] by simp
qed

lemma unswap_ones:
  assumes "unat acc \<le> 65535" "ones_eq (unat acc) (if swapped then 256 * n else n)"
  shows "unat (if swapped then SWAP_BYTES_IN_WORD acc else acc) \<le> 65535"
    "ones_eq (unat (if swapped then SWAP_BYTES_IN_WORD acc else acc)) n"
proof -
  show "unat (if swapped then SWAP_BYTES_IN_WORD acc else acc) \<le> 65535"
    using assms(1) SWAP_ones(2) by simp
  show "ones_eq (unat (if swapped then SWAP_BYTES_IN_WORD acc else acc)) n"
  proof (cases swapped)
    case True
    then have "ones_eq (256 * unat acc) (256 * (256 * n))" using ones_eq_mult [OF assms(2), of 256] by simp
    then show ?thesis using True SWAP_ones(1) [OF assms(1)] ones_eq_256_256 [of n] by (simp add: ones_eq_def)
  qed (use assms in simp)
qed

lemma ucast_NOT_mask: "(ucast (NOT (acc AND 0xFFFF)) :: u16) = NOT (ucast acc)" for acc :: u32
  unfolding mask_0xFFFF by (rule bit_word_eqI) (auto simp: bit_simps)

lemma inet_chksum_pbuf_correct:
  assumes "chain h p as" "\<forall>a \<in> set as. buf_ok (ph_mem h a)"
  shows "inet_chksum_pbuf base h p = Some (Inr (NOT (of_nat (ones_sum (chain_data h as)))))"
proof -
  have "acc_ok 0 False 0 []" by (simp add: acc_ok_def)
  from chksum_loop_correct [OF assms this, of base] obtain acc s where
    r: "chksum_loop base h p 0 False = Some (Inr (acc, s))" "acc_ok acc s 0 (chain_data h as)" by auto
  define v where "v = (if s then SWAP_BYTES_IN_WORD acc else acc)"
  have v: "unat v \<le> 65535" "ones_eq (unat v) (le_num (chain_data h as))"
    using unswap_ones [of acc s "le_num (chain_data h as)"] r(2) unfolding v_def acc_ok_def add_0 by blast+
  then have "(ucast v :: u16) = of_nat (ones_sum (chain_data h as))"
    by (intro ones_sum_word) (simp add: unat_ucast_u16)
  then show ?thesis unfolding inet_chksum_pbuf_def r(1)
    by (simp only: Let_def option.case sum.case prod.case v_def [symmetric] ucast_NOT_mask)
qed


section \<open>The pseudo header\<close>

text \<open>
  The pseudo header of RFC 793 as bytes: \<open>src\<close> and \<open>dest\<close> are addresses in network byte order as
  they lie in memory, the length is big-endian.
\<close>

definition pseudo_hdr :: "u32 \<Rightarrow> u32 \<Rightarrow> u8 \<Rightarrow> u16 \<Rightarrow> bytes" where
  "pseudo_hdr src dest proto len = to_le 4 src @ to_le 4 dest @ [0, proto] @ to_le 2 (bswap16 len)"

lemma le_num_to_le:
  fixes w :: "'a::len word"
  assumes "LENGTH('a) = 8 * n"
  shows "le_num (to_le n w) = unat w"
  using unat_from_le [of "to_le n w", where ?'a = 'a] assms by simp

lemma le_num_pseudo_hdr:
  "ones_eq (le_num (pseudo_hdr src dest proto len)) (unat src + unat dest + 256 * (unat proto + unat len))"
proof -
  have "le_num (pseudo_hdr src dest proto len) =
    unat src + 65536 * (65536 * (unat dest + 65536 * (65536 * (256 * unat proto + 65536 * unat (bswap16 len)))))"
    by (simp add: pseudo_hdr_def le_num_append le_num_to_le)
  also have "ones_eq \<dots> (unat src + unat dest + (256 * unat proto + unat (bswap16 len)))"
  proof -
    have w: "ones_eq (65536 * n) n" for n using ones_eq_wrap [of 0 n] by simp
    let ?a = "256 * unat proto + 65536 * unat (bswap16 len)"
    have "ones_eq (65536 * (65536 * ?a)) (256 * unat proto + unat (bswap16 len))"
      using ones_eq_trans [OF w [of "65536 * ?a"] ones_eq_trans [OF w [of ?a] ones_eq_wrap]] .
    from ones_eq_trans [OF w ones_eq_trans [OF w ones_eq_add [OF ones_eq_refl this]]]
    have "ones_eq (65536 * (65536 * (unat dest + 65536 * (65536 * ?a)))) (unat dest + (256 * unat proto + unat (bswap16 len)))" .
    from ones_eq_add [OF ones_eq_refl this] show ?thesis by (simp add: add.assoc)
  qed
  also have "ones_eq \<dots> (unat src + unat dest + (256 * unat proto + 256 * unat len))"
    by (intro ones_eq_add ones_eq_refl bswap16_ones)
  finally show ?thesis by (simp add: algebra_simps)
qed

lemma bswap32_bytes: "to_le 4 (bswap32 v) = rev (to_le 4 v)"
proof -
  have m: "(0xFF :: u32) = mask 8" "(0xFF00 :: u32) = push_bit 8 (mask 8)" "(0xFF0000 :: u32) = push_bit 16 (mask 8)"
    "(0xFF000000 :: u32) = push_bit 24 (mask 8)" by (simp_all add: mask_eq_exp_minus_1)
  have "(ucast (drop_bit (8 * i) (bswap32 v)) :: u8) = ucast (drop_bit (8 * (3 - i)) v)" if "i < 4" for i
  proof -
    have "i = 0 \<or> i = 1 \<or> i = 2 \<or> i = 3" using that by auto
    then show ?thesis unfolding bswap32_def m
      by (elim disjE; intro bit_word_eqI) (auto simp: bit_simps)
  qed
  from this [of 0] this [of 1] this [of 2] this [of 3] show ?thesis
    by (simp add: to_le_def upt_rec numeral_eq_Suc)
qed

lemma bswap32_ones: "ones_eq (unat (bswap32 v)) (256 * unat v)"
proof -
  obtain b0 b1 b2 b3 where b: "to_le 4 v = [b0, b1, b2, b3]"
    by (simp add: to_le_def upt_rec numeral_eq_Suc)
  have "unat (bswap32 v) = le_num [b3, b2, b1, b0]"
    using le_num_to_le [of 4 "bswap32 v"] by (simp add: bswap32_bytes b)
  also have "\<dots> = unat b3 + 256 * unat b2 + 65536 * (unat b1 + 256 * unat b0)" by simp
  also have "ones_eq \<dots> (unat b3 + 256 * unat b2 + (unat b1 + 256 * unat b0))" by (rule ones_eq_wrap)
  also have "\<dots> = (256 * unat b0 + unat b1 + 256 * unat b2) + unat b3" by simp
  also have "ones_eq \<dots> ((256 * unat b0 + unat b1 + 256 * unat b2) + 65536 * unat b3)" by (rule ones_eq_sym [OF ones_eq_wrap])
  also have "\<dots> = 256 * unat b0 + (unat b1 + 256 * unat b2 + 65536 * unat b3)" by simp
  also have "ones_eq \<dots> (256 * unat b0 + 65536 * (unat b1 + 256 * unat b2 + 65536 * unat b3))" by (rule ones_eq_sym [OF ones_eq_wrap])
  also have "\<dots> = 256 * le_num [b0, b1, b2, b3]" by simp
  also have "le_num [b0, b1, b2, b3] = unat v" using le_num_to_le [of 4 v] by (simp add: b)
  finally show ?thesis .
qed

lemma in_pseudo_ones: "ones_eq (unat (in_pseudo a b c)) (unat a + unat b + unat c)"
proof -
  obtain s1 c1 where s1: "adc a b False = (s1, c1)" by (cases "adc a b False")
  obtain s2 c2 where s2: "adc s1 c c1 = (s2, c2)" by (cases "adc s1 c c1")
  obtain s3 c3 where s3: "adc s2 0 c2 = (s3, c3)" by (cases "adc s2 0 c2")
  have e: "unat s1 + 2 ^ 32 * of_bool c1 = unat a + unat b" "unat s2 + 2 ^ 32 * of_bool c2 = unat s1 + unat c + of_bool c1"
    "unat s3 + 2 ^ 32 * of_bool c3 = unat s2 + of_bool c2"
    using adc_unat [OF s1] adc_unat [OF s2] adc_unat [OF s3] by simp_all
  have lt: "unat a < 2 ^ 32" "unat b < 2 ^ 32" "unat c < 2 ^ 32" "unat s1 < 2 ^ 32" "unat s2 < 2 ^ 32" "unat s3 < 2 ^ 32"
    using unsigned_less [where ?'a = nat and ?'b = 32] by simp_all
  have nc: "\<not> c3" using e lt by (cases c1; cases c2; cases c3) auto
  have w: "ones_eq (n + 2 ^ 32 * m) (n + m)" for n m :: nat by (rule ones_eq_carry) simp
  have "ones_eq (unat s3) (unat s1 + unat c + of_bool c1)"
    using e(2,3) nc ones_eq_sym [OF w [of "unat s2" "of_bool c2"]] by simp
  also have "\<dots> = unat c + (unat s1 + of_bool c1)" by simp
  also have "ones_eq \<dots> (unat c + (unat a + unat b))"
    using ones_eq_add [OF ones_eq_refl ones_eq_sym [OF w [of "unat s1" "of_bool c1"]]] e(1) by simp
  finally have s3e: "ones_eq (unat s3) (unat a + unat b + unat c)" by (simp add: ac_simps)
  define v where "v = (s3 AND 0xFFFF) + drop_bit 16 s3"
  have v: "v = FOLD_U32T s3" by (simp add: v_def FOLD_U32T_def add.commute)
  have r: "in_pseudo a b c = ucast (if 0xFFFF < v then v - 0xFFFF else v)"
    using s1 s2 s3 by (simp add: in_pseudo_def Let_def v_def)
  have "ones_eq (unat (if 0xFFFF < v then v - 0xFFFF else v)) (unat v) \<and> unat (if 0xFFFF < v then v - 0xFFFF else v) \<le> 65535"
  proof (cases "0xFFFF < v")
    case True
    then have gt: "65535 < unat v" by (simp add: word_less_nat_alt)
    then have "unat (v - 0xFFFF) = unat v - 65535" by (subst unat_sub) (simp_all add: word_le_nat_alt)
    then show ?thesis using True ones_eq_minus [OF gt] FOLD_le(1) [of s3] by (simp add: v)
  qed (simp add: word_less_nat_alt)
  then show ?thesis using FOLD_ones [of s3] s3e unfolding r v by (simp add: unat_ucast_u16 ones_eq_def)
qed

lemma in_pseudo_correct:
  "in_pseudo src dest (bswap32 (ucast proto + ucast len)) = of_nat (ones_sum (pseudo_hdr src dest proto len))"
proof (rule ones_sum_word)
  have "unat (ucast proto :: u32) = unat proto"
    using unat_u8_le [of proto] by (simp add: unsigned_ucast_eq take_bit_nat_eq_self)
  then have "unat (ucast proto + ucast len :: u32) = unat proto + unat len"
    using unat_u8_le [of proto] unat_u16_le [of len] by (subst unat_add_no_wrap) (simp_all add: unat_ucast_u32)
  then have "ones_eq (unat (bswap32 (ucast proto + ucast len))) (256 * (unat proto + unat len))"
    using bswap32_ones [of "ucast proto + ucast len"] by simp
  from ones_eq_trans [OF in_pseudo_ones ones_eq_add [OF ones_eq_refl this]]
  show "ones_eq (unat (in_pseudo src dest (bswap32 (ucast proto + ucast len)))) (le_num (pseudo_hdr src dest proto len))"
    using le_num_pseudo_hdr [of src dest proto len] ones_eq_sym ones_eq_trans by blast
qed


lemma acc_ok_end:
  assumes "acc_ok acc s start pre"
  shows "unat acc \<le> 65535 \<and> ones_eq (unat acc) (if s then 256 * (start + le_num (pre @ [])) else start + le_num (pre @ []))"
  using assms unfolding acc_ok_def append_Nil2 by blast

lemma chksum_partial_loop_correct:
  assumes "chain h p as" "\<forall>a \<in> set as. buf_ok (ph_mem h a)" "acc_ok acc swapped start pre"
  shows "\<exists>acc' s'. chksum_partial_loop base h p n acc swapped = Some (Inr (acc', s')) \<and> unat acc' \<le> 65535 \<and>
    ones_eq (unat acc') (if s' then 256 * (start + le_num (pre @ take (unat n) (chain_data h as)))
      else start + le_num (pre @ take (unat n) (chain_data h as)))"
  using assms
proof (induction as arbitrary: p acc swapped pre n)
  case Nil
  then have "chksum_partial_loop base h p n acc swapped = Some (Inr (acc, swapped))"
    by (subst chksum_partial_loop.simps) simp
  then show ?case using acc_ok_end [OF Nil.prems(3)] unfolding chain_simps take_Nil by blast
next
  case (Cons a as)
  let ?b = "ph_mem h a"
  have p: "p = Some a" "ph_live h a" "buf_ok ?b" "chain h (pb_next ?b) as" "\<forall>a \<in> set as. buf_ok (ph_mem h a)"
    using Cons.prems by auto
  have l: "length (buf_data ?b) = unat (pb_len ?b)" using p(3) by simp
  show ?case
  proof (cases "n = 0")
    case True
    then have "chksum_partial_loop base h p n acc swapped = Some (Inr (acc, swapped))"
      by (subst chksum_partial_loop.simps) simp
    then show ?thesis using acc_ok_end [OF Cons.prems(3)] unfolding True unat_0 take_0 by blast
  next
    case False
    define k where "k = min (pb_len ?b) n"
    have k: "k \<le> pb_len ?b" by (simp add: k_def)
    have step: "chksum_partial_loop base h p n acc swapped = chksum_partial_loop base h (pb_next ?b) (n - k) acc' s'"
      if "chksum_buf base a ?b k acc swapped = Inr (acc', s')" for acc' s'
      using that p(1,2) False by (subst chksum_partial_loop.simps) (simp add: Let_def k_def [symmetric])
    obtain acc' s' where c: "chksum_buf base a ?b k acc swapped = Inr (acc', s')" "unat acc' \<le> 65535"
      "ones_eq (unat acc') (if s' then 256 * (start + le_num (pre @ take (unat k) (buf_data ?b)))
        else start + le_num (pre @ take (unat k) (buf_data ?b)))"
      "k = pb_len ?b \<longrightarrow> acc_ok acc' s' start (pre @ buf_data ?b)"
      using chksum_buf_correct [OF Cons.prems(3) p(3) k, of base a] by blast
    show ?thesis
    proof (cases "k = pb_len ?b")
      case True
      then have "unat (pb_len ?b) \<le> unat n" by (metis k_def min.cobounded2 word_le_nat_alt)
      then have tk: "pre @ take (unat n) (chain_data h (a # as)) = (pre @ buf_data ?b) @ take (unat (n - k)) (chain_data h as)"
        using True l by (simp add: unat_sub_no_wrap)
      show ?thesis using Cons.IH [OF p(4,5), of acc' s' "pre @ buf_data ?b" "n - k"] c(4) True
        unfolding step [OF c(1)] tk by blast
    next
      case False
      then have kn: "k = n" by (simp add: k_def min_def split: if_splits)
      have "chksum_partial_loop base h (pb_next ?b) 0 acc' s' = Some (Inr (acc', s'))"
        by (subst chksum_partial_loop.simps) simp
      then have run: "chksum_partial_loop base h p n acc swapped = Some (Inr (acc', s'))" using step [OF c(1)] kn by simp
      have tk: "take (unat n) (chain_data h (a # as)) = take (unat k) (buf_data ?b)"
        using k kn l by (simp add: word_le_nat_alt)
      show ?thesis using c(2,3) run unfolding tk by blast
    qed
  qed
qed

lemma addr_halves: "unat (w AND 0xFFFF) + unat (drop_bit 16 w AND 0xFFFF) = unat (FOLD_U32T w)" for w :: u32
proof -
  have "unat w div 65536 < 65536" using unsigned_less [of w, where ?'a = nat] by (simp add: less_mult_imp_div_less)
  then show ?thesis by (simp add: unat_and_0xFFFF unat_drop_bit_div unat_FOLD)
qed

lemma pseudo_start:
  fixes src dest :: u32
  shows "ones_eq (unat ((src AND 0xFFFF) + (drop_bit 16 src AND 0xFFFF) + (dest AND 0xFFFF) + (drop_bit 16 dest AND 0xFFFF)))
    (unat src + unat dest)"
proof -
  have le: "unat (w AND 0xFFFF) \<le> 65535" for w :: u32
    using mod_less_divisor [of 65536 "unat w"] unfolding unat_and_0xFFFF by linarith
  note le4 = le [of src] le [of "drop_bit 16 src"] le [of dest] le [of "drop_bit 16 dest"]
  have 1: "unat ((src AND 0xFFFF) + (drop_bit 16 src AND 0xFFFF)) = unat (src AND 0xFFFF) + unat (drop_bit 16 src AND 0xFFFF)"
    using le4 by (intro unat_add_no_wrap) simp
  have 2: "unat ((src AND 0xFFFF) + (drop_bit 16 src AND 0xFFFF) + (dest AND 0xFFFF)) =
    unat (src AND 0xFFFF) + unat (drop_bit 16 src AND 0xFFFF) + unat (dest AND 0xFFFF)"
    using le4 1 by (subst unat_add_no_wrap) simp_all
  have "unat ((src AND 0xFFFF) + (drop_bit 16 src AND 0xFFFF) + (dest AND 0xFFFF) + (drop_bit 16 dest AND 0xFFFF)) =
    unat (FOLD_U32T src) + unat (FOLD_U32T dest)"
    unfolding addr_halves [symmetric] using le4 2 by (subst unat_add_no_wrap) simp_all
  then show ?thesis using ones_eq_add [OF FOLD_ones FOLD_ones] by simp
qed

lemma pseudo_partial_correct:
  assumes "chain h p as" "\<forall>a \<in> set as. buf_ok (ph_mem h a)"
  shows "inet_chksum_pseudo_partial base h p proto proto_len n src dest =
    Some (Inr (NOT (of_nat (ones_sum (pseudo_hdr src dest proto proto_len @ take (unat n) (chain_data h as))))))"
proof -
  let ?data = "take (unat n) (chain_data h as)"
  define a0 where "a0 = FOLD_U32T (FOLD_U32T ((src AND 0xFFFF) + (drop_bit 16 src AND 0xFFFF) + (dest AND 0xFFFF) + (drop_bit 16 dest AND 0xFFFF)))"
  have a0: "ones_eq (unat a0) (unat src + unat dest)" "unat a0 \<le> 65535"
    unfolding a0_def using ones_eq_trans [OF FOLD2(1) pseudo_start] FOLD2(2) by blast+
  then have "acc_ok a0 False (unat a0) []" by (simp add: acc_ok_def)
  from chksum_partial_loop_correct [OF assms this, of base n] obtain acc s where
    r: "chksum_partial_loop base h p n a0 False = Some (Inr (acc, s))" "unat acc \<le> 65535"
      "ones_eq (unat acc) (if s then 256 * (unat a0 + le_num ?data) else unat a0 + le_num ?data)"
    unfolding append_Nil by blast
  define v where "v = (if s then SWAP_BYTES_IN_WORD acc else acc)"
  have v: "unat v \<le> 65535" "ones_eq (unat v) (unat a0 + le_num ?data)"
    using unswap_ones [OF r(2,3)] by (simp_all only: v_def)
  have p8: "unat (ucast proto :: u16) = unat proto"
    using unat_u8_le [of proto] by (simp add: unsigned_ucast_eq take_bit_nat_eq_self)
  define t where "t = v + ucast (bswap16 (ucast proto)) + ucast (bswap16 proto_len)"
  have "unat (v + ucast (bswap16 (ucast proto))) = unat v + unat (bswap16 (ucast proto))"
    using v(1) unat_u16_le [of "bswap16 (ucast proto)"] by (subst unat_add_no_wrap) (simp_all add: unat_ucast_u32)
  then have t: "unat t = unat v + unat (bswap16 (ucast proto)) + unat (bswap16 proto_len)"
    using v(1) unat_u16_le [of "bswap16 (ucast proto)"] unat_u16_le [of "bswap16 proto_len"]
    unfolding t_def by (subst unat_add_no_wrap) (simp_all add: unat_ucast_u32)
  have b: "ones_eq (unat (bswap16 (ucast proto))) (256 * unat proto)" using bswap16_ones [of "ucast proto"] p8 by simp
  have "ones_eq (unat t) (unat a0 + le_num ?data + 256 * unat proto + 256 * unat proto_len)"
    unfolding t by (rule ones_eq_add [OF ones_eq_add [OF v(2) b] bswap16_ones])
  also have "\<dots> = unat a0 + (le_num ?data + 256 * unat proto + 256 * unat proto_len)" by simp
  also have "ones_eq \<dots> (unat src + unat dest + (le_num ?data + 256 * unat proto + 256 * unat proto_len))"
    by (rule ones_eq_add [OF a0(1) ones_eq_refl])
  also have "\<dots> = (unat src + unat dest + 256 * (unat proto + unat proto_len)) + le_num ?data" by simp
  also have "ones_eq \<dots> (le_num (pseudo_hdr src dest proto proto_len) + le_num ?data)"
    by (rule ones_eq_add [OF ones_eq_sym [OF le_num_pseudo_hdr] ones_eq_refl])
  also have "ones_eq \<dots> (le_num (pseudo_hdr src dest proto proto_len @ ?data))"
    by (rule ones_eq_sym [OF le_num_even]) (simp add: pseudo_hdr_def)
  finally have "ones_eq (unat (FOLD_U32T (FOLD_U32T t))) (le_num (pseudo_hdr src dest proto proto_len @ ?data))"
    by (rule ones_eq_trans [OF FOLD2(1)])
  then have w: "(ucast (FOLD_U32T (FOLD_U32T t)) :: u16) = of_nat (ones_sum (pseudo_hdr src dest proto proto_len @ ?data))"
    using FOLD2(2) by (intro ones_sum_word) (simp add: unat_ucast_u16)
  show ?thesis
    unfolding inet_chksum_pseudo_partial_def inet_cksum_pseudo_partial_base_def Let_def a0_def [symmetric] r(1)
    by (simp only: option.case sum.case prod.case v_def [symmetric] t_def [symmetric] ucast_NOT_mask w)
qed


section \<open>What the routines promise\<close>

lemma unat_NOT_u16: "unat (NOT w) = 65535 - unat w" for w :: u16
proof -
  have "NOT w = (- 1) - w" by (simp add: not_eq_complement)
  moreover have "unat (- 1 :: u16) = 65535" by (simp add: unsigned_minus_1_eq_mask mask_eq_exp_minus_1)
  ultimately show ?thesis using unat_u16_le [of w] by (simp only: unat_sub_no_wrap)
qed

lemma ones_sum_with_chksum:
  fixes c :: u16
  assumes "even (length xs)" "c = NOT (of_nat (ones_sum (xs @ [0, 0] @ ys)))"
  shows "ones_sum (xs @ to_le 2 c @ ys) = 65535"
proof -
  let ?z = "ones_sum (xs @ [0, 0] @ ys)"
  have z: "?z \<le> 65535" by (rule ones_sum_le)
  have "unat (of_nat ?z :: u16) = ?z" using z by (intro unat_of_nat_eq) simp
  then have c: "unat c = 65535 - ?z" using assms(2) by (simp only: unat_NOT_u16)
  have split: "ones_eq (le_num (xs @ d @ ys)) (le_num xs + le_num ys + le_num d)" if "even (length d)" for d
  proof -
    have "ones_eq (le_num (xs @ d @ ys)) (le_num xs + le_num (d @ ys))" by (rule le_num_even [OF assms(1)])
    also have "ones_eq \<dots> (le_num xs + (le_num d + le_num ys))" by (rule ones_eq_add [OF ones_eq_refl le_num_even [OF that]])
    finally show ?thesis by (simp add: ac_simps)
  qed
  have "ones_eq (le_num (xs @ to_le 2 c @ ys)) (le_num xs + le_num ys + unat c)"
    using split [of "to_le 2 c"] by (simp add: le_num_to_le)
  also have "ones_eq \<dots> (?z + unat c)"
    using ones_eq_trans [OF ones_eq_sum split [of "[0, 0]"]] by (intro ones_eq_add [OF ones_eq_sym ones_eq_refl]) simp
  also have "?z + unat c = 65535" using c z by simp
  finally show ?thesis using ones_sum_unique [of 65535 "xs @ to_le 2 c @ ys"] ones_eq_sym by simp
qed

text \<open>C8: The assembler routine \<open>chksum_internet\<close> computes the one's complement checksum of
  RFC 1071 for data of every length, and agrees with lwIP's portable routine \<open>inet_chksum\<close> for data of
  up to 128 KB at even and odd addresses.
\<close>

theorem chksum_internet_is_rfc1071:
  "chksum_internet buf = NOT (of_nat (ones_sum buf)) \<and>
    (length buf \<le> 0x20000 \<longrightarrow> inet_chksum od buf = chksum_internet buf)"
  by (simp add: chksum_internet_correct inet_chksum_correct)

theorem chksum_internet_is_rfc1071_witness:
  "chksum_internet [0, 1, 0xF2, 3] = inet_chksum True [0, 1, 0xF2, 3] \<and> chksum_internet [0, 1, 0xF2, 3] = 0xFB0D"
  using chksum_internet_is_rfc1071 [of "[0, 1, 0xF2, 3]" True] by (simp add: ones_add_def)

text \<open>C14: The checksum over a chain of packet buffers is the checksum of the bytes of the packet,
  however they are divided into buffers and wherever the buffers lie in memory.
\<close>

theorem inet_chksum_pbuf_ignores_layout:
  assumes "chain h p as" "\<forall>a \<in> set as. buf_ok (ph_mem h a)"
  shows "inet_chksum_pbuf base h p = Some (Inr (chksum_internet (chain_data h as)))"
  by (simp add: inet_chksum_pbuf_correct [OF assms] chksum_internet_correct)

definition two_bufs :: pheap where
  "two_bufs = \<lparr>ph_mem = (\<lambda>a. \<lparr>pb_next = (if a = 1 then Some 2 else None), pb_payload = 0, pb_mem = [1, 2, 3], pb_mbuf = None,
      pb_tot_len = (if a = 1 then 6 else 3), pb_len = 3, pb_type = PBUF_RAM, pb_flags = 0, pb_ref = 1\<rparr>),
     ph_live = (\<lambda>a. a \<in> {1, 2}), ph_pbufs = [], ph_rams = [], ph_mbufs = []\<rparr>"

theorem inet_chksum_pbuf_ignores_layout_witness:
  "inet_chksum_pbuf (\<lambda>a. a) two_bufs (Some 1) = Some (Inr (chksum_internet [1, 2, 3, 1, 2, 3]))"
  using inet_chksum_pbuf_ignores_layout [of two_bufs "Some 1" "[1, 2]" "\<lambda>a. a"]
  by (simp add: two_bufs_def buf_ok_def buf_data_def)

text \<open>C15: A header whose checksum field, at an even offset, was zero while the checksum was
  computed and then set to it passes the receiver's test that the checksum of the whole is zero.
\<close>

theorem chksum_internet_verifies:
  assumes "even (length xs)" "c = chksum_internet (xs @ [0, 0] @ ys)"
  shows "chksum_internet (xs @ to_le 2 c @ ys) = 0"
proof -
  have "ones_sum (xs @ to_le 2 c @ ys) = 65535"
    using assms by (intro ones_sum_with_chksum) (simp_all only: chksum_internet_correct)
  then show ?thesis by (simp add: chksum_internet_correct)
qed

theorem chksum_internet_verifies_witness:
  "chksum_internet ([8, 0] @ to_le 2 (chksum_internet ([8, 0] @ [0, 0] @ [1, 2, 3])) @ [1, 2, 3]) = 0"
  using chksum_internet_verifies [of "[8, 0]" _ "[1, 2, 3]"] by simp



end
