(* ===== verification/Ip4_Addr.thy ===== *)
theory Ip4_Addr
  imports Chksum_Props
begin

text \<open>
  IPv4 addresses: the model of \<open>dp/lwip/ip4_addr.c\<close>. Addresses are words in network byte order, as
  they lie in memory. A C string is the list of its bytes before the terminating zero.
\<close>

section \<open>Broadcast addresses and netmasks\<close>

definition IPADDR_ANY :: u32 where "IPADDR_ANY = 0"

definition IPADDR_NONE :: u32 where "IPADDR_NONE = 0xFFFFFFFF"

definition IPADDR_BROADCAST :: u32 where "IPADDR_BROADCAST = 0xFFFFFFFF"

definition NETIF_FLAG_BROADCAST :: u8 where "NETIF_FLAG_BROADCAST = 0x02"

record netif =
  nif_ip_addr :: u32
  nif_netmask :: u32
  nif_flags :: u8

definition ip_addr_netcmp :: "u32 \<Rightarrow> u32 \<Rightarrow> u32 \<Rightarrow> bool" where
  "ip_addr_netcmp addr1 addr2 msk = (addr1 AND msk = addr2 AND msk)"

definition ip4_addr_isbroadcast :: "u32 \<Rightarrow> netif \<Rightarrow> bool" where
  "ip4_addr_isbroadcast addr netif =
     (if NOT addr = IPADDR_ANY \<or> addr = IPADDR_ANY then True
      else if nif_flags netif AND NETIF_FLAG_BROADCAST = 0 then False
      else if addr = nif_ip_addr netif then False
      else if ip_addr_netcmp addr (nif_ip_addr netif) (nif_netmask netif) \<and>
        addr AND NOT (nif_netmask netif) = IPADDR_BROADCAST AND NOT (nif_netmask netif) then True
      else False)"

lemma drop_bit_1_less: "w \<noteq> 0 \<Longrightarrow> unat (drop_bit (Suc 0) w) < unat w" for w :: u32
  using unat_drop_bit_div [of 1 w] by (simp add: unat_gt_0)

text \<open>The two loops of \<open>ip4_addr_netmask_valid\<close>: the msk at the first zero, and that no one follows.\<close>

function first_zero :: "u32 \<Rightarrow> u32 \<Rightarrow> u32" where
  "first_zero nm msk =
     (if msk = 0 then msk
      else if nm AND msk = 0 then msk
      else first_zero nm (drop_bit 1 msk))"
  by pat_completeness auto
termination
  by (relation "measure (\<lambda>(nm, msk). unat msk)") (simp_all add: drop_bit_1_less)

function no_more_ones :: "u32 \<Rightarrow> u32 \<Rightarrow> bool" where
  "no_more_ones nm msk =
     (if msk = 0 then True
      else if nm AND msk \<noteq> 0 then False
      else no_more_ones nm (drop_bit 1 msk))"
  by pat_completeness auto
termination
  by (relation "measure (\<lambda>(nm, msk). unat msk)") (simp_all add: drop_bit_1_less)

declare first_zero.simps [simp del] no_more_ones.simps [simp del]

definition ip4_addr_netmask_valid :: "u32 \<Rightarrow> bool" where
  "ip4_addr_netmask_valid netmask =
     (let nm_hostorder = bswap32 netmask in
      no_more_ones nm_hostorder (first_zero nm_hostorder (push_bit 31 1)))"

section \<open>Reading an address\<close>

definition in_range :: "u8 \<Rightarrow> u8 \<Rightarrow> u8 \<Rightarrow> bool" where
  "in_range c lo up \<longleftrightarrow> lo \<le> c \<and> c \<le> up"

definition isdigit :: "u8 \<Rightarrow> bool" where "isdigit c = in_range c 0x30 0x39"

definition isxdigit :: "u8 \<Rightarrow> bool" where
  "isxdigit c \<longleftrightarrow> isdigit c \<or> in_range c 0x61 0x66 \<or> in_range c 0x41 0x46"

definition islower :: "u8 \<Rightarrow> bool" where "islower c = in_range c 0x61 0x7A"

definition isspace :: "u8 \<Rightarrow> bool" where
  "isspace c \<longleftrightarrow> c = 0x20 \<or> c = 0x0C \<or> c = 0x0A \<or> c = 0x0D \<or> c = 0x09 \<or> c = 0x0B"

text \<open>The digits of one number in the given base, and what follows them.\<close>

fun scan_digits :: "u32 \<Rightarrow> u32 \<Rightarrow> bytes \<Rightarrow> u32 \<times> bytes" where
  "scan_digits base val [] = (val, [])"
| "scan_digits base val (c # cs) =
     (if isdigit c then scan_digits base (val * base + (ucast c - 0x30)) cs
      else if base = 16 \<and> isxdigit c
      then scan_digits base (push_bit 4 val OR (ucast c + 10 - (if islower c then 0x61 else 0x41))) cs
      else (val, c # cs))"

definition scan_number :: "bytes \<Rightarrow> (u32 \<times> bytes) option" where
  "scan_number cp =
     (case cp of
        [] \<Rightarrow> None
      | c # cs \<Rightarrow>
          if \<not> isdigit c then None
          else if c = 0x30 then
            Some (if cs \<noteq> [] \<and> (hd cs = 0x78 \<or> hd cs = 0x58) then scan_digits 16 0 (tl cs) else scan_digits 8 0 cs)
          else Some (scan_digits 10 0 cp))"

text \<open>The loop over the parts: \<open>slots\<close> entries of \<open>parts\<close> are free.\<close>

fun aton_loop :: "nat \<Rightarrow> u32 list \<Rightarrow> bytes \<Rightarrow> (u32 list \<times> u32 \<times> bytes) option" where
  "aton_loop slots parts cp =
     (case scan_number cp of
        None \<Rightarrow> None
      | Some (val, cp) \<Rightarrow>
          if cp \<noteq> [] \<and> hd cp = 0x2E
          then (case slots of 0 \<Rightarrow> None | Suc n \<Rightarrow> aton_loop n (parts @ [val]) (tl cp))
          else Some (parts, val, cp))"

definition aton_value :: "u32 list \<Rightarrow> u32 \<Rightarrow> u32 option" where
  "aton_value parts val =
     (if length parts = 0 then Some val
      else if length parts = 1
      then if 0xFFFFFF < val then None else Some (val OR push_bit 24 (parts ! 0))
      else if length parts = 2
      then if 0xFFFF < val then None else Some (val OR (push_bit 24 (parts ! 0) OR push_bit 16 (parts ! 1)))
      else if length parts = 3
      then if 0xFF < val then None
        else Some (val OR (push_bit 24 (parts ! 0) OR push_bit 16 (parts ! 1) OR push_bit 8 (parts ! 2)))
      else Some val)"

definition ipaddr_aton :: "bytes \<Rightarrow> u32 option" where
  "ipaddr_aton cp =
     (case aton_loop 3 [] cp of
        None \<Rightarrow> None
      | Some (parts, val, cp) \<Rightarrow>
          if cp \<noteq> [] \<and> \<not> isspace (hd cp) then None
          else map_option bswap32 (aton_value parts val))"

definition ipaddr_addr :: "bytes \<Rightarrow> u32" where
  "ipaddr_addr cp = (case ipaddr_aton cp of Some val \<Rightarrow> val | None \<Rightarrow> IPADDR_NONE)"

section \<open>Printing an address\<close>

text \<open>The decimal digits of an octet, last digit first, as the \<open>do\<close> loop leaves them in \<open>inv\<close>.\<close>

function inv_digits :: "u8 \<Rightarrow> bytes" where
  "inv_digits ap =
     (let rem = ap mod 10; ap = ap div 10 in
      (0x30 + rem) # (if ap = 0 then [] else inv_digits ap))"
  by pat_completeness auto
termination
proof (relation "measure unat")
  fix rem ap x :: u8
  assume a: "ap = x div 10" "ap \<noteq> 0"
  have "unat ap = unat x div 10" by (simp add: a(1) unat_div)
  moreover have "0 < unat ap" using a(2) by (simp only: unat_gt_0) simp
  ultimately have "unat ap < unat x" by linarith
  then show "(ap, x) \<in> measure unat" by simp
qed simp

declare inv_digits.simps [simp del]

text \<open>One guarded store to the buffer: \<open>len++ >= buflen\<close> is the length written so far.\<close>

fun put_chars :: "int \<Rightarrow> bytes \<Rightarrow> bytes \<Rightarrow> bytes option" where
  "put_chars buflen out [] = Some out"
| "put_chars buflen out (c # cs) =
     (if buflen \<le> int (length out) then None else put_chars buflen (out @ [c]) cs)"

fun put_octets :: "int \<Rightarrow> bytes \<Rightarrow> bytes \<Rightarrow> bytes option" where
  "put_octets buflen out [] = Some out"
| "put_octets buflen out (ap # aps) =
     (case put_chars buflen out (rev (inv_digits ap)) of
        None \<Rightarrow> None
      | Some out \<Rightarrow>
          (case put_chars buflen out [0x2E] of
             None \<Rightarrow> None
           | Some out \<Rightarrow> put_octets buflen out aps))"

text \<open>The last dot is overwritten by the terminating zero.\<close>

definition ipaddr_ntoa_r :: "u32 \<Rightarrow> int \<Rightarrow> bytes option" where
  "ipaddr_ntoa_r addr buflen = map_option butlast (put_octets buflen [] (to_le 4 addr))"

end
