(* ===== verification/Mempool.thy ===== *)
theory Mempool
  imports Pbuf "HOL-Library.Multiset"
begin

text \<open>
  Pools of fixed-size elements: the model of \<open>dp/core/mempool.c\<close> and \<open>inc/ix/mempool.h\<close>. Free elements
  are linked through their own memory, by \<open>next\<close> within a chunk and by \<open>next_chunk\<close> between the
  chunks of a data store; the store \<open>mheap\<close> holds these two links of every element, by its address.
\<close>

section \<open>State\<close>

record mheap =
  mh_next :: "nat \<Rightarrow> ptr"
  mh_next_chunk :: "nat \<Rightarrow> ptr"

record mempool_datastore =
  ds_magic :: u64
  ds_chunk_head :: ptr
  ds_buf :: nat
  ds_nr_pages :: nat
  ds_nr_elems :: nat
  ds_elem_len :: nat
  ds_nostraddle :: bool
  ds_chunk_size :: int
  ds_num_chunks :: int
  ds_free_chunks :: int
  ds_num_locks :: int
  ds_iomap_addr :: ptr
  ds_iomap_offset :: u64

record mempool =
  mp_head :: ptr
  mp_num_free :: int
  mp_elem_len :: nat
  mp_magic :: u64
  mp_buf :: nat
  mp_private_chunk :: ptr
  mp_sanity :: int
  mp_nr_elems :: nat
  mp_nostraddle :: bool
  mp_chunk_size :: int
  mp_iomap_addr :: ptr
  mp_iomap_offset :: u64

text \<open>A pool with its data store and the memory of the elements.\<close>

record pool =
  pl_heap :: mheap
  pl_ds :: mempool_datastore
  pl_mp :: mempool

definition MEMPOOL_MAGIC :: u64 where "MEMPOOL_MAGIC = 0x12911776"

section \<open>Allocation\<close>

definition mempool_alloc_2 :: "pool \<Rightarrow> (ptr \<times> pool) res" where
  "mempool_alloc_2 s =
     (let m = pl_mp s; ds = pl_ds s; h = pl_heap s in
      rbind (assert_that (mp_magic m = MEMPOOL_MAGIC)) (\<lambda>_.
      rbind (assert_that (mp_head m = None)) (\<lambda>_.
        case mp_private_chunk m of
          Some a \<Rightarrow> Inr (Some a, s\<lparr>pl_mp := m\<lparr>mp_head := mh_next h a, mp_private_chunk := None\<rparr>\<rparr>)
        | None \<Rightarrow>
            (case ds_chunk_head ds of
               None \<Rightarrow> Inr (None, s)
             | Some a \<Rightarrow>
                 Inr (Some a, s\<lparr>pl_ds := ds\<lparr>ds_chunk_head := mh_next_chunk h a,
                        ds_free_chunks := ds_free_chunks ds - 1, ds_num_locks := ds_num_locks ds + 1\<rparr>,
                      pl_mp := m\<lparr>mp_head := mh_next h a\<rparr>\<rparr>)))))"

definition mempool_alloc :: "pool \<Rightarrow> (ptr \<times> pool) res" where
  "mempool_alloc s =
     (let m = pl_mp s in
      case mp_head m of
        Some a \<Rightarrow>
          Inr (Some a, s\<lparr>pl_mp := m\<lparr>mp_head := mh_next (pl_heap s) a, mp_num_free := mp_num_free m - 1\<rparr>\<rparr>)
      | None \<Rightarrow> mempool_alloc_2 s)"

definition mempool_free_2 :: "pool \<Rightarrow> nat \<Rightarrow> pool res" where
  "mempool_free_2 s elem =
     (let m = pl_mp s; ds = pl_ds s; h = pl_heap s in
      rbind (assert_that (mp_num_free m = mp_chunk_size m)) (\<lambda>_.
        let h1 = h\<lparr>mh_next := (mh_next h)(elem := None)\<rparr>;
          (h2, ds2) =
            (case mp_private_chunk m of
               None \<Rightarrow> (h1, ds)
             | Some c \<Rightarrow>
                 (h1\<lparr>mh_next_chunk := (mh_next_chunk h1)(c := ds_chunk_head ds)\<rparr>,
                  ds\<lparr>ds_chunk_head := Some c, ds_free_chunks := ds_free_chunks ds + 1,
                    ds_num_locks := ds_num_locks ds + 1\<rparr>)) in
        Inr (s\<lparr>pl_heap := h2, pl_ds := ds2,
          pl_mp := m\<lparr>mp_private_chunk := mp_head m, mp_head := Some elem, mp_num_free := 1\<rparr>\<rparr>)))"

definition mempool_free :: "pool \<Rightarrow> nat \<Rightarrow> pool res" where
  "mempool_free s elem =
     (let m = pl_mp s; h = pl_heap s in
      if mp_num_free m < mp_chunk_size m then
        Inr (s\<lparr>pl_heap := h\<lparr>mh_next := (mh_next h)(elem := mp_head m)\<rparr>,
          pl_mp := m\<lparr>mp_num_free := mp_num_free m + 1, mp_head := Some elem\<rparr>\<rparr>)
      else mempool_free_2 s elem)"

section \<open>Addresses of elements\<close>

text \<open>The addresses in a pool without gaps, and in the address space of the user.\<close>

definition mempool_idx_to_ptr :: "mempool \<Rightarrow> nat \<Rightarrow> nat \<Rightarrow> nat res" where
  "mempool_idx_to_ptr m idx elem_len =
     rbind (assert_that (idx < mp_nr_elems m)) (\<lambda>_.
     rbind (assert_that (\<not> mp_nostraddle m)) (\<lambda>_. Inr (mp_buf m + elem_len * idx)))"

definition mempool_ptr_to_idx :: "mempool \<Rightarrow> nat \<Rightarrow> nat \<Rightarrow> nat res" where
  "mempool_ptr_to_idx m p elem_len =
     (let x = (p - mp_buf m) div elem_len in
      rbind (assert_that (x < mp_nr_elems m)) (\<lambda>_. Inr x))"

definition mempool_pagemem_to_iomap :: "mempool \<Rightarrow> u64 \<Rightarrow> u64 res" where
  "mempool_pagemem_to_iomap m ptr =
     rbind (assert_that (mp_iomap_offset m \<noteq> 0)) (\<lambda>_. Inr (ptr + mp_iomap_offset m))"

definition mempool_iomap_to_ptr :: "mempool \<Rightarrow> u64 \<Rightarrow> u64 res" where
  "mempool_iomap_to_ptr m ioptr =
     rbind (assert_that (mp_iomap_offset m \<noteq> 0)) (\<lambda>_. Inr (ioptr - mp_iomap_offset m))"

section \<open>Creation\<close>

definition PGSIZE_2MB :: nat where "PGSIZE_2MB = 2 ^ 21"

text \<open>
  The state of the loops of \<open>mempool_init_buf_with_pages\<close>: the chunk under construction starts at
  \<open>head\<close> and ends at \<open>prev\<close>.
\<close>

record init_st =
  is_heap :: mheap
  is_ds :: mempool_datastore
  is_head :: ptr
  is_prev :: ptr
  is_count :: int

definition init_elem :: "init_st \<Rightarrow> nat \<Rightarrow> init_st" where
  "init_elem s cur =
     (let (h, hd) = (case is_prev s of
             None \<Rightarrow> (is_heap s, Some cur)
           | Some p \<Rightarrow> ((is_heap s)\<lparr>mh_next := (mh_next (is_heap s))(p := Some cur)\<rparr>, is_head s));
        count = is_count s + 1; ds = is_ds s in
      if count = ds_chunk_size ds then
        let h' = (case ds_chunk_head ds of
              None \<Rightarrow> h
            | Some c \<Rightarrow> h\<lparr>mh_next_chunk := (mh_next_chunk h)(the hd := Some c)\<rparr>) in
        \<lparr>is_heap = h', is_ds = ds\<lparr>ds_chunk_head := hd, ds_num_chunks := ds_num_chunks ds + 1,
            ds_free_chunks := ds_free_chunks ds + 1\<rparr>, is_head = None, is_prev = None, is_count = 0\<rparr>
      else \<lparr>is_heap = h, is_ds = ds, is_head = hd, is_prev = Some cur, is_count = count\<rparr>)"

text \<open>The addresses the loops visit: \<open>elems_per_page\<close> elements on each of \<open>nr_pages\<close> pages.\<close>

definition elem_addrs :: "nat \<Rightarrow> nat \<Rightarrow> nat \<Rightarrow> nat \<Rightarrow> nat list" where
  "elem_addrs buf elems_per_page nr_pages elem_len =
     concat (map (\<lambda>i. map (\<lambda>j. buf + i * PGSIZE_2MB + j * elem_len) [0..<elems_per_page]) [0..<nr_pages])"

definition mempool_init_buf_with_pages ::
  "mheap \<Rightarrow> mempool_datastore \<Rightarrow> nat \<Rightarrow> nat \<Rightarrow> nat \<Rightarrow> mheap \<times> mempool_datastore" where
  "mempool_init_buf_with_pages h ds elems_per_page nr_pages elem_len =
     (let s = foldl init_elem \<lparr>is_heap = h, is_ds = ds, is_head = None, is_prev = None, is_count = 0\<rparr>
                (elem_addrs (ds_buf ds) elems_per_page nr_pages elem_len) in
      (is_heap s, is_ds s))"

text \<open>
  \<open>mempool_create_datastore\<close>: \<open>buf\<close> is what the page allocator returns. \<open>None\<close> is the result
  \<open>-EINVAL\<close>. A division by zero, for a chunk size of zero or elements larger than a page, traps.
\<close>

definition mempool_create_datastore ::
  "mheap \<Rightarrow> mempool_datastore \<Rightarrow> ptr \<Rightarrow> nat \<Rightarrow> nat \<Rightarrow> bool \<Rightarrow> nat \<Rightarrow> (mheap \<times> mempool_datastore) option res" where
  "mempool_create_datastore h ds buf nr_elems elem_len nostraddle chunk_size =
     rbind (assert_that (ds_magic ds = 0)) (\<lambda>_.
     rbind (assert_that (chunk_size AND (chunk_size - 1) = 0)) (\<lambda>_.
     rbind (if chunk_size = 0 then Inl Panicked else assert_that (nr_elems div chunk_size * chunk_size = nr_elems)) (\<lambda>_.
       if elem_len = 0 \<or> nr_elems = 0 then Inr None
       else
         let elem_len = (elem_len + 7) div 8 * 8;
           elems_per_page = PGSIZE_2MB div elem_len;
           nr_pages = (if nostraddle then (nr_elems + elems_per_page - 1) div elems_per_page
             else (nr_elems * elem_len + (PGSIZE_2MB - 1)) div PGSIZE_2MB);
           nr_elems = (if nostraddle then nr_elems else nr_pages * PGSIZE_2MB div elem_len) in
         if nostraddle \<and> elems_per_page = 0 then Inl Panicked
         else case buf of
           None \<Rightarrow> Inl (if nostraddle then AssertFailed else Panicked)
         | Some a \<Rightarrow>
             let ds = ds\<lparr>ds_magic := MEMPOOL_MAGIC, ds_buf := a, ds_nr_pages := nr_pages, ds_nr_elems := nr_elems,
                   ds_elem_len := elem_len, ds_chunk_size := int chunk_size, ds_nostraddle := nostraddle\<rparr> in
             Inr (Some (if nostraddle then mempool_init_buf_with_pages h ds elems_per_page nr_pages elem_len
               else mempool_init_buf_with_pages h ds nr_elems 1 elem_len)))))"

definition mempool_create :: "mempool \<Rightarrow> mempool_datastore \<Rightarrow> int \<Rightarrow> int \<Rightarrow> mempool res" where
  "mempool_create m ds sanity_type sanity_id =
     (if ds_magic ds \<noteq> MEMPOOL_MAGIC then Inl Panicked
      else if mp_magic m \<noteq> 0 then Inl Panicked
      else Inr (m\<lparr>mp_magic := MEMPOOL_MAGIC, mp_buf := ds_buf ds, mp_head := None,
        mp_sanity := or (push_bit 16 sanity_type) sanity_id, mp_nr_elems := ds_nr_elems ds,
        mp_elem_len := ds_elem_len ds, mp_nostraddle := ds_nostraddle ds, mp_chunk_size := ds_chunk_size ds,
        mp_iomap_addr := ds_iomap_addr ds, mp_iomap_offset := ds_iomap_offset ds\<rparr>))"

text \<open>The memory itself goes back to the page allocator.\<close>

definition mempool_destroy_datastore :: "mempool_datastore \<Rightarrow> mempool_datastore" where
  "mempool_destroy_datastore ds = ds\<lparr>ds_buf := 0, ds_chunk_head := None, ds_magic := 0\<rparr>"

text \<open>\<open>addr\<close> is what \<open>vm_map_to_user\<close> returns.\<close>

definition mempool_pagemem_map_to_user :: "mempool_datastore \<Rightarrow> ptr \<Rightarrow> bool \<times> mempool_datastore" where
  "mempool_pagemem_map_to_user ds addr =
     (case addr of
        None \<Rightarrow> (False, ds\<lparr>ds_iomap_addr := None\<rparr>)
      | Some a \<Rightarrow> (True, ds\<lparr>ds_iomap_addr := Some a, ds_iomap_offset := of_nat a - of_nat (ds_buf ds)\<rparr>))"

definition mempool_pagemem_destroy :: "mempool_datastore \<Rightarrow> mempool_datastore" where
  "mempool_pagemem_destroy ds = ds\<lparr>ds_iomap_addr := None, ds_buf := 0, ds_chunk_head := None\<rparr>"


section \<open>Chains of free elements\<close>

fun free_list :: "mheap \<Rightarrow> ptr \<Rightarrow> nat list \<Rightarrow> bool" where
  "free_list h p [] \<longleftrightarrow> p = None"
| "free_list h p (a # as) \<longleftrightarrow> p = Some a \<and> free_list h (mh_next h a) as"

fun chunk_list :: "mheap \<Rightarrow> ptr \<Rightarrow> nat list list \<Rightarrow> bool" where
  "chunk_list h p [] \<longleftrightarrow> p = None"
| "chunk_list h p (c # cs) \<longleftrightarrow>
     c \<noteq> [] \<and> p = Some (hd c) \<and> free_list h p c \<and> chunk_list h (mh_next_chunk h (hd c)) cs"

lemma free_list_unique: "free_list h p as \<Longrightarrow> free_list h p bs \<Longrightarrow> as = bs"
proof (induction as arbitrary: p bs)
  case Nil
  then show ?case by (cases bs) auto
next
  case (Cons a as)
  then show ?case by (cases bs) auto
qed

lemma chunk_list_unique: "chunk_list h p cs \<Longrightarrow> chunk_list h p ds \<Longrightarrow> cs = ds"
proof (induction cs arbitrary: p ds)
  case Nil
  then show ?case by (cases ds) auto
next
  case (Cons c cs)
  then obtain d ds' where d: "ds = d # ds'" by (cases ds) auto
  then have "c = d" using Cons.prems free_list_unique by auto
  then show ?case using Cons d by auto
qed

lemma free_list_cong:
  "(\<And>a. a \<in> set as \<Longrightarrow> mh_next h' a = mh_next h a) \<Longrightarrow> free_list h' p as = free_list h p as"
  by (induction as arbitrary: p) auto

lemma chunk_list_cong:
  "(\<And>a. a \<in> set (concat cs) \<Longrightarrow> mh_next h' a = mh_next h a \<and> mh_next_chunk h' a = mh_next_chunk h a) \<Longrightarrow>
     chunk_list h' p cs = chunk_list h p cs"
proof (induction cs arbitrary: p)
  case (Cons c cs)
  have 1: "free_list h' p c = free_list h p c" by (rule free_list_cong) (simp add: Cons.prems)
  have 2: "chunk_list h' q cs = chunk_list h q cs" for q by (rule Cons.IH) (simp add: Cons.prems)
  have 3: "mh_next_chunk h' (hd c) = mh_next_chunk h (hd c)" if "c \<noteq> []" using that Cons.prems [of "hd c"] by simp
  show ?case
  proof (cases "c = []")
    case False
    then show ?thesis by (simp only: chunk_list.simps 1 2 3 [OF False])
  next
    case True
    then show ?thesis by (simp only: chunk_list.simps simp_thms)
  qed
qed simp

text \<open>
  The invariant of a pool: the chain of the pool, its private chunk and the chunks of the data store
  are disjoint chains of distinct elements, and \<open>num_free\<close> never exceeds the chunk size.
  \<open>free_elems\<close> is the multiset of all elements they hold.
\<close>

definition pool_rep :: "pool \<Rightarrow> nat list \<Rightarrow> nat list \<Rightarrow> nat list list \<Rightarrow> bool" where
  "pool_rep s xs ps cs \<longleftrightarrow>
     free_list (pl_heap s) (mp_head (pl_mp s)) xs \<and> free_list (pl_heap s) (mp_private_chunk (pl_mp s)) ps \<and>
     chunk_list (pl_heap s) (ds_chunk_head (pl_ds s)) cs \<and> distinct (xs @ ps @ concat cs) \<and>
     mp_magic (pl_mp s) = MEMPOOL_MAGIC \<and> mp_num_free (pl_mp s) \<le> mp_chunk_size (pl_mp s) \<and>
     0 < mp_chunk_size (pl_mp s)"

definition pool_inv :: "pool \<Rightarrow> bool" where
  "pool_inv s \<longleftrightarrow> (\<exists>xs ps cs. pool_rep s xs ps cs)"

definition holds_free :: "pool \<Rightarrow> nat set \<Rightarrow> bool" where
  "holds_free s F \<longleftrightarrow> (\<exists>xs ps cs. pool_rep s xs ps cs \<and> F = set (xs @ ps @ concat cs))"

lemma holds_free_unique: "holds_free s F \<Longrightarrow> holds_free s G \<Longrightarrow> F = G"
  unfolding holds_free_def pool_rep_def using free_list_unique chunk_list_unique by metis

lemma mempool_alloc_correct:
  assumes "holds_free s F"
  shows "\<exists>r s'. mempool_alloc s = Inr (r, s') \<and>
    (case r of None \<Rightarrow> F = {} \<and> s' = s | Some a \<Rightarrow> a \<in> F \<and> holds_free s' (F - {a}))"
proof -
  obtain xs ps cs where r: "pool_rep s xs ps cs" and F: "F = set (xs @ ps @ concat cs)"
    using assms by (auto simp: holds_free_def)
  have res: "\<exists>r s'. mempool_alloc s = Inr (r, s') \<and>
      (case r of None \<Rightarrow> F = {} \<and> s' = s | Some a \<Rightarrow> a \<in> F \<and> holds_free s' (F - {a}))"
    if "mempool_alloc s = Inr (Some a, s')" "pool_rep s' xs' ps' cs'" "F = insert a (set (xs' @ ps' @ concat cs'))"
      "a \<notin> set (xs' @ ps' @ concat cs')" for a s' xs' ps' cs'
  proof -
    have "F - {a} = set (xs' @ ps' @ concat cs')" using that(3,4) by blast
    then have "holds_free s' (F - {a})" using that(2) unfolding holds_free_def by blast
    then show ?thesis using that(1,3) by (intro exI [of _ "Some a"] exI [of _ s']) simp
  qed
  show ?thesis
  proof (cases xs)
    case (Cons a as)
    let ?s = "s\<lparr>pl_mp := (pl_mp s)\<lparr>mp_head := mh_next (pl_heap s) a, mp_num_free := mp_num_free (pl_mp s) - 1\<rparr>\<rparr>"
    have run: "mempool_alloc s = Inr (Some a, ?s)" using r Cons by (simp add: pool_rep_def mempool_alloc_def Let_def)
    have rep: "pool_rep ?s as ps cs" using r Cons by (auto simp: pool_rep_def)
    show ?thesis by (rule res [OF run rep]) (use r F Cons in \<open>auto simp: pool_rep_def\<close>)
  next
    case Nil
    then have h: "mp_head (pl_mp s) = None" "mp_magic (pl_mp s) = MEMPOOL_MAGIC" using r by (auto simp: pool_rep_def)
    show ?thesis
    proof (cases ps)
      case (Cons a as)
      let ?s = "s\<lparr>pl_mp := (pl_mp s)\<lparr>mp_head := mh_next (pl_heap s) a, mp_private_chunk := None\<rparr>\<rparr>"
      have run: "mempool_alloc s = Inr (Some a, ?s)"
        using r h Cons by (simp add: pool_rep_def mempool_alloc_def mempool_alloc_2_def Let_def)
      have rep: "pool_rep ?s as [] cs" using r Nil Cons by (auto simp: pool_rep_def)
      show ?thesis by (rule res [OF run rep]) (use r F Nil Cons in \<open>auto simp: pool_rep_def\<close>)
    next
      case pn: Nil
      show ?thesis
      proof (cases cs)
        case (Cons c cs')
        then obtain a as where c: "c = a # as" using r by (cases c) (auto simp: pool_rep_def)
        let ?ds = "(pl_ds s)\<lparr>ds_chunk_head := mh_next_chunk (pl_heap s) a,
            ds_free_chunks := ds_free_chunks (pl_ds s) - 1, ds_num_locks := ds_num_locks (pl_ds s) + 1\<rparr>"
        let ?s = "s\<lparr>pl_ds := ?ds, pl_mp := (pl_mp s)\<lparr>mp_head := mh_next (pl_heap s) a\<rparr>\<rparr>"
        have run: "mempool_alloc s = Inr (Some a, ?s)"
          using r h pn Cons c by (simp add: pool_rep_def mempool_alloc_def mempool_alloc_2_def Let_def)
        have rep: "pool_rep ?s as [] cs'" using r Nil pn Cons c by (auto simp: pool_rep_def)
        show ?thesis by (rule res [OF run rep]) (use r F Nil pn Cons c in \<open>auto simp: pool_rep_def\<close>)
      next
        case cn: Nil
        have "mempool_alloc s = Inr (None, s)"
          using r h pn cn by (simp add: pool_rep_def mempool_alloc_def mempool_alloc_2_def Let_def)
        then show ?thesis using F Nil pn cn by simp
      qed
    qed
  qed
qed

lemma mempool_free_correct:
  assumes "holds_free s F" "e \<notin> F"
  shows "\<exists>s'. mempool_free s e = Inr s' \<and> holds_free s' (insert e F) \<and> mp_head (pl_mp s') = Some e"
proof -
  obtain xs ps cs where r: "pool_rep s xs ps cs" and F: "F = set (xs @ ps @ concat cs)"
    using assms by (auto simp: holds_free_def)
  let ?h = "pl_heap s" and ?m = "pl_mp s" and ?ds = "pl_ds s"
  have e: "e \<notin> set xs" "e \<notin> set ps" "e \<notin> set (concat cs)" using assms(2) F by auto
  have fl: "free_list h' p as = free_list ?h p as" if "e \<notin> set as" "\<And>a. a \<noteq> e \<Longrightarrow> mh_next h' a = mh_next ?h a" for h' p as
    using that by (intro free_list_cong) metis
  show ?thesis
  proof (cases "mp_num_free ?m < mp_chunk_size ?m")
    case True
    let ?h' = "?h\<lparr>mh_next := (mh_next ?h)(e := mp_head ?m)\<rparr>"
    let ?s = "s\<lparr>pl_heap := ?h', pl_mp := ?m\<lparr>mp_num_free := mp_num_free ?m + 1, mp_head := Some e\<rparr>\<rparr>"
    have "chunk_list ?h' p cs = chunk_list ?h p cs" for p using e by (intro chunk_list_cong) auto
    then have "pool_rep ?s (e # xs) ps cs" using r e True fl [of xs ?h'] fl [of ps ?h'] by (auto simp: pool_rep_def)
    moreover have "mempool_free s e = Inr ?s" using True by (simp add: mempool_free_def Let_def)
    ultimately show ?thesis using F by (intro exI [of _ ?s]) (auto simp: holds_free_def intro!: exI)
  next
    case False
    then have nf: "mp_num_free ?m = mp_chunk_size ?m" using r by (simp add: pool_rep_def)
    let ?h1 = "?h\<lparr>mh_next := (mh_next ?h)(e := None)\<rparr>"
    define h2 where "h2 = (case mp_private_chunk ?m of None \<Rightarrow> ?h1
      | Some c \<Rightarrow> ?h1\<lparr>mh_next_chunk := (mh_next_chunk ?h1)(c := ds_chunk_head ?ds)\<rparr>)"
    define ds2 where "ds2 = (case mp_private_chunk ?m of None \<Rightarrow> ?ds
      | Some c \<Rightarrow> ?ds\<lparr>ds_chunk_head := Some c, ds_free_chunks := ds_free_chunks ?ds + 1, ds_num_locks := ds_num_locks ?ds + 1\<rparr>)"
    let ?s = "s\<lparr>pl_heap := h2, pl_ds := ds2,
      pl_mp := ?m\<lparr>mp_private_chunk := mp_head ?m, mp_head := Some e, mp_num_free := 1\<rparr>\<rparr>"
    have run: "mempool_free s e = Inr ?s"
      using nf by (simp add: mempool_free_def mempool_free_2_def Let_def h2_def ds2_def split: option.split)
    have nx: "mh_next h2 = (mh_next ?h)(e := None)" by (simp add: h2_def split: option.split)
    have fx: "free_list h2 p as = free_list ?h p as" if "e \<notin> set as" for p as using that nx by (intro fl) auto
    let ?cs = "if ps = [] then cs else ps # cs"
    have "chunk_list h2 (ds_chunk_head ds2) ?cs"
    proof (cases ps)
      case Nil
      then have "mp_private_chunk ?m = None" using r by (simp add: pool_rep_def)
      moreover have "chunk_list h2 p cs = chunk_list ?h p cs" for p
        using e calculation by (intro chunk_list_cong) (auto simp: h2_def)
      ultimately show ?thesis using r Nil by (simp add: pool_rep_def ds2_def)
    next
      case (Cons c ps')
      then have p: "mp_private_chunk ?m = Some c" using r by (simp add: pool_rep_def)
      have "chunk_list h2 p cs = chunk_list ?h p cs" for p
        using e r Cons by (intro chunk_list_cong) (auto simp: h2_def p pool_rep_def)
      then show ?thesis using r Cons p fx [OF e(2), of "Some c"]
        by (simp add: pool_rep_def ds2_def) (simp add: h2_def)
    qed
    moreover have "distinct ([e] @ xs @ concat ?cs)" using r e by (auto simp: pool_rep_def)
    moreover have "free_list h2 (Some e) [e]" using nx by simp
    moreover have "free_list h2 (mp_head ?m) xs" using r fx [OF e(1)] by (simp add: pool_rep_def)
    ultimately have "pool_rep ?s [e] xs ?cs" using r nf by (simp add: pool_rep_def)
    moreover have "insert e F = set ([e] @ xs @ concat ?cs)" using F by auto
    ultimately have "holds_free ?s (insert e F)" unfolding holds_free_def by blast
    then show ?thesis using run by (intro exI [of _ ?s]) simp
  qed
qed


section \<open>The chunks of a new data store\<close>

text \<open>
  What the loops have built after the elements \<open>dn\<close>: full chunks \<open>cs\<close> of \<open>k\<close> elements and the chunk
  \<open>cur\<close> under construction. The links of all other elements are still zero.
\<close>

definition init_rep :: "nat \<Rightarrow> init_st \<Rightarrow> nat list \<Rightarrow> nat list list \<Rightarrow> nat list \<Rightarrow> bool" where
  "init_rep k s dn cs cur \<longleftrightarrow>
     chunk_list (is_heap s) (ds_chunk_head (is_ds s)) cs \<and> (\<forall>c \<in> set cs. length c = k) \<and>
     is_head s = (if cur = [] then None else Some (hd cur)) \<and> is_prev s = (if cur = [] then None else Some (last cur)) \<and>
     is_count s = int (length cur) \<and> free_list (is_heap s) (is_head s) cur \<and> length cur < k \<and>
     distinct (concat cs @ cur) \<and> set (concat cs @ cur) = set dn \<and> ds_chunk_size (is_ds s) = int k \<and>
     (\<forall>a. a \<notin> set dn \<longrightarrow> mh_next (is_heap s) a = None) \<and>
     (\<forall>a. a \<notin> set (concat cs) \<longrightarrow> mh_next_chunk (is_heap s) a = None)"

lemma free_list_snoc:
  assumes "free_list h p as" "as \<noteq> []" "distinct as" "b \<notin> set as" "mh_next h b = None"
  shows "free_list (h\<lparr>mh_next := (mh_next h)(last as := Some b)\<rparr>) p (as @ [b])"
  using assms
proof (induction as arbitrary: p)
  case (Cons a as)
  show ?case
  proof (cases "as = []")
    case False
    then have "last as \<in> set as" by simp
    then have "a \<noteq> last as" using Cons.prems(3) by auto
    then show ?thesis using Cons False by simp
  qed (use Cons.prems in auto)
qed simp

lemma init_elem_correct:
  assumes r: "init_rep k s dn cs cur" and new: "x \<notin> set dn"
  shows "\<exists>cs' cur'. init_rep k (init_elem s x) (dn @ [x]) cs' cur'"
proof -
  note r' = r [unfolded init_rep_def]
  have xn: "x \<notin> set cur" "x \<notin> set (concat cs)" "mh_next (is_heap s) x = None" using r' new by auto
  define h where "h = (case is_prev s of None \<Rightarrow> is_heap s
    | Some p \<Rightarrow> (is_heap s)\<lparr>mh_next := (mh_next (is_heap s))(p := Some x)\<rparr>)"
  define hd1 where "hd1 = (case is_prev s of None \<Rightarrow> Some x | Some p \<Rightarrow> is_head s)"
  have step: "init_elem s x = (let count = is_count s + 1; ds = is_ds s in
      if count = ds_chunk_size ds then
        let h' = (case ds_chunk_head ds of None \<Rightarrow> h | Some c \<Rightarrow> h\<lparr>mh_next_chunk := (mh_next_chunk h)(the hd1 := Some c)\<rparr>) in
        \<lparr>is_heap = h', is_ds = ds\<lparr>ds_chunk_head := hd1, ds_num_chunks := ds_num_chunks ds + 1,
            ds_free_chunks := ds_free_chunks ds + 1\<rparr>, is_head = None, is_prev = None, is_count = 0\<rparr>
      else \<lparr>is_heap = h, is_ds = ds, is_head = hd1, is_prev = Some x, is_count = count\<rparr>)"
    by (cases "is_prev s"; cases "ds_chunk_head (is_ds s)") (simp_all add: init_elem_def h_def hd1_def Let_def)
  have hd1: "hd1 = Some (hd (cur @ [x]))" using r' by (auto simp: hd1_def hd_append)
  have fl: "free_list h hd1 (cur @ [x])"
  proof (cases "cur = []")
    case True
    then show ?thesis using r' xn by (simp add: h_def hd1_def)
  next
    case False
    then have "h = (is_heap s)\<lparr>mh_next := (mh_next (is_heap s))(last cur := Some x)\<rparr>" "hd1 = is_head s"
      using r' by (simp_all add: h_def hd1_def)
    moreover have "free_list (is_heap s) (is_head s) cur" "distinct cur" using r' by auto
    ultimately show ?thesis using free_list_snoc [OF _ False _ xn(1,3)] by metis
  qed
  have nx: "mh_next h a = mh_next (is_heap s) a" if "a \<notin> set cur" for a
    using r' that by (auto simp: h_def)
  have nc: "mh_next_chunk h = mh_next_chunk (is_heap s)" by (simp add: h_def split: option.split)
  have disj: "set cur \<inter> set (concat cs) = {}" using r' by auto
  have cl: "chunk_list h p cs = chunk_list (is_heap s) p cs" for p
  proof (rule chunk_list_cong)
    fix a
    assume "a \<in> set (concat cs)"
    then have "a \<notin> set cur" using disj by blast
    then show "mh_next h a = mh_next (is_heap s) a \<and> mh_next_chunk h a = mh_next_chunk (is_heap s) a"
      by (simp add: nx nc)
  qed
  have dist: "distinct (concat cs @ cur @ [x])" "set (concat cs @ cur @ [x]) = set (dn @ [x])"
    using r' xn by auto
  show ?thesis
  proof (cases "length cur + 1 = k")
    case True
    define h' where "h' = (case ds_chunk_head (is_ds s) of None \<Rightarrow> h
      | Some c \<Rightarrow> h\<lparr>mh_next_chunk := (mh_next_chunk h)(the hd1 := Some c)\<rparr>)"
    have e: "init_elem s x = \<lparr>is_heap = h', is_ds = (is_ds s)\<lparr>ds_chunk_head := hd1, ds_num_chunks := ds_num_chunks (is_ds s) + 1,
            ds_free_chunks := ds_free_chunks (is_ds s) + 1\<rparr>, is_head = None, is_prev = None, is_count = 0\<rparr>"
      using step r' True by (simp add: h'_def Let_def)
    have hn: "mh_next h' = mh_next h" by (simp add: h'_def split: option.split)
    have hd_in: "hd (cur @ [x]) \<in> set (cur @ [x])" by (rule hd_in_set) simp
    then have hd_out: "hd (cur @ [x]) \<notin> set (concat cs)" using dist(1) by auto
    have hc: "mh_next_chunk h' a = (if a = hd (cur @ [x]) then ds_chunk_head (is_ds s) else mh_next_chunk (is_heap s) a)" for a
      using r' hd_out by (auto simp: h'_def hd1 nc split: option.split)
    have "chunk_list h' p cs = chunk_list h p cs" for p
      using hd_out by (intro chunk_list_cong) (auto simp: hn hc nc)
    moreover have "free_list h' hd1 (cur @ [x])" using fl free_list_cong [of "cur @ [x]" h' h hd1] hn by simp
    ultimately have "chunk_list h' hd1 ((cur @ [x]) # cs)" using r' cl by (simp add: hd1 hc)
    moreover have "\<forall>a. a \<notin> set (dn @ [x]) \<longrightarrow> mh_next h' a = None" using r' by (auto simp: hn nx)
    moreover have "\<forall>a. a \<notin> set (concat ((cur @ [x]) # cs)) \<longrightarrow> mh_next_chunk h' a = None" using r' hd_in by (auto simp: hc)
    moreover have "\<forall>a. a \<notin> set (dn @ [x]) \<longrightarrow> mh_next_chunk h' a = None"
      using calculation(3) unfolding dist(2) [symmetric] by auto
    moreover have "distinct (concat ((cur @ [x]) # cs) @ [])" "set (concat ((cur @ [x]) # cs) @ []) = set (dn @ [x])"
      using dist by auto
    ultimately have "init_rep k (init_elem s x) (dn @ [x]) ((cur @ [x]) # cs) []"
      using r' True unfolding e init_rep_def
      by (intro conjI) (simp_all del: chunk_list.simps set_append concat.simps distinct_append)
    then show ?thesis by blast
  next
    case False
    have e: "init_elem s x = \<lparr>is_heap = h, is_ds = is_ds s, is_head = hd1, is_prev = Some x, is_count = is_count s + 1\<rparr>"
      using step r' False by (simp add: Let_def)
    have "\<forall>a. a \<notin> set (dn @ [x]) \<longrightarrow> mh_next h a = None" using r' by (auto simp: nx)
    moreover have "length (cur @ [x]) < k" using r' False by simp
    ultimately have "init_rep k (init_elem s x) (dn @ [x]) cs (cur @ [x])"
      using r' fl dist cl nc hd1 unfolding e init_rep_def by simp
    then show ?thesis by blast
  qed
qed

lemma init_elems_correct:
  assumes "init_rep k s dn cs cur" "distinct (dn @ xs)"
  shows "\<exists>cs' cur'. init_rep k (foldl init_elem s xs) (dn @ xs) cs' cur'"
  using assms
proof (induction xs arbitrary: s dn cs cur)
  case (Cons x xs)
  then obtain cs' cur' where "init_rep k (init_elem s x) (dn @ [x]) cs' cur'" using init_elem_correct by force
  from Cons.IH [OF this] show ?case using Cons.prems(2) by simp
qed auto


lemma elem_addrs_distinct:
  assumes "0 < len" "n \<le> 1 \<or> epp * len \<le> PGSIZE_2MB"
  shows "distinct (elem_addrs buf epp n len)" "length (elem_addrs buf epp n len) = epp * n"
proof -
  show "length (elem_addrs buf epp n len) = epp * n"
    by (simp add: elem_addrs_def length_concat o_def sum_list_triv)
  have inj: "i = i'" if "i < n" "i' < n" "j < epp" "j' < epp" "i * PGSIZE_2MB + j * len = i' * PGSIZE_2MB + j' * len" for i i' j j'
  proof (cases "n \<le> 1")
    case False
    then have "epp * len \<le> PGSIZE_2MB" using assms(2) by simp
    moreover have "j * len < epp * len" "j' * len < epp * len" using that assms(1) by simp_all
    ultimately have lt: "j * len < PGSIZE_2MB" "j' * len < PGSIZE_2MB" by linarith+
    have "(i * PGSIZE_2MB + j * len) div PGSIZE_2MB = i" "(i' * PGSIZE_2MB + j' * len) div PGSIZE_2MB = i'"
      using lt by (simp_all add: div_mult_self3)
    then show ?thesis using that(5) by metis
  qed (use that in simp)
  let ?g = "\<lambda>(i, j). buf + i * PGSIZE_2MB + j * len"
  have "elem_addrs buf epp n len = map ?g (List.product [0..<n] [0..<epp])"
    by (simp add: elem_addrs_def product_concat_map map_concat o_def)
  moreover have "inj_on ?g (set (List.product [0..<n] [0..<epp]))"
  proof (rule inj_onI)
    fix p q
    assume a: "p \<in> set (List.product [0..<n] [0..<epp])" "q \<in> set (List.product [0..<n] [0..<epp])" "?g p = ?g q"
    obtain i j i' j' where p: "p = (i, j)" "q = (i', j')" by (cases p; cases q)
    have "i = i'" using a inj [of i i' j j'] by (simp add: p)
    then show "p = q" using a(3) assms(1) by (simp add: p)
  qed
  ultimately show "distinct (elem_addrs buf epp n len)" by (simp add: distinct_map distinct_product)
qed

section \<open>The interface of a pool\<close>

text \<open>\<open>n\<close> allocations in a row.\<close>

fun take_n :: "('s \<Rightarrow> (ptr \<times> 's) res) \<Rightarrow> nat \<Rightarrow> 's \<Rightarrow> (nat list \<times> 's) option" where
  "take_n alloc 0 s = Some ([], s)"
| "take_n alloc (Suc n) s =
     (case alloc s of
        Inr (Some a, s') \<Rightarrow> map_option (\<lambda>(as, t). (a # as, t)) (take_n alloc n s')
      | _ \<Rightarrow> None)"

locale elem_pool =
  fixes alloc :: "'s \<Rightarrow> (ptr \<times> 's) res"
    and release :: "'s \<Rightarrow> nat \<Rightarrow> 's res"
    and holds :: "'s \<Rightarrow> nat set \<Rightarrow> bool"
  assumes alloc_law: "holds s F \<Longrightarrow> \<exists>r s'. alloc s = Inr (r, s') \<and>
      (case r of None \<Rightarrow> F = {} \<and> s' = s | Some a \<Rightarrow> a \<in> F \<and> holds s' (F - {a}))"
    and release_law: "holds s F \<Longrightarrow> e \<notin> F \<Longrightarrow> \<exists>s'. release s e = Inr s' \<and> holds s' (insert e F)"
begin

lemma take_n_serves:
  assumes "holds s F" "finite F" "n \<le> card F"
  shows "\<exists>as s'. take_n alloc n s = Some (as, s') \<and> length as = n \<and> distinct as \<and> set as \<subseteq> F \<and> holds s' (F - set as)"
  using assms
proof (induction n arbitrary: s F)
  case (Suc n)
  have "F \<noteq> {}" using Suc.prems by auto
  with alloc_law [OF Suc.prems(1)] obtain a s' where a: "alloc s = Inr (Some a, s')" "a \<in> F" "holds s' (F - {a})"
    by (auto split: option.splits)
  have "finite (F - {a})" "n \<le> card (F - {a})" using Suc.prems a(2) by simp_all
  from Suc.IH [OF a(3) this] obtain as t where t: "take_n alloc n s' = Some (as, t)" "length as = n" "distinct as"
    "set as \<subseteq> F - {a}" "holds t (F - {a} - set as)" by blast
  have "F - {a} - set as = F - set (a # as)" by auto
  then show ?case using a t by (intro exI [of _ "a # as"] exI [of _ t]) auto
qed simp

end

interpretation mp: elem_pool mempool_alloc mempool_free holds_free
proof unfold_locales
  fix s F
  assume "holds_free s F"
  then show "\<exists>r s'. mempool_alloc s = Inr (r, s') \<and>
      (case r of None \<Rightarrow> F = {} \<and> s' = s | Some a \<Rightarrow> a \<in> F \<and> holds_free s' (F - {a}))"
    by (rule mempool_alloc_correct)
next
  fix s F e
  assume "holds_free s F" "e \<notin> F"
  then show "\<exists>s'. mempool_free s e = Inr s' \<and> holds_free s' (insert e F)"
    using mempool_free_correct by blast
qed

lemma concat_length: "\<forall>c \<in> set cs. length c = k \<Longrightarrow> length (concat cs) = k * length cs"
  by (induction cs) (auto simp: algebra_simps)

lemma init_buf_correct:
  assumes "mempool_init_buf_with_pages h ds epp n len = (h', ds')" "\<forall>a. mh_next h a = None \<and> mh_next_chunk h a = None"
    and "ds_chunk_head ds = None" "ds_chunk_size ds = int k" "0 < k" "0 < len" "n \<le> 1 \<or> epp * len \<le> PGSIZE_2MB"
  shows "\<exists>cs. chunk_list h' (ds_chunk_head ds') cs \<and> distinct (concat cs) \<and>
    set (concat cs) \<subseteq> set (elem_addrs (ds_buf ds) epp n len) \<and> length (concat cs) = epp * n div k * k"
proof -
  let ?s0 = "\<lparr>is_heap = h, is_ds = ds, is_head = None, is_prev = None, is_count = 0\<rparr>"
  let ?xs = "elem_addrs (ds_buf ds) epp n len"
  note xs = elem_addrs_distinct [OF assms(6,7), of "ds_buf ds"]
  have "init_rep k ?s0 [] [] []" using assms by (simp add: init_rep_def)
  from init_elems_correct [OF this, of ?xs] xs(1) obtain cs cur where
    r: "init_rep k (foldl init_elem ?s0 ?xs) ?xs cs cur" by auto
  have e: "h' = is_heap (foldl init_elem ?s0 ?xs)" "ds' = is_ds (foldl init_elem ?s0 ?xs)"
    using assms(1) by (simp_all add: mempool_init_buf_with_pages_def Let_def)
  have cs: "chunk_list h' (ds_chunk_head ds') cs" "\<forall>c \<in> set cs. length c = k" "length cur < k"
    "distinct (concat cs @ cur)" "set (concat cs @ cur) = set ?xs"
    using r unfolding e init_rep_def by blast+
  have "length (concat cs @ cur) = length ?xs" using cs(4,5) xs(1) distinct_card by metis
  then have "epp * n = k * length cs + length cur" using xs(2) concat_length [OF cs(2)] by simp
  then have "epp * n div k = length cs" using cs(3) by simp
  then have "length (concat cs) = epp * n div k * k" using concat_length [OF cs(2)] by simp
  then show ?thesis using cs by (intro exI [of _ cs]) auto
qed


lemma new_pool_holds:
  assumes "chunk_list h (ds_chunk_head ds) cs" "distinct (concat cs)" "mempool_create m ds st sid = Inr m'"
    and "mp_private_chunk m = None" "mp_num_free m = 0" "0 < ds_chunk_size ds"
  shows "holds_free \<lparr>pl_heap = h, pl_ds = ds, pl_mp = m'\<rparr> (set (concat cs))"
proof -
  have "pool_rep \<lparr>pl_heap = h, pl_ds = ds, pl_mp = m'\<rparr> [] [] cs"
    using assms by (auto simp: pool_rep_def mempool_create_def split: if_splits)
  then show ?thesis unfolding holds_free_def by force
qed

text \<open>At least the requested number of elements fits into the pages.\<close>

lemma elems_fit:
  "0 < epp \<Longrightarrow> nr \<le> epp * ((nr + epp - 1) div epp)"
  "0 < len \<Longrightarrow> nr \<le> (nr * len + (PGSIZE_2MB - 1)) div PGSIZE_2MB * PGSIZE_2MB div len"
proof -
  show "nr \<le> epp * ((nr + epp - 1) div epp)" if "0 < epp"
  proof -
    have "(nr + epp - 1) mod epp < epp" using that by simp
    moreover have "epp * ((nr + epp - 1) div epp) + (nr + epp - 1) mod epp = nr + epp - 1" by (rule mult_div_mod_eq)
    ultimately show ?thesis using that by linarith
  qed
  show "nr \<le> (nr * len + (PGSIZE_2MB - 1)) div PGSIZE_2MB * PGSIZE_2MB div len" if "0 < len"
  proof -
    have p: "0 < PGSIZE_2MB" by (simp add: PGSIZE_2MB_def)
    let ?x = "nr * len + (PGSIZE_2MB - 1)"
    have "?x mod PGSIZE_2MB < PGSIZE_2MB" using p by simp
    moreover have "?x div PGSIZE_2MB * PGSIZE_2MB + ?x mod PGSIZE_2MB = ?x" by (rule div_mult_mod_eq)
    ultimately have "nr * len \<le> ?x div PGSIZE_2MB * PGSIZE_2MB" using p by linarith
    then have "nr * len div len \<le> ?x div PGSIZE_2MB * PGSIZE_2MB div len" by (rule div_le_mono)
    then show ?thesis using that by simp
  qed
qed

lemma datastore_chunks:
  assumes c: "mempool_create_datastore h ds (Some a) nr elem_len nostraddle k = Inr (Some (h', ds'))"
    and z: "\<forall>a. mh_next h a = None \<and> mh_next_chunk h a = None" "ds_chunk_head ds = None"
  shows "\<exists>cs. chunk_list h' (ds_chunk_head ds') cs \<and> distinct (concat cs) \<and> nr \<le> length (concat cs) \<and>
    0 < ds_chunk_size ds'"
proof -
  define el where "el = (elem_len + 7) div 8 * 8"
  define epp where "epp = PGSIZE_2MB div el"
  define pages where "pages = (if nostraddle then (nr + epp - 1) div epp else (nr * el + (PGSIZE_2MB - 1)) div PGSIZE_2MB)"
  define nr' where "nr' = (if nostraddle then nr else pages * PGSIZE_2MB div el)"
  define ds1 where "ds1 = ds\<lparr>ds_magic := MEMPOOL_MAGIC, ds_buf := a, ds_nr_pages := pages, ds_nr_elems := nr',
    ds_elem_len := el, ds_chunk_size := int k, ds_nostraddle := nostraddle\<rparr>"
  have g: "k \<noteq> 0" "nr div k * k = nr" "elem_len \<noteq> 0" "nostraddle \<Longrightarrow> epp \<noteq> 0"
    and init: "(if nostraddle then mempool_init_buf_with_pages h ds1 epp pages el
      else mempool_init_buf_with_pages h ds1 nr' 1 el) = (h', ds')"
    using c by (auto simp: mempool_create_datastore_def ix_res Let_def el_def epp_def pages_def nr'_def ds1_def
        split: if_splits)
  have el: "0 < el" using g(3) unfolding el_def by presburger
  have fit: "epp * el \<le> PGSIZE_2MB" by (simp add: epp_def)
  define e n where "e = (if nostraddle then epp else nr')" and "n = (if nostraddle then pages else 1)"
  have init': "mempool_init_buf_with_pages h ds1 e n el = (h', ds')" using init by (simp add: e_def n_def split: if_splits)
  have "n \<le> 1 \<or> e * el \<le> PGSIZE_2MB" using fit by (simp add: e_def n_def)
  from init_buf_correct [OF init' z(1) _ _ _ el this, of k] obtain cs where
    cs: "chunk_list h' (ds_chunk_head ds') cs" "distinct (concat cs)" "length (concat cs) = e * n div k * k"
    using z(2) g(1) by (auto simp: ds1_def)
  have "nr \<le> e * n" using elems_fit(1) [of epp nr] elems_fit(2) [OF el, of nr] g(4)
    by (auto simp: e_def n_def nr'_def pages_def)
  then have "nr div k * k \<le> e * n div k * k" by (intro mult_right_mono div_le_mono) simp_all
  then have "nr \<le> length (concat cs)" using g(2) cs(3) by simp
  moreover have "ds_chunk_size ds' = int k"
  proof -
    have "ds_chunk_size (is_ds (foldl init_elem s xs)) = ds_chunk_size (is_ds s)" for s xs
      by (induction xs arbitrary: s) (simp_all add: init_elem_def Let_def split: option.split prod.split)
    then show ?thesis using init' by (auto simp: mempool_init_buf_with_pages_def Let_def ds1_def)
  qed
  ultimately show ?thesis using cs g(1) by (intro exI [of _ cs]) simp
qed

section \<open>What a pool promises\<close>

text \<open>C11: A memory pool and its data store behave as a set of free elements on every path of
  \<open>mempool_alloc\<close> and \<open>mempool_free\<close>, the second stages included: an allocation takes one element out and
  fails only if there is none, a release of an element in use puts it back and never fails, the links
  stay well formed, and the element released last is the one allocated next.
\<close>

theorem mempool_is_set_allocator:
  assumes "holds_free s F"
  shows "(\<exists>r s'. mempool_alloc s = Inr (r, s') \<and>
      (case r of None \<Rightarrow> F = {} \<and> s' = s | Some a \<Rightarrow> a \<in> F \<and> holds_free s' (F - {a}))) \<and>
    (\<forall>e. e \<notin> F \<longrightarrow> (\<exists>s'. mempool_free s e = Inr s' \<and> holds_free s' (insert e F) \<and>
      (\<exists>s''. mempool_alloc s' = Inr (Some e, s''))))"
proof (intro conjI allI impI)
  show "\<exists>r s'. mempool_alloc s = Inr (r, s') \<and>
      (case r of None \<Rightarrow> F = {} \<and> s' = s | Some a \<Rightarrow> a \<in> F \<and> holds_free s' (F - {a}))"
    by (rule mempool_alloc_correct [OF assms])
next
  fix e
  assume "e \<notin> F"
  from mempool_free_correct [OF assms this] obtain s' where
    "mempool_free s e = Inr s'" "holds_free s' (insert e F)" "mp_head (pl_mp s') = Some e" by blast
  then show "\<exists>s'. mempool_free s e = Inr s' \<and> holds_free s' (insert e F) \<and> (\<exists>s''. mempool_alloc s' = Inr (Some e, s''))"
    by (intro exI [of _ s']) (simp add: mempool_alloc_def Let_def)
qed

definition empty_ds :: mempool_datastore where
  "empty_ds = \<lparr>ds_magic = 0, ds_chunk_head = None, ds_buf = 0, ds_nr_pages = 0, ds_nr_elems = 0, ds_elem_len = 0,
     ds_nostraddle = False, ds_chunk_size = 0, ds_num_chunks = 0, ds_free_chunks = 0, ds_num_locks = 0,
     ds_iomap_addr = None, ds_iomap_offset = 0\<rparr>"

definition empty_mp :: mempool where
  "empty_mp = \<lparr>mp_head = None, mp_num_free = 0, mp_elem_len = 0, mp_magic = 0, mp_buf = 0, mp_private_chunk = None,
     mp_sanity = 0, mp_nr_elems = 0, mp_nostraddle = False, mp_chunk_size = 0, mp_iomap_addr = None, mp_iomap_offset = 0\<rparr>"

definition sample_pool :: pool where
  "sample_pool = \<lparr>pl_heap = \<lparr>mh_next = (\<lambda>a. if a = 8 then Some 16 else None), mh_next_chunk = (\<lambda>_. None)\<rparr>,
     pl_ds = empty_ds, pl_mp = empty_mp\<lparr>mp_head := Some 8, mp_magic := MEMPOOL_MAGIC, mp_chunk_size := 2, mp_num_free := 2\<rparr>\<rparr>"

lemmas sample_pool_defs = sample_pool_def empty_ds_def empty_mp_def

lemma sample_pool_holds: "holds_free sample_pool {8, 16}"
  unfolding holds_free_def
  by (intro exI [of _ "[8, 16]"] exI [of _ "[]"]) (simp add: pool_rep_def sample_pool_defs)

theorem mempool_is_set_allocator_witness:
  "\<exists>s'. mempool_free sample_pool 24 = Inr s' \<and> holds_free s' {24, 8, 16} \<and> (\<exists>s''. mempool_alloc s' = Inr (Some 24, s''))"
  using mempool_is_set_allocator [OF sample_pool_holds] by simp



end
