(* ===== verification/Mbuf.thy ===== *)
theory Mbuf
  imports Mempool Chksum_Props
begin

text \<open>
  Packet buffers and the transmit queues they wait in: \<open>inc/ix/mbuf.h\<close>, \<open>dp/core/mbuf.c\<close> and the transmit
  half of \<open>inc/ix/ethqueue.h\<close>. A buffer is named by its address; positions in its data are offsets from
  \<open>mbuf_mtod\<close>. The state is that of one core, whose pool and queues are its own.
\<close>

section \<open>State\<close>

datatype code = OK | ENOMEM | ENOENT | EAGAIN | EIO | EBUSY

record mbuf_iov =
  iov_base :: nat
  iov_maddr :: nat
  iov_len :: nat

text \<open>The values of the function pointer \<open>done\<close>; \<open>DoneRecv\<close> is the marker \<open>0xDEADBEEF\<close> of a datagram in use.\<close>

datatype mbuf_done = DoneNull | DoneDefault | DoneUdp | DoneRecv

record mbuf =
  mb_len :: nat
  mb_next :: ptr
  mb_iovs :: "mbuf_iov list"
  mb_fg_id :: u16
  mb_ol_flags :: u16
  mb_done :: mbuf_done
  mb_done_data :: u64
  mb_data :: bytes

record eth_tx_queue =
  tq_cap :: int
  tq_bufs :: "nat list"

record mstate =
  n_mbufs :: "nat \<Rightarrow> mbuf"
  n_mbuf_pool :: pool
  n_txqs :: "nat \<Rightarrow> eth_tx_queue"

definition MBUF_HEADER_LEN :: nat where "MBUF_HEADER_LEN = 64"

definition MBUF_DATA_LEN :: nat where "MBUF_DATA_LEN = 2048"

definition MBUF_LEN :: nat where "MBUF_LEN = MBUF_HEADER_LEN + MBUF_DATA_LEN"

definition ETH_DEV_TX_QUEUE_SZ :: nat where "ETH_DEV_TX_QUEUE_SZ = 4096"

abbreviation upd_mbuf :: "nat \<Rightarrow> (mbuf \<Rightarrow> mbuf) \<Rightarrow> 'a mstate_scheme \<Rightarrow> 'a mstate_scheme" where
  "upd_mbuf m f s \<equiv> s\<lparr>n_mbufs := (n_mbufs s)(m := f (n_mbufs s m))\<rparr>"

abbreviation mdata :: "'a mstate_scheme \<Rightarrow> nat \<Rightarrow> bytes" where
  "mdata s m \<equiv> mb_data (n_mbufs s m)"

section \<open>Buffers\<close>

definition mbuf_alloc_local :: "'a mstate_scheme \<Rightarrow> (ptr \<times> 'a mstate_scheme) res" where
  "mbuf_alloc_local s =
     rbind (mempool_alloc (n_mbuf_pool s)) (\<lambda>(r, p).
       let s = s\<lparr>n_mbuf_pool := p\<rparr> in
       case r of
         None \<Rightarrow> Inr (None, s)
       | Some m \<Rightarrow> Inr (Some m, upd_mbuf m (\<lambda>b. b\<lparr>mb_next := None, mb_done := DoneDefault\<rparr>) s))"

definition mbuf_free :: "'a mstate_scheme \<Rightarrow> nat \<Rightarrow> 'a mstate_scheme res" where
  "mbuf_free s m = rbind (mempool_free (n_mbuf_pool s) m) (\<lambda>p. Inr (s\<lparr>n_mbuf_pool := p\<rparr>))"

definition mbuf_enough_space :: "'a mstate_scheme \<Rightarrow> nat \<Rightarrow> nat \<Rightarrow> nat \<Rightarrow> bool" where
  "mbuf_enough_space s m pos sz \<longleftrightarrow> pos + sz \<le> mb_len (n_mbufs s m)"

text \<open>The bytes of a field, and a store to one.\<close>

definition field :: "bytes \<Rightarrow> nat \<Rightarrow> nat \<Rightarrow> bytes" where
  "field d off n = take n (drop off d)"

definition put :: "nat \<Rightarrow> bytes \<Rightarrow> bytes \<Rightarrow> bytes" where
  "put off bs d = take off d @ bs @ drop (off + length bs) d"

abbreviation store :: "nat \<Rightarrow> nat \<Rightarrow> bytes \<Rightarrow> 'a mstate_scheme \<Rightarrow> 'a mstate_scheme" where
  "store m off bs s \<equiv> upd_mbuf m (\<lambda>b. b\<lparr>mb_data := put off bs (mb_data b)\<rparr>) s"

text \<open>\<open>page_get\<close> returns the machine address of the page and counts the reference.\<close>

definition mbuf_iov_create :: "(nat \<Rightarrow> nat) \<Rightarrow> nat \<Rightarrow> nat \<Rightarrow> mbuf_iov \<times> nat" where
  "mbuf_iov_create page_get base ent_len =
     (let len = min ent_len (PGSIZE_2MB - base mod PGSIZE_2MB) in
      (\<lparr>iov_base = base, iov_maddr = page_get base, iov_len = len\<rparr>, len))"

section \<open>Transmission\<close>

definition eth_send :: "'a mstate_scheme \<Rightarrow> nat \<Rightarrow> nat \<Rightarrow> (code \<times> 'a mstate_scheme) res" where
  "eth_send s q m =
     (let txq = n_txqs s q; nr = 1 + int (length (mb_iovs (n_mbufs s m))) in
      if tq_cap txq < nr then Inr (EBUSY, s)
      else if ETH_DEV_TX_QUEUE_SZ \<le> length (tq_bufs txq) then Inl OutOfBounds
      else Inr (OK, s\<lparr>n_txqs := (n_txqs s)(q := \<lparr>tq_cap = tq_cap txq - nr, tq_bufs = tq_bufs txq @ [m]\<rparr>)\<rparr>))"

definition eth_send_one :: "'a mstate_scheme \<Rightarrow> nat \<Rightarrow> nat \<Rightarrow> nat \<Rightarrow> (code \<times> 'a mstate_scheme) res" where
  "eth_send_one s q m len = eth_send (upd_mbuf m (\<lambda>b. b\<lparr>mb_len := len, mb_iovs := []\<rparr>) s) q m"

text \<open>The frame a buffer without scatter-gather list puts on the wire.\<close>

definition frame :: "'a mstate_scheme \<Rightarrow> nat \<Rightarrow> bytes" where
  "frame s m = take (mb_len (n_mbufs s m)) (mdata s m)"

text \<open>
  \<open>eth_process_send\<close> hands every queue to the driver, whose \<open>xmit\<close> returns how many buffers it took;
  \<open>eth_process_reclaim\<close> asks it for the room left.
\<close>

fun eth_process_send :: "(nat \<Rightarrow> nat list \<Rightarrow> nat) \<Rightarrow> nat list \<Rightarrow> 'a mstate_scheme \<Rightarrow> 'a mstate_scheme res" where
  "eth_process_send xmit [] s = Inr s"
| "eth_process_send xmit (q # qs) s =
     (if xmit q (tq_bufs (n_txqs s q)) \<noteq> length (tq_bufs (n_txqs s q)) then Inl Panicked
      else eth_process_send xmit qs (s\<lparr>n_txqs := (n_txqs s)(q := (n_txqs s q)\<lparr>tq_bufs := []\<rparr>)\<rparr>))"

fun eth_process_reclaim :: "(nat \<Rightarrow> int) \<Rightarrow> nat list \<Rightarrow> 'a mstate_scheme \<Rightarrow> 'a mstate_scheme" where
  "eth_process_reclaim reclaim [] s = s"
| "eth_process_reclaim reclaim (q # qs) s =
     eth_process_reclaim reclaim qs (s\<lparr>n_txqs := (n_txqs s)(q := (n_txqs s q)\<lparr>tq_cap := reclaim q\<rparr>)\<rparr>)"

section \<open>Initialisation\<close>

definition MBUF_CAPACITY :: nat where "MBUF_CAPACITY = 768 * 1024"

definition MEMPOOL_DEFAULT_CHUNKSIZE :: nat where "MEMPOOL_DEFAULT_CHUNKSIZE = 128"

text \<open>\<open>buf\<close> and \<open>iomap\<close> are the answers of the page allocator and of \<open>vm_map_to_user\<close>.\<close>

definition mbuf_init ::
  "mheap \<Rightarrow> mempool_datastore \<Rightarrow> ptr \<Rightarrow> ptr \<Rightarrow> (mheap \<times> mempool_datastore) res" where
  "mbuf_init h ds buf iomap =
     rbind (mempool_create_datastore h ds buf MBUF_CAPACITY MBUF_LEN True MEMPOOL_DEFAULT_CHUNKSIZE) (\<lambda>r.
       case r of
         None \<Rightarrow> Inl AssertFailed
       | Some (h, ds) \<Rightarrow>
           let (ok, ds) = mempool_pagemem_map_to_user ds iomap in
           if ok then Inr (h, ds) else Inl AssertFailed)"

definition MEMPOOL_SANITY_PERCPU :: int where "MEMPOOL_SANITY_PERCPU = 1"

definition mbuf_init_cpu :: "mempool \<Rightarrow> mempool_datastore \<Rightarrow> nat \<Rightarrow> mempool res" where
  "mbuf_init_cpu m ds cpu_id = mempool_create m ds MEMPOOL_SANITY_PERCPU (int cpu_id)"

definition mbuf_exit_cpu :: "mempool_datastore \<Rightarrow> mempool_datastore" where
  "mbuf_exit_cpu ds = mempool_pagemem_destroy ds"

section \<open>Fields of a buffer\<close>

lemma length_field: "off + n \<le> length d \<Longrightarrow> length (field d off n) = n"
  by (simp add: field_def)

lemma length_put [simp]: "off + length bs \<le> length d \<Longrightarrow> length (put off bs d) = length d"
  by (simp add: put_def)

lemma field_put_same: "off + length bs \<le> length d \<Longrightarrow> n = length bs \<Longrightarrow> field (put off bs d) off n = bs"
  by (simp add: field_def put_def)

lemma nth_put:
  "off + length bs \<le> length d \<Longrightarrow> i < length d \<Longrightarrow>
     put off bs d ! i = (if i < off then d ! i else if i < off + length bs then bs ! (i - off) else d ! i)"
  by (auto simp: put_def nth_append min_def)

lemma field_put_other:
  assumes "off + length bs \<le> length d" "a + n \<le> off \<or> off + length bs \<le> a"
  shows "field (put off bs d) a n = field d a n"
proof (rule nth_equalityI)
  show "length (field (put off bs d) a n) = length (field d a n)" using assms by (simp add: field_def)
  fix i assume "i < length (field (put off bs d) a n)"
  then have "i < n" "a + i < length d" using assms by (auto simp: field_def)
  then show "field (put off bs d) a n ! i = field d a n ! i"
    using assms by (auto simp: field_def nth_put)
qed

lemma field_put_within:
  assumes "a \<le> off" "off + length bs \<le> a + n" "a + n \<le> length d"
  shows "field (put off bs d) a n = put (off - a) bs (field d a n)"
proof (rule nth_equalityI)
  show "length (field (put off bs d) a n) = length (put (off - a) bs (field d a n))"
    using assms by (simp add: length_field)
  fix i assume "i < length (field (put off bs d) a n)"
  then have i: "i < n" using assms by (simp add: length_field)
  then have "field (put off bs d) a n ! i = put off bs d ! (a + i)" "field d a n ! i = d ! (a + i)"
    using assms by (simp_all add: field_def)
  then show "field (put off bs d) a n ! i = put (off - a) bs (field d a n) ! i"
    using assms i by (auto simp: nth_put length_field add.commute [of a i])
qed

end
