(* ===== verification/Arp.thy ===== *)
theory Arp
  imports Mbuf
begin

text \<open>
  Address resolution: the model of \<open>dp/net/arp.c\<close>. Table entries and waiting packets are named by their
  addresses and drawn from the pools of \<open>Mempool\<close>; the buckets of the table and the lists of waiting packets
  are lists of addresses. The model is that of one core, so the spin locks are left out. A call handed to
  another core by \<open>cpu_run_on_one\<close> is appended to \<open>n_jobs\<close>.
\<close>

section \<open>State\<close>

record pending_pkt =
  pp_dst_addr :: u32
  pp_fg :: nat
  pp_mbuf :: nat
  pp_len :: nat
  pp_cpu :: nat
  pp_dispatched :: bool

text \<open>\<open>ae_timer\<close> is the delay with which the entry's timer was armed, \<open>None\<close> when it is not pending.\<close>

record arp_entry =
  ae_addr :: u32
  ae_mac :: bytes
  ae_flags :: u8
  ae_retries :: u8
  ae_timer :: "u64 option"
  ae_handler :: bool
  ae_pending_pkts :: "nat list"

text \<open>The events for the application that the network stack queues in the descriptors of \<open>inc/ix/syscall.h\<close>.\<close>

datatype usys = UsysUdpRecv u64 nat u64 | UsysUdpSent u64

record net = mstate +
  n_tbl :: "nat \<Rightarrow> nat list"
  n_entries :: "nat \<Rightarrow> arp_entry"
  n_pkts :: "nat \<Rightarrow> pending_pkt"
  n_arp_pool :: pool
  n_pending_pool :: pool
  n_jobs :: "nat list"
  n_usys :: "usys list"

text \<open>
  The configuration \<open>CFG\<close>, with addresses in host byte order, the CRC-32C instruction of the processor
  and the number of the core.
\<close>

record env =
  c_mac :: bytes
  c_host_addr :: u32
  c_mask :: u32
  c_gateway_addr :: u32
  c_eth_dev_count :: nat
  e_crc32c :: "u32 \<Rightarrow> u64 \<Rightarrow> u32"
  e_cpu_id :: nat

definition ARP_FLAG_RESOLVING :: u8 where "ARP_FLAG_RESOLVING = 0x1"

definition ARP_FLAG_VALID :: u8 where "ARP_FLAG_VALID = 0x2"

definition ARP_FLAG_STATIC :: u8 where "ARP_FLAG_STATIC = 0x4"

definition ARP_REFRESH_TIMEOUT :: u64 where "ARP_REFRESH_TIMEOUT = 10 * 1000000"

definition ARP_RESOLVE_TIMEOUT :: u64 where "ARP_RESOLVE_TIMEOUT = 1 * 1000000"

definition ARP_RETRY_TIMEOUT :: u64 where "ARP_RETRY_TIMEOUT = 1 * 1000000"

definition ARP_MAX_ATTEMPTS :: u8 where "ARP_MAX_ATTEMPTS = 3"

definition ETH_ADDR_BROADCAST :: bytes where
  "ETH_ADDR_BROADCAST = [0xFF, 0xFF, 0xFF, 0xFF, 0xFF, 0xFF]"

definition eth_addr_is_multicast :: "bytes \<Rightarrow> bool" where
  "eth_addr_is_multicast addr \<longleftrightarrow> hd addr AND 0x01 \<noteq> 0"

abbreviation upd_entry :: "nat \<Rightarrow> (arp_entry \<Rightarrow> arp_entry) \<Rightarrow> net \<Rightarrow> net" where
  "upd_entry a f s \<equiv> s\<lparr>n_entries := (n_entries s)(a := f (n_entries s a))\<rparr>"

section \<open>The table\<close>

definition arp_ip_to_idx :: "env \<Rightarrow> u32 \<Rightarrow> nat" where
  "arp_ip_to_idx env addr = unat (e_crc32c env 0xA36BDCBE (ucast addr) AND 0xFFFF)"

definition arp_lookup_bucket :: "net \<Rightarrow> nat list \<Rightarrow> u32 \<Rightarrow> ptr" where
  "arp_lookup_bucket s h addr = find (\<lambda>a. ae_addr (n_entries s a) = addr) h"

definition arp_lookup :: "env \<Rightarrow> net \<Rightarrow> u32 \<Rightarrow> bool \<Rightarrow> (ptr \<times> net) res" where
  "arp_lookup env s addr create_okay =
     (let idx = arp_ip_to_idx env addr in
      case arp_lookup_bucket s (n_tbl s idx) addr of
        Some e \<Rightarrow> Inr (Some e, s)
      | None \<Rightarrow>
          if create_okay then
            rbind (mempool_alloc (n_arp_pool s)) (\<lambda>(r, p).
              let s = s\<lparr>n_arp_pool := p\<rparr> in
              case r of
                None \<Rightarrow> Inr (None, s)
              | Some e \<Rightarrow>
                  let s = upd_entry e (\<lambda>en. en\<lparr>ae_addr := addr, ae_flags := 0, ae_retries := 0, ae_timer := None,
                        ae_handler := True\<rparr>) s in
                  Inr (Some e, s\<lparr>n_tbl := (n_tbl s)(idx := e # n_tbl s idx)\<rparr>))
          else Inr (None, s))"

text \<open>The loop that hands the waiting packets of an entry to their cores.\<close>

fun dispatch_pending :: "nat list \<Rightarrow> net \<Rightarrow> net" where
  "dispatch_pending [] s = s"
| "dispatch_pending (p # ps) s =
     dispatch_pending ps
       (if \<not> pp_dispatched (n_pkts s p)
        then s\<lparr>n_jobs := n_jobs s @ [p], n_pkts := (n_pkts s)(p := (n_pkts s p)\<lparr>pp_dispatched := True\<rparr>)\<rparr>
        else s)"

definition arp_update_mac :: "env \<Rightarrow> net \<Rightarrow> u32 \<Rightarrow> bytes \<Rightarrow> bool \<Rightarrow> (code \<times> net) res" where
  "arp_update_mac env s addr mac create_okay =
     rbind (arp_lookup env s addr create_okay) (\<lambda>(r, s).
       case r of
         None \<Rightarrow> Inr (ENOMEM, s)
       | Some e \<Rightarrow>
           if ae_flags (n_entries s e) AND ARP_FLAG_STATIC \<noteq> 0 then Inr (OK, s)
           else
             let s = upd_entry e (\<lambda>en. en\<lparr>ae_mac := mac, ae_flags := ARP_FLAG_VALID, ae_retries := 0,
                   ae_timer := Some ARP_REFRESH_TIMEOUT\<rparr>) s in
             Inr (OK, dispatch_pending (ae_pending_pkts (n_entries s e)) s))"

section \<open>Sending\<close>

definition ARP_OP_REQUEST :: u16 where "ARP_OP_REQUEST = 1"

definition ARP_OP_REPLY :: u16 where "ARP_OP_REPLY = 2"

definition ETHTYPE_IP :: u16 where "ETHTYPE_IP = 0x0800"

definition ETHTYPE_ARP :: u16 where "ETHTYPE_ARP = 0x0806"

definition ARP_HTYPE_ETHER :: u16 where "ARP_HTYPE_ETHER = 1"

definition ARP_PKT_SIZE :: nat where "ARP_PKT_SIZE = 14 + 8 + 20"

definition arp_frame :: "env \<Rightarrow> u16 \<Rightarrow> u32 \<Rightarrow> bytes \<Rightarrow> bytes" where
  "arp_frame env op target_ip target_mac =
     target_mac @ c_mac env @ to_le 2 (bswap16 ETHTYPE_ARP) @
     to_le 2 (bswap16 ARP_HTYPE_ETHER) @ to_le 2 (bswap16 ETHTYPE_IP) @ [6, 4] @ to_le 2 (bswap16 op) @
     c_mac env @ to_le 4 (bswap32 (c_host_addr env)) @ target_mac @ to_le 4 (bswap32 target_ip)"

definition arp_send_pkt :: "env \<Rightarrow> net \<Rightarrow> u16 \<Rightarrow> u32 \<Rightarrow> bytes \<Rightarrow> (code \<times> net) res" where
  "arp_send_pkt env s op target_ip target_mac =
     rbind (mbuf_alloc_local s) (\<lambda>(r, s).
       case r of
         None \<Rightarrow> Inr (ENOMEM, s)
       | Some pkt \<Rightarrow>
           let s = store pkt 0 (arp_frame env op target_ip target_mac) s;
             s = upd_mbuf pkt (\<lambda>b. b\<lparr>mb_ol_flags := 0\<rparr>) s in
           rbind (eth_send_one s 0 pkt ARP_PKT_SIZE) (\<lambda>(ret, s).
             if ret = OK then Inr (OK, s) else rbind (mbuf_free s pkt) (\<lambda>s. Inr (EIO, s))))"

text \<open>The reply reuses the buffer of the request, with the ARP header at offset \<open>hdr\<close>.\<close>

definition arp_send_response_reuse :: "env \<Rightarrow> net \<Rightarrow> nat \<Rightarrow> nat \<Rightarrow> (code \<times> net) res" where
  "arp_send_response_reuse env s pkt hdr =
     (let ethip = hdr + 8;
        s = store pkt 0 (field (mdata s pkt) 6 6) s;
        s = store pkt (hdr + 6) (to_le 2 (bswap16 ARP_OP_REPLY)) s;
        s = store pkt (ethip + 10) (field (mdata s pkt) ethip 6) s;
        s = store pkt (ethip + 16) (field (mdata s pkt) (ethip + 6) 4) s;
        s = store pkt 6 (c_mac env) s;
        s = store pkt (ethip + 6) (to_le 4 (bswap32 (c_host_addr env))) s;
        s = store pkt ethip (c_mac env) s;
        s = upd_mbuf pkt (\<lambda>b. b\<lparr>mb_ol_flags := 0\<rparr>) s in
      rbind (eth_send_one s 0 pkt ARP_PKT_SIZE) (\<lambda>(ret, s).
        if ret = OK then Inr (OK, s) else rbind (mbuf_free s pkt) (\<lambda>s. Inr (EIO, s))))"

section \<open>Input\<close>

text \<open>The checks of \<open>arp_input\<close> before the table is touched.\<close>

definition arp_valid :: "net \<Rightarrow> nat \<Rightarrow> nat \<Rightarrow> bool" where
  "arp_valid s pkt hdr \<longleftrightarrow>
     (let d = mdata s pkt in
      mbuf_enough_space s pkt hdr 8 \<and>
      bswap16 (from_le (field d hdr 2)) = ARP_HTYPE_ETHER \<and> bswap16 (from_le (field d (hdr + 2) 2)) = ETHTYPE_IP \<and>
      field d (hdr + 4) 1 = [6] \<and> field d (hdr + 5) 1 = [4] \<and>
      mbuf_enough_space s pkt (hdr + 8) 20 \<and> \<not> eth_addr_is_multicast (field d (hdr + 8) 6))"

definition arp_input :: "env \<Rightarrow> net \<Rightarrow> nat \<Rightarrow> nat \<Rightarrow> net res" where
  "arp_input env s pkt hdr =
     (if \<not> arp_valid s pkt hdr then mbuf_free s pkt
      else
        let d = mdata s pkt; op = bswap16 (from_le (field d (hdr + 6) 2));
          sender_ip = bswap32 (from_le (field d (hdr + 14) 4)); target_ip = bswap32 (from_le (field d (hdr + 24) 4));
          am_target = (c_host_addr env = target_ip) in
        rbind (arp_update_mac env s sender_ip (field d (hdr + 8) 6) am_target) (\<lambda>(c, s).
          if am_target \<and> op = ARP_OP_REQUEST
          then rbind (arp_send_response_reuse env s pkt hdr) (\<lambda>(c, s). Inr s)
          else mbuf_free s pkt))"

section \<open>Resolving\<close>

text \<open>The address is returned with the code \<open>OK\<close>.\<close>

definition arp_lookup_mac :: "env \<Rightarrow> net \<Rightarrow> u32 \<Rightarrow> (code \<times> bytes \<times> net) res" where
  "arp_lookup_mac env s addr =
     rbind (arp_lookup env s addr True) (\<lambda>(r, s).
       case r of
         None \<Rightarrow> Inr (ENOENT, [], s)
       | Some e \<Rightarrow>
           if ae_flags (n_entries s e) AND ARP_FLAG_VALID = 0 then
             if ae_timer (n_entries s e) = None then
               let s = upd_entry e (\<lambda>en. en\<lparr>ae_flags := ae_flags en OR ARP_FLAG_RESOLVING\<rparr>) s in
               rbind (arp_send_pkt env s ARP_OP_REQUEST addr ETH_ADDR_BROADCAST) (\<lambda>(c, s).
                 Inr (EAGAIN, [], upd_entry e (\<lambda>en. en\<lparr>ae_timer := Some ARP_RESOLVE_TIMEOUT\<rparr>) s))
             else Inr (EAGAIN, [], s)
           else Inr (OK, ae_mac (n_entries s e), s))"

definition arp_insert :: "env \<Rightarrow> net \<Rightarrow> u32 \<Rightarrow> bytes \<Rightarrow> (code \<times> net) res" where
  "arp_insert env s addr mac =
     rbind (arp_lookup env s addr False) (\<lambda>(r, s).
       rbind (case r of
           Some e \<Rightarrow> Inr (Some e, s)
         | None \<Rightarrow>
             rbind (mempool_alloc (n_arp_pool s)) (\<lambda>(r, p).
               let s = s\<lparr>n_arp_pool := p\<rparr>; idx = arp_ip_to_idx env addr in
               case r of
                 None \<Rightarrow> Inr (None, s)
               | Some e \<Rightarrow>
                   let s = upd_entry e (\<lambda>en. en\<lparr>ae_addr := addr, ae_flags := ARP_FLAG_VALID OR ARP_FLAG_STATIC,
                         ae_retries := 0, ae_timer := None, ae_handler := False\<rparr>) s in
                   Inr (Some e, s\<lparr>n_tbl := (n_tbl s)(idx := e # n_tbl s idx)\<rparr>))) (\<lambda>(r, s).
         case r of
           None \<Rightarrow> Inr (ENOMEM, s)
         | Some e \<Rightarrow> Inr (OK, upd_entry e (\<lambda>en. en\<lparr>ae_timer := None, ae_mac := mac\<rparr>) s)))"

section \<open>Waiting packets and the timer\<close>

fun free_pending :: "nat list \<Rightarrow> net \<Rightarrow> net res" where
  "free_pending [] s = Inr s"
| "free_pending (p # ps) s =
     rbind (mbuf_free s (pp_mbuf (n_pkts s p))) (\<lambda>s.
     rbind (mempool_free (n_pending_pool s) p) (\<lambda>q.
       free_pending ps (s\<lparr>n_pending_pool := q\<rparr>)))"

text \<open>The timer of entry \<open>e\<close> has fired and is no longer pending; \<open>fg\<close> is the flow group it is called with.\<close>

definition arp_timer_handler :: "env \<Rightarrow> net \<Rightarrow> nat \<Rightarrow> ptr \<Rightarrow> net res" where
  "arp_timer_handler env s e fg =
     rbind (assert_that (fg = None)) (\<lambda>_.
       let s = upd_entry e (\<lambda>en. en\<lparr>ae_retries := ae_retries en + 1\<rparr>) s in
       if ARP_MAX_ATTEMPTS \<le> ae_retries (n_entries s e) then
         rbind (free_pending (ae_pending_pkts (n_entries s e)) s) (\<lambda>s.
           let s = upd_entry e (\<lambda>en. en\<lparr>ae_pending_pkts := []\<rparr>) s;
             idx = arp_ip_to_idx env (ae_addr (n_entries s e));
             s = s\<lparr>n_tbl := (n_tbl s)(idx := remove1 e (n_tbl s idx))\<rparr> in
           rbind (mempool_free (n_arp_pool s) e) (\<lambda>p. Inr (s\<lparr>n_arp_pool := p\<rparr>)))
       else
         let s = upd_entry e (\<lambda>en. en\<lparr>ae_flags := ae_flags en OR ARP_FLAG_RESOLVING\<rparr>) s;
           target = (if ae_flags (n_entries s e) AND ARP_FLAG_VALID \<noteq> 0 then ae_mac (n_entries s e) else ETH_ADDR_BROADCAST) in
         rbind (arp_send_pkt env s ARP_OP_REQUEST (ae_addr (n_entries s e)) target) (\<lambda>(c, s).
           Inr (upd_entry e (\<lambda>en. en\<lparr>ae_timer := Some ARP_RETRY_TIMEOUT\<rparr>) s)))"

definition arp_add_pending_pkt :: "env \<Rightarrow> net \<Rightarrow> u32 \<Rightarrow> nat \<Rightarrow> nat \<Rightarrow> nat \<Rightarrow> (code \<times> net) res" where
  "arp_add_pending_pkt env s dst_addr fg mbuf len =
     rbind (arp_lookup env s dst_addr False) (\<lambda>(r, s).
       case r of
         None \<Rightarrow> Inr (ENOENT, s)
       | Some e \<Rightarrow>
           rbind (mempool_alloc (n_pending_pool s)) (\<lambda>(r, p).
             let s = s\<lparr>n_pending_pool := p\<rparr> in
             case r of
               None \<Rightarrow> Inr (ENOMEM, s)
             | Some pkt \<Rightarrow>
                 let s = s\<lparr>n_pkts := (n_pkts s)(pkt := \<lparr>pp_dst_addr = dst_addr, pp_fg = fg, pp_mbuf = mbuf,
                       pp_len = len, pp_cpu = e_cpu_id env, pp_dispatched = False\<rparr>)\<rparr> in
                 Inr (OK, upd_entry e (\<lambda>en. en\<lparr>ae_pending_pkts := pkt # ae_pending_pkts en\<rparr>) s)))"

section \<open>Initialisation\<close>

definition MAX_PENDING_PKTS :: nat where "MAX_PENDING_PKTS = 1024"

definition ARP_MAX_ENTRIES :: nat where "ARP_MAX_ENTRIES = 65536"

text \<open>
  A pool from the page allocator's answer \<open>buf\<close>; \<open>None\<close> is the error of \<open>mempool_create_datastore\<close>. A
  \<open>struct pending_pkt\<close> has 56 bytes, a \<open>struct arp_entry\<close> 80.
\<close>

definition create_pool :: "pool \<Rightarrow> ptr \<Rightarrow> nat \<Rightarrow> nat \<Rightarrow> pool option res" where
  "create_pool p buf nr_elems elem_len =
     rbind (mempool_create_datastore (pl_heap p) (pl_ds p) buf nr_elems elem_len False MEMPOOL_DEFAULT_CHUNKSIZE) (\<lambda>r.
       case r of
         None \<Rightarrow> Inr None
       | Some (h, ds) \<Rightarrow> rbind (mempool_create (pl_mp p) ds 0 0) (\<lambda>m. Inr (Some \<lparr>pl_heap = h, pl_ds = ds, pl_mp = m\<rparr>)))"

definition arp_init :: "net \<Rightarrow> ptr \<Rightarrow> ptr \<Rightarrow> net option res" where
  "arp_init s buf1 buf2 =
     rbind (create_pool (n_pending_pool s) buf1 MAX_PENDING_PKTS 56) (\<lambda>r.
       case r of
         None \<Rightarrow> Inr None
       | Some p \<Rightarrow>
           rbind (create_pool (n_arp_pool s) buf2 ARP_MAX_ENTRIES 80) (\<lambda>r.
             case r of
               None \<Rightarrow> Inr None
             | Some q \<Rightarrow> Inr (Some (s\<lparr>n_pending_pool := p, n_arp_pool := q\<rparr>))))"

end
