(* ===== verification/Ip.thy ===== *)
theory Ip
  imports Arp
begin

text \<open>
  IP, ICMP and UDP: the models of \<open>dp/net/ip.c\<close>, \<open>dp/net/icmp.c\<close>, \<open>dp/net/udp.c\<close> and the header builder of
  \<open>dp/net/net.h\<close>. Headers are byte lists at offsets of a packet buffer; a flow group is named by the index of
  its device. The TCP input routine is a parameter of the dispatcher.
\<close>

section \<open>Headers\<close>

definition IPPROTO_ICMP :: u8 where "IPPROTO_ICMP = 1"

definition IPPROTO_TCP :: u8 where "IPPROTO_TCP = 6"

definition IPPROTO_UDP :: u8 where "IPPROTO_UDP = 17"

definition IP_MF :: u16 where "IP_MF = 0x2000"

definition IP_OFFMASK :: u16 where "IP_OFFMASK = 0x1fff"

definition ip_setup_header :: "u8 \<Rightarrow> u32 \<Rightarrow> u32 \<Rightarrow> u16 \<Rightarrow> bytes" where
  "ip_setup_header proto saddr daddr l4len =
     [0x45, 0] @ to_le 2 (bswap16 (20 + l4len)) @ [0, 0, 0, 0, 64, proto, 0, 0] @
     to_le 4 (bswap32 saddr) @ to_le 4 (bswap32 daddr)"

section \<open>Sending\<close>

definition ip_send_one :: "env \<Rightarrow> net \<Rightarrow> nat \<Rightarrow> u32 \<Rightarrow> nat \<Rightarrow> nat \<Rightarrow> (code \<times> net) res" where
  "ip_send_one env s cur_fg dst_addr pkt len =
     (let s = store pkt 6 (c_mac env) s;
        s = store pkt 12 (to_le 2 (bswap16 ETHTYPE_IP)) s;
        dst = (if dst_addr AND c_mask env = c_host_addr env AND c_mask env then dst_addr else c_gateway_addr env) in
      rbind (arp_lookup_mac env s dst) (\<lambda>(ret, mac, s).
        if ret \<noteq> OK then rbind (arp_add_pending_pkt env s dst cur_fg pkt len) (\<lambda>(_, s). Inr (OK, s))
        else
          let s = store pkt 0 mac s in
          rbind (eth_send_one s cur_fg pkt len) (\<lambda>(ret, s). Inr (if ret = OK then OK else EIO, s))))"

text \<open>The job a core runs for a waiting packet; the packet is unlinked from the list it is in.\<close>

definition send_pending_pkt :: "env \<Rightarrow> net \<Rightarrow> nat \<Rightarrow> net res" where
  "send_pending_pkt env s p =
     (let pkt = n_pkts s p in
      rbind (ip_send_one env s (pp_fg pkt) (pp_dst_addr pkt) (pp_mbuf pkt) (pp_len pkt)) (\<lambda>(ret, s).
      rbind (if ret \<noteq> OK then mbuf_free s (pp_mbuf pkt) else Inr s) (\<lambda>s.
        let s = s\<lparr>n_entries := (\<lambda>e. (n_entries s e)\<lparr>ae_pending_pkts := remove1 p (ae_pending_pkts (n_entries s e))\<rparr>)\<rparr> in
        rbind (mempool_free (n_pending_pool s) p) (\<lambda>q. Inr (s\<lparr>n_pending_pool := q\<rparr>)))))"

text \<open>The loop that copies a chain of packet buffers behind the headers.\<close>

partial_function (option) copy_pbufs :: "pheap \<Rightarrow> ptr \<Rightarrow> nat \<Rightarrow> bytes \<Rightarrow> bytes res option" where
  "copy_pbufs h curp payload d =
     (case curp of
        None \<Rightarrow> Some (Inr d)
      | Some a \<Rightarrow>
          (case rbind (deref h curp) (\<lambda>b. rbind (pb_read b 0 (unat (pb_len b))) (\<lambda>bs.
                  if payload + length bs \<le> MBUF_DATA_LEN then Inr (pb_next b, payload + length bs, put payload bs d)
                  else Inl OutOfBounds)) of
             Inl f \<Rightarrow> Some (Inl f)
           | Inr (curp, payload, d) \<Rightarrow> copy_pbufs h curp payload d))"

definition PKT_TX_IP_CKSUM :: u16 where "PKT_TX_IP_CKSUM = 0x1000"

definition PKT_TX_TCP_CKSUM :: u16 where "PKT_TX_TCP_CKSUM = 0x2000"

text \<open>\<open>src\<close> and \<open>dest\<close> are in network byte order here.\<close>

definition ip_output_hinted ::
  "env \<Rightarrow> net \<Rightarrow> pheap \<Rightarrow> nat \<Rightarrow> nat \<Rightarrow> u32 \<Rightarrow> u32 \<Rightarrow> u8 \<Rightarrow> u8 \<Rightarrow> u8 \<Rightarrow> (code \<times> net) res option" where
  "ip_output_hinted env s h cur_fg p src dest ttl tos proto =
     (case mbuf_alloc_local s of
        Inl f \<Rightarrow> Some (Inl f)
      | Inr (None, s) \<Rightarrow> Some (Inr (ENOMEM, s))
      | Inr (Some pkt, s) \<Rightarrow>
          (case deref h (Some p) of
             Inl f \<Rightarrow> Some (Inl f)
           | Inr b \<Rightarrow>
               let tot_len = pb_tot_len b;
                 s = store pkt 14 (ip_setup_header proto (bswap32 src) (bswap32 dest) tot_len) s;
                 s = store pkt 15 [tos] s;
                 s = store pkt 22 [ttl] s in
               (case copy_pbufs h (Some p) 34 (mdata s pkt) of
                  None \<Rightarrow> None
                | Some (Inl f) \<Rightarrow> Some (Inl f)
                | Some (Inr d) \<Rightarrow>
                    let s = upd_mbuf pkt (\<lambda>b. b\<lparr>mb_data := d, mb_ol_flags := PKT_TX_IP_CKSUM OR PKT_TX_TCP_CKSUM\<rparr>) s in
                    Some (rbind (ip_send_one env s cur_fg (bswap32 dest) pkt (34 + unat tot_len)) (\<lambda>(ret, s).
                      if ret = OK then Inr (OK, s) else rbind (mbuf_free s pkt) (\<lambda>s. Inr (EIO, s)))))))"

section \<open>ICMP\<close>

definition ICMP_MINLEN :: nat where "ICMP_MINLEN = 8"

definition ICMP_ECHO :: u8 where "ICMP_ECHO = 8"

definition ICMP_ECHOREPLY :: u8 where "ICMP_ECHOREPLY = 0"

definition icmp_reflect :: "env \<Rightarrow> net \<Rightarrow> nat \<Rightarrow> nat \<Rightarrow> nat \<Rightarrow> nat \<Rightarrow> (code \<times> net) res" where
  "icmp_reflect env s cur_fg pkt hdr len =
     (let s = store pkt 0 (field (mdata s pkt) 6 6) s;
        s = store pkt 6 (c_mac env) s;
        s = store pkt (14 + 16) (field (mdata s pkt) (14 + 12) 4) s;
        s = store pkt (14 + 12) (to_le 4 (bswap32 (c_host_addr env))) s;
        s = store pkt (hdr + 2) [0, 0] s;
        s = store pkt (hdr + 2) (to_le 2 (chksum_internet (field (mdata s pkt) hdr len))) s;
        s = upd_mbuf pkt (\<lambda>b. b\<lparr>mb_ol_flags := 0\<rparr>) s in
      rbind (eth_send_one s cur_fg pkt (mb_len (n_mbufs s pkt))) (\<lambda>(ret, s).
        if ret = OK then Inr (OK, s) else rbind (mbuf_free s pkt) (\<lambda>s. Inr (EIO, s))))"

text \<open>An echo reply is only logged.\<close>

definition icmp_input :: "env \<Rightarrow> net \<Rightarrow> nat \<Rightarrow> nat \<Rightarrow> nat \<Rightarrow> nat \<Rightarrow> net res" where
  "icmp_input env s cur_fg pkt hdr len =
     (if len < ICMP_MINLEN then mbuf_free s pkt
      else if chksum_internet (field (mdata s pkt) hdr len) \<noteq> 0 then mbuf_free s pkt
      else if field (mdata s pkt) hdr 1 = [ICMP_ECHO] then
        let s = store pkt hdr [ICMP_ECHOREPLY] s in
        rbind (icmp_reflect env s cur_fg pkt hdr len) (\<lambda>(_, s). Inr s)
      else mbuf_free s pkt)"

definition icmp_echo :: "env \<Rightarrow> net \<Rightarrow> nat \<Rightarrow> u32 \<Rightarrow> u16 \<Rightarrow> u16 \<Rightarrow> u64 \<Rightarrow> (code \<times> net) res" where
  "icmp_echo env s cur_fg dest ident seq timestamp =
     rbind (mbuf_alloc_local s) (\<lambda>(r, s).
       case r of
         None \<Rightarrow> Inr (ENOMEM, s)
       | Some pkt \<Rightarrow>
           let len = 4 + 4 + 8;
             s = store pkt 14 ([0x45, 0] @ to_le 2 (bswap16 (20 + 16)) @ [0, 0, 0, 0, 64, IPPROTO_ICMP, 0, 0] @
                   to_le 4 (bswap32 (c_host_addr env)) @ to_le 4 (bswap32 dest)) s;
             s = store pkt 24 (to_le 2 (chksum_internet (field (mdata s pkt) 14 20))) s;
             s = store pkt 34 ([ICMP_ECHO, ICMP_ECHOREPLY, 0, 0] @ to_le 2 (bswap16 ident) @ to_le 2 (bswap16 seq) @
                   to_le 8 timestamp) s;
             s = store pkt 36 (to_le 2 (chksum_internet (field (mdata s pkt) 34 len))) s;
             s = upd_mbuf pkt (\<lambda>b. b\<lparr>mb_ol_flags := 0\<rparr>) s in
           rbind (ip_send_one env s cur_fg dest pkt (14 + 20 + len)) (\<lambda>(ret, s).
             if ret = OK then Inr (OK, s) else rbind (mbuf_free s pkt) (\<lambda>s. Inr (EIO, s))))"

section \<open>UDP\<close>

datatype ret = RET_OK | RET_NOBUFS | RET_INVAL | RET_AGAIN | RET_FAULT | RET_NOSYS | RET_CODE code

record ip_tuple =
  src_ip :: u32
  dst_ip :: u32
  src_port :: u16
  dst_port :: u16

definition tuple_bytes :: "ip_tuple \<Rightarrow> bytes" where
  "tuple_bytes t = to_le 4 (src_ip t) @ to_le 4 (dst_ip t) @ to_le 2 (src_port t) @ to_le 2 (dst_port t)"

text \<open>The address of a position in a buffer's data.\<close>

definition mbuf_mtod_off :: "nat \<Rightarrow> nat \<Rightarrow> u64" where
  "mbuf_mtod_off m off = of_nat (m + MBUF_HEADER_LEN + off)"

definition mbuf_to_iomap :: "net \<Rightarrow> u64 \<Rightarrow> u64 res" where
  "mbuf_to_iomap s pos = mempool_pagemem_to_iomap (pl_mp (n_mbuf_pool s)) pos"

definition udp_input :: "net \<Rightarrow> nat \<Rightarrow> nat \<Rightarrow> nat \<Rightarrow> net res" where
  "udp_input s pkt iphdr udphdr =
     (let d = mdata s pkt; len = unat (bswap16 (from_le (field d (udphdr + 4) 2))) in
      if \<not> mbuf_enough_space s pkt udphdr len then mbuf_free s pkt
      else
        let tup = \<lparr>src_ip = bswap32 (from_le (field d (iphdr + 12) 4)), dst_ip = bswap32 (from_le (field d (iphdr + 16) 4)),
              src_port = bswap16 (from_le (field d udphdr 2)), dst_port = bswap16 (from_le (field d (udphdr + 2) 2))\<rparr>;
          s = store pkt 0 (tuple_bytes tup) s;
          s = upd_mbuf pkt (\<lambda>b. b\<lparr>mb_done := DoneRecv\<rparr>) s in
        rbind (mbuf_to_iomap s (mbuf_mtod_off pkt (udphdr + 8))) (\<lambda>a.
        rbind (mbuf_to_iomap s (mbuf_mtod_off pkt 0)) (\<lambda>i.
          Inr (s\<lparr>n_usys := n_usys s @ [UsysUdpRecv a len i]\<rparr>))))"

text \<open>The references to the pages of the payload go back to the page allocator.\<close>

definition udp_mbuf_done :: "net \<Rightarrow> nat \<Rightarrow> net res" where
  "udp_mbuf_done s pkt =
     mbuf_free (s\<lparr>n_usys := n_usys s @ [UsysUdpSent (mb_done_data (n_mbufs s pkt))]\<rparr>) pkt"

definition UDP_PKT_SIZE :: nat where "UDP_PKT_SIZE = 14 + 20 + 8"

definition UDP_MAX_LEN :: nat where "UDP_MAX_LEN = 1500 - 20 - 8"

definition udp_output :: "env \<Rightarrow> net \<Rightarrow> nat \<Rightarrow> ip_tuple \<Rightarrow> nat \<Rightarrow> (ret \<times> net) res" where
  "udp_output env s pkt tup len =
     (let full_len = len + 8 in
      rbind (arp_lookup_mac env s (dst_ip tup)) (\<lambda>(r, mac, s).
        if r \<noteq> OK then Inr (RET_AGAIN, s)
        else
          let s = store pkt 0 (mac @ c_mac env @ to_le 2 (bswap16 ETHTYPE_IP)) s;
            s = store pkt 14 (ip_setup_header IPPROTO_UDP (c_host_addr env) (dst_ip tup) (of_nat full_len)) s;
            s = store pkt 24 (to_le 2 (chksum_internet (field (mdata s pkt) 14 20))) s;
            s = store pkt 34 (to_le 2 (bswap16 (src_port tup)) @ to_le 2 (bswap16 (dst_port tup)) @
                  to_le 2 (bswap16 (of_nat full_len)) @ [0, 0]) s;
            s = upd_mbuf pkt (\<lambda>b. b\<lparr>mb_ol_flags := 0, mb_len := UDP_PKT_SIZE\<rparr>) s in
          if 1 < c_eth_dev_count env then Inl Panicked
          else rbind (eth_send s 0 pkt) (\<lambda>(ret, s). Inr (if ret = OK then RET_OK else RET_CODE ret, s))))"

definition MEM_ZC_USER_START :: nat where "MEM_ZC_USER_START = 0x8000000000"

definition MEM_ZC_USER_END :: nat where "MEM_ZC_USER_END = 0x101000000000"

definition uaccess_zc_okay :: "u64 \<Rightarrow> nat \<Rightarrow> bool" where
  "uaccess_zc_okay addr len \<longleftrightarrow>
     \<not> (MEM_ZC_USER_END - MEM_ZC_USER_START < len \<or> unat addr < MEM_ZC_USER_START \<or>
        MEM_ZC_USER_END < unat (addr + of_nat len))"

text \<open>
  \<open>tup\<close> is what \<open>copy_from_user\<close> read, \<open>phys\<close> the page that \<open>vm_lookup_phys\<close> found.
\<close>

definition bsys_udp_send ::
  "env \<Rightarrow> (nat \<Rightarrow> nat) \<Rightarrow> net \<Rightarrow> u64 \<Rightarrow> nat \<Rightarrow> ip_tuple option \<Rightarrow> ptr \<Rightarrow> u64 \<Rightarrow> (ret \<times> net) res" where
  "bsys_udp_send env page_get s vaddr len tup phys cookie =
     (if UDP_MAX_LEN < len then Inr (RET_INVAL, s)
      else case tup of
        None \<Rightarrow> Inr (RET_FAULT, s)
      | Some tmp \<Rightarrow>
          if \<not> uaccess_zc_okay vaddr len then Inr (RET_FAULT, s)
          else case phys of
            None \<Rightarrow> Inr (RET_FAULT, s)
          | Some page \<Rightarrow>
              let addr = page + unat vaddr mod PGSIZE_2MB in
              rbind (mbuf_alloc_local s) (\<lambda>(r, s).
                case r of
                  None \<Rightarrow> Inr (RET_NOBUFS, s)
                | Some pkt \<Rightarrow>
                    let (iov, n) = mbuf_iov_create page_get addr len;
                      iovs = (if len \<noteq> n
                        then [iov, \<lparr>iov_base = addr + n, iov_maddr = page_get (addr + n), iov_len = len - n\<rparr>]
                        else [iov]);
                      s = upd_mbuf pkt (\<lambda>b. b\<lparr>mb_iovs := iovs, mb_done := DoneUdp, mb_done_data := cookie\<rparr>) s in
                    rbind (udp_output env s pkt tmp n) (\<lambda>(ret, s).
                      if ret = RET_OK then Inr (RET_OK, s) else rbind (mbuf_free s pkt) (\<lambda>s. Inr (ret, s)))))"

definition bsys_udp_sendv :: "net \<Rightarrow> ret \<times> net" where
  "bsys_udp_sendv s = (RET_NOSYS, s)"

definition bsys_udp_recv_done :: "net \<Rightarrow> u64 \<Rightarrow> (ret \<times> net) res" where
  "bsys_udp_recv_done s iomap =
     rbind (mempool_iomap_to_ptr (pl_mp (n_mbuf_pool s)) iomap) (\<lambda>addr.
       let off = unat addr mod PGSIZE_2MB;
         m = unat addr - off + off div MBUF_LEN * MBUF_LEN in
       if mb_done (n_mbufs s m) \<noteq> DoneRecv then Inr (RET_INVAL, s)
       else
         let s = upd_mbuf m (\<lambda>b. b\<lparr>mb_done := DoneNull\<rparr>) s in
         rbind (mbuf_free s m) (\<lambda>s. Inr (RET_OK, s)))"

section \<open>Input\<close>

text \<open>The checks of \<open>ip_input\<close> on the header at offset \<open>hdr\<close>, its length and the length of the packet.\<close>

definition ip_hdrlen :: "bytes \<Rightarrow> nat \<Rightarrow> nat" where
  "ip_hdrlen d hdr = 4 * unat (d ! hdr AND 0x0F)"

definition ip_pktlen :: "bytes \<Rightarrow> nat \<Rightarrow> nat" where
  "ip_pktlen d hdr = unat (bswap16 (from_le (field d (hdr + 2) 2)) :: u16)"

definition ip_valid :: "net \<Rightarrow> nat \<Rightarrow> nat \<Rightarrow> bool" where
  "ip_valid s pkt hdr \<longleftrightarrow>
     (let d = mdata s pkt in
      mbuf_enough_space s pkt hdr 20 \<and> drop_bit 4 (d ! hdr) = 4 \<and> \<not> (d ! hdr AND 0x0F) < 5 \<and>
      bswap16 (from_le (field d (hdr + 6) 2)) AND (IP_OFFMASK OR IP_MF) = 0 \<and>
      \<not> ip_pktlen d hdr < ip_hdrlen d hdr \<and> mbuf_enough_space s pkt hdr (ip_pktlen d hdr))"

definition ip_input ::
  "(nat \<Rightarrow> nat \<Rightarrow> nat \<Rightarrow> nat \<Rightarrow> net \<Rightarrow> net res) \<Rightarrow> env \<Rightarrow> net \<Rightarrow> nat \<Rightarrow> nat \<Rightarrow> nat \<Rightarrow> net res" where
  "ip_input tcp_input_tmp env s cur_fg pkt hdr =
     (if \<not> ip_valid s pkt hdr then mbuf_free s pkt
      else
        let d = mdata s pkt; hdrlen = ip_hdrlen d hdr; pktlen = ip_pktlen d hdr - hdrlen; proto = d ! (hdr + 9) in
        if proto = IPPROTO_TCP then tcp_input_tmp cur_fg pkt hdr (hdr + hdrlen) s
        else if proto = IPPROTO_UDP then udp_input s pkt hdr (hdr + hdrlen)
        else if proto = IPPROTO_ICMP then icmp_input env s cur_fg pkt (hdr + hdrlen) pktlen
        else mbuf_free s pkt)"

text \<open>\<open>fgs\<close> gives the device of the flow group a buffer is marked with.\<close>

definition eth_input ::
  "(nat \<Rightarrow> nat \<Rightarrow> nat \<Rightarrow> nat \<Rightarrow> net \<Rightarrow> net res) \<Rightarrow> (u16 \<Rightarrow> nat) \<Rightarrow> env \<Rightarrow> net \<Rightarrow> nat \<Rightarrow> net res" where
  "eth_input tcp_input_tmp fgs env s pkt =
     (let fg = fgs (mb_fg_id (n_mbufs s pkt)); type = from_le (field (mdata s pkt) 12 2) :: u16 in
      if type = bswap16 ETHTYPE_IP then ip_input tcp_input_tmp env s fg pkt 14
      else if type = bswap16 ETHTYPE_ARP then arp_input env s pkt 14
      else mbuf_free s pkt)"

text \<open>\<open>net_init\<close> only sets up address resolution.\<close>

definition net_init :: "net \<Rightarrow> ptr \<Rightarrow> ptr \<Rightarrow> net option res" where
  "net_init s buf1 buf2 = arp_init s buf1 buf2"

text \<open>The dotted form of an address in host byte order.\<close>

fun decimal :: "nat \<Rightarrow> string" where
  "decimal n = (if n < 10 then [char_of (48 + n)] else decimal (n div 10) @ [char_of (48 + n mod 10)])"

definition IP_ADDR_STR_LEN :: nat where "IP_ADDR_STR_LEN = 16"

definition ip_addr_to_str :: "u32 \<Rightarrow> string" where
  "ip_addr_to_str addr =
     take (IP_ADDR_STR_LEN - 1) (decimal (unat (drop_bit 24 addr AND 0xff)) @ ''.'' @ decimal (unat (drop_bit 16 addr AND 0xff)) @
       ''.'' @ decimal (unat (drop_bit 8 addr AND 0xff)) @ ''.'' @ decimal (unat (addr AND 0xff)))"

end
