(* ===== verification/Arp_Inv.thy ===== *)
theory Arp_Inv
  imports Arp
begin

text \<open>
  Address resolution keeps its table consistent and never faults: the invariant of the table, the lists of
  waiting packets, the three pools and the transmit queues, and that every operation of \<open>dp/net/arp.c\<close> keeps it.
\<close>

section \<open>The invariant\<close>

definition txq_ok :: "eth_tx_queue \<Rightarrow> bool" where
  "txq_ok q \<longleftrightarrow> int (length (tq_bufs q)) + tq_cap q \<le> int ETH_DEV_TX_QUEUE_SZ"

text \<open>
  \<open>F\<close> are the free table entries: an entry in a bucket is allocated, hashes to the bucket and is the only one
  there with its address.
\<close>

definition tbl_ok :: "env \<Rightarrow> net \<Rightarrow> nat set \<Rightarrow> bool" where
  "tbl_ok env s F \<longleftrightarrow>
     (\<forall>i. distinct (map (\<lambda>e. ae_addr (n_entries s e)) (n_tbl s i)) \<and>
       (\<forall>e \<in> set (n_tbl s i). arp_ip_to_idx env (ae_addr (n_entries s e)) = i \<and> e \<notin> F))"

text \<open>
  \<open>G\<close> are the free records of waiting packets and \<open>M\<close> the free packet buffers: a waiting packet is allocated,
  waits for one entry only, and no other one has its buffer. The list of a free entry is empty, since a new
  entry is used without initialising it.
\<close>

definition pend_ok :: "net \<Rightarrow> nat set \<Rightarrow> nat set \<Rightarrow> nat set \<Rightarrow> bool" where
  "pend_ok s F G M \<longleftrightarrow>
     (\<forall>e. distinct (ae_pending_pkts (n_entries s e)) \<and> (e \<in> F \<longrightarrow> ae_pending_pkts (n_entries s e) = []) \<and>
       (\<forall>p \<in> set (ae_pending_pkts (n_entries s e)). p \<notin> G \<and> pp_mbuf (n_pkts s p) \<notin> M \<and>
         (\<forall>e' p'. p' \<in> set (ae_pending_pkts (n_entries s e')) \<longrightarrow> pp_mbuf (n_pkts s p') = pp_mbuf (n_pkts s p) \<longrightarrow>
            e' = e \<and> p' = p)))"

definition arp_inv :: "env \<Rightarrow> net \<Rightarrow> nat set \<Rightarrow> nat set \<Rightarrow> nat set \<Rightarrow> bool" where
  "arp_inv env s F G M \<longleftrightarrow>
     holds_free (n_arp_pool s) F \<and> holds_free (n_pending_pool s) G \<and> holds_free (n_mbuf_pool s) M \<and>
     tbl_ok env s F \<and> pend_ok s F G M \<and> (\<forall>q. txq_ok (n_txqs s q))"

lemma arp_invI:
  assumes "arp_inv env s F G M"
    and "n_arp_pool t = n_arp_pool s" "n_pending_pool t = n_pending_pool s" "n_mbuf_pool t = n_mbuf_pool s"
    and "n_tbl t = n_tbl s" "n_txqs t = n_txqs s"
    and "\<And>e. ae_addr (n_entries t e) = ae_addr (n_entries s e)"
    and "\<And>e. ae_pending_pkts (n_entries t e) = ae_pending_pkts (n_entries s e)"
    and "\<And>p. pp_mbuf (n_pkts t p) = pp_mbuf (n_pkts s p)"
  shows "arp_inv env t F G M"
  using assms(1) unfolding arp_inv_def tbl_ok_def pend_ok_def assms(2-9) .

lemma pend_ok_mono: "pend_ok s F G M \<Longrightarrow> F' \<subseteq> F \<Longrightarrow> G' \<subseteq> G \<Longrightarrow> M' \<subseteq> M \<Longrightarrow> pend_ok s F' G' M'"
  unfolding pend_ok_def by blast

section \<open>Looking up and updating\<close>

lemma lookup_bucket_Some:
  assumes "arp_lookup_bucket s h addr = Some e"
  shows "e \<in> set h \<and> ae_addr (n_entries s e) = addr"
  using assms by (auto simp: arp_lookup_bucket_def find_Some_iff)

lemma tbl_ok_insert:
  assumes tb: "tbl_ok env s F" and e: "e \<in> F"
    and none: "arp_lookup_bucket s (n_tbl s (arp_ip_to_idx env addr)) addr = None"
    and t: "n_tbl t = (n_tbl s)(arp_ip_to_idx env addr := e # n_tbl s (arp_ip_to_idx env addr))"
      "ae_addr (n_entries t e) = addr" "\<And>x. x \<noteq> e \<Longrightarrow> ae_addr (n_entries t x) = ae_addr (n_entries s x)"
  shows "tbl_ok env t (F - {e})"
proof -
  have same: "ae_addr (n_entries t x) = ae_addr (n_entries s x)" if "x \<in> set (n_tbl s i)" for x i
    using tb e that by (intro t(3)) (auto simp: tbl_ok_def)
  then have m: "map (\<lambda>x. ae_addr (n_entries t x)) (n_tbl s i) = map (\<lambda>x. ae_addr (n_entries s x)) (n_tbl s i)" for i
    by simp
  have "addr \<notin> (\<lambda>x. ae_addr (n_entries s x)) ` set (n_tbl s (arp_ip_to_idx env addr))"
    using none by (auto simp: arp_lookup_bucket_def find_None_iff)
  then have "distinct (map (\<lambda>x. ae_addr (n_entries t x)) (n_tbl t i))" for i
    using tb t(2) unfolding t(1) by (cases "i = arp_ip_to_idx env addr") (simp_all add: tbl_ok_def m)
  moreover have "arp_ip_to_idx env (ae_addr (n_entries t x)) = i \<and> x \<notin> F - {e}" if "x \<in> set (n_tbl t i)" for x i
    using tb that t(1,2) same by (cases "x = e") (auto simp: tbl_ok_def split: if_splits)
  ultimately show ?thesis by (simp add: tbl_ok_def)
qed

lemma arp_lookup_inv:
  assumes inv: "arp_inv env s F G M"
  shows "\<exists>r s' F'. arp_lookup env s addr create = Inr (r, s') \<and> arp_inv env s' F' G M \<and> F' \<subseteq> F \<and>
    (\<forall>e. r = Some e \<longrightarrow> e \<in> set (n_tbl s' (arp_ip_to_idx env addr)) \<and> ae_addr (n_entries s' e) = addr) \<and>
    n_pkts s' = n_pkts s \<and> (\<forall>e. ae_pending_pkts (n_entries s' e) = ae_pending_pkts (n_entries s e)) \<and>
    (r = None \<longrightarrow> n_tbl s' = n_tbl s \<and> n_entries s' = n_entries s)"
proof (cases "arp_lookup_bucket s (n_tbl s (arp_ip_to_idx env addr)) addr")
  case (Some e)
  then show ?thesis using inv lookup_bucket_Some [OF Some] by (auto simp: arp_lookup_def)
next
  case None
  show ?thesis
  proof (cases create)
    case True
    have F: "holds_free (n_arp_pool s) F" using inv by (simp add: arp_inv_def)
    obtain r p where a: "mempool_alloc (n_arp_pool s) = Inr (r, p)"
      "case r of None \<Rightarrow> F = {} \<and> p = n_arp_pool s | Some e \<Rightarrow> e \<in> F \<and> holds_free p (F - {e})"
      using mp.alloc_law [OF F] by blast
    show ?thesis
    proof (cases r)
      case r: None
      then have "arp_lookup env s addr create = Inr (None, s\<lparr>n_arp_pool := n_arp_pool s\<rparr>)"
        using None True a by (simp add: arp_lookup_def ix_res)
      then show ?thesis using inv by auto
    next
      case (Some e)
      let ?i = "arp_ip_to_idx env addr"
      let ?t = "upd_entry e (\<lambda>en. en\<lparr>ae_addr := addr, ae_flags := 0, ae_retries := 0, ae_timer := None,
        ae_handler := True\<rparr>) (s\<lparr>n_arp_pool := p\<rparr>)"
      let ?s' = "?t\<lparr>n_tbl := (n_tbl s)(?i := e # n_tbl s ?i)\<rparr>"
      have run: "arp_lookup env s addr create = Inr (Some e, ?s')"
        using None True a Some by (simp add: arp_lookup_def ix_res Let_def)
      have e: "e \<in> F" "holds_free p (F - {e})" using a Some by simp_all
      have tb: "tbl_ok env s F" using inv by (simp add: arp_inv_def)
      have "tbl_ok env ?s' (F - {e})"
        using tb e(1) None by (rule tbl_ok_insert) simp_all
      moreover have pk: "\<forall>x. ae_pending_pkts (n_entries ?s' x) = ae_pending_pkts (n_entries s x)" by simp
      moreover have "pend_ok ?s' (F - {e}) G M"
        using inv pk unfolding arp_inv_def pend_ok_def by simp
      ultimately have "arp_inv env ?s' (F - {e}) G M" using inv e(2) by (simp add: arp_inv_def)
      then show ?thesis using run pk by (intro exI [of _ "Some e"] exI [of _ ?s'] exI [of _ "F - {e}"]) auto
    qed
  next
    case False
    then show ?thesis using inv None by (auto simp: arp_lookup_def)
  qed
qed

section \<open>Sending\<close>

definition owned :: "net \<Rightarrow> nat set \<Rightarrow> nat \<Rightarrow> bool" where
  "owned s M m \<longleftrightarrow> m \<notin> M \<and> (\<forall>e. \<forall>p \<in> set (ae_pending_pkts (n_entries s e)). pp_mbuf (n_pkts s p) \<noteq> m)"

abbreviation same_tbl :: "net \<Rightarrow> net \<Rightarrow> bool" where
  "same_tbl s t \<equiv> n_tbl t = n_tbl s \<and> n_entries t = n_entries s \<and> n_pkts t = n_pkts s"

lemma eth_send_one_inv:
  assumes "\<forall>q. txq_ok (n_txqs s q)"
  shows "\<exists>c X Y. eth_send_one (s :: net) q m len = Inr (c, s\<lparr>n_mbufs := X, n_txqs := Y\<rparr>) \<and> (\<forall>q. txq_ok (Y q))"
proof -
  let ?X = "(n_mbufs s)(m := (n_mbufs s m)\<lparr>mb_len := len, mb_iovs := []\<rparr>)"
  let ?Y = "(n_txqs s)(q := \<lparr>tq_cap = tq_cap (n_txqs s q) - 1, tq_bufs = tq_bufs (n_txqs s q) @ [m]\<rparr>)"
  show ?thesis
  proof (cases "tq_cap (n_txqs s q) < 1")
    case True
    then have "eth_send_one s q m len = Inr (EBUSY, s\<lparr>n_mbufs := ?X, n_txqs := n_txqs s\<rparr>)"
      by (simp add: eth_send_one_def eth_send_def Let_def)
    then show ?thesis using assms by blast
  next
    case False
    have "txq_ok (n_txqs s q)" using assms by blast
    then have "length (tq_bufs (n_txqs s q)) < ETH_DEV_TX_QUEUE_SZ" using False unfolding txq_ok_def by linarith
    then have "eth_send_one s q m len = Inr (OK, s\<lparr>n_mbufs := ?X, n_txqs := ?Y\<rparr>)"
      using False by (simp add: eth_send_one_def eth_send_def Let_def)
    moreover have "\<forall>q. txq_ok (?Y q)" using assms by (auto simp: txq_ok_def)
    ultimately show ?thesis by blast
  qed
qed

lemma mbuf_free_inv:
  assumes "arp_inv env s F G M" "owned s M m"
  shows "\<exists>s'. mbuf_free s m = Inr s' \<and> arp_inv env s' F G (insert m M) \<and> same_tbl s s'"
proof -
  have "holds_free (n_mbuf_pool s) M" "m \<notin> M" using assms by (simp_all add: arp_inv_def owned_def)
  from mp.release_law [OF this] obtain p where p: "mempool_free (n_mbuf_pool s) m = Inr p" "holds_free p (insert m M)"
    by blast
  have "pend_ok s F G (insert m M)" using assms unfolding arp_inv_def pend_ok_def owned_def by blast
  then have "pend_ok (s\<lparr>n_mbuf_pool := p\<rparr>) F G (insert m M)" by (simp add: pend_ok_def)
  moreover have "tbl_ok env (s\<lparr>n_mbuf_pool := p\<rparr>) F" using assms by (simp add: arp_inv_def tbl_ok_def)
  ultimately show ?thesis using assms p by (simp add: mbuf_free_def arp_inv_def ix_res)
qed

lemma mbuf_alloc_inv:
  assumes inv: "arp_inv env s F G M"
  shows "\<exists>r s' M'. mbuf_alloc_local s = Inr (r, s') \<and> arp_inv env s' F G M' \<and> M' \<subseteq> M \<and> same_tbl s s' \<and>
    (\<forall>m. r = Some m \<longrightarrow> owned s' M' m)"
proof -
  have M: "holds_free (n_mbuf_pool s) M" using inv by (simp add: arp_inv_def)
  obtain r p where a: "mempool_alloc (n_mbuf_pool s) = Inr (r, p)"
    "case r of None \<Rightarrow> M = {} \<and> p = n_mbuf_pool s | Some e \<Rightarrow> e \<in> M \<and> holds_free p (M - {e})"
    using mp.alloc_law [OF M] by blast
  show ?thesis
  proof (cases r)
    case None
    then have "mbuf_alloc_local s = Inr (None, s\<lparr>n_mbuf_pool := n_mbuf_pool s\<rparr>)"
      using a by (simp add: mbuf_alloc_local_def ix_res)
    then show ?thesis using inv by auto
  next
    case (Some m)
    let ?s = "upd_mbuf m (\<lambda>b. b\<lparr>mb_next := None, mb_done := DoneDefault\<rparr>) (s\<lparr>n_mbuf_pool := p\<rparr>)"
    have run: "mbuf_alloc_local s = Inr (Some m, ?s)" using a Some by (simp add: mbuf_alloc_local_def ix_res Let_def)
    have "pend_ok s F G M" using inv by (simp add: arp_inv_def)
    then have "pend_ok s F G (M - {m})" by (rule pend_ok_mono) auto
    then have "pend_ok ?s F G (M - {m})" by (simp add: pend_ok_def)
    moreover have "tbl_ok env ?s F" using inv by (simp add: arp_inv_def tbl_ok_def)
    ultimately have "arp_inv env ?s F G (M - {m})" using inv a Some by (simp add: arp_inv_def)
    moreover have "m \<in> M" using a Some by simp
    then have "owned ?s (M - {m}) m" using inv by (auto simp: owned_def arp_inv_def pend_ok_def)
    ultimately show ?thesis using run by (intro exI [of _ "Some m"] exI [of _ ?s] exI [of _ "M - {m}"]) auto
  qed
qed

text \<open>Both senders end in the same way: the buffer is queued or goes back to the pool.\<close>

lemma send_or_free_inv:
  assumes inv: "arp_inv env s F G M" and own: "owned s M pkt"
  shows "\<exists>c s' M'. rbind (eth_send_one (s\<lparr>n_mbufs := X\<rparr>) q pkt len) (\<lambda>(ret, s).
      if ret = OK then Inr (OK, s) else rbind (mbuf_free s pkt) (\<lambda>s. Inr (EIO, s))) = Inr (c, s') \<and>
    arp_inv env s' F G M' \<and> M' \<subseteq> insert pkt M \<and> same_tbl s s'"
proof -
  have "\<forall>q. txq_ok (n_txqs (s\<lparr>n_mbufs := X\<rparr>) q)" using inv by (simp add: arp_inv_def)
  from eth_send_one_inv [OF this, of q pkt len] obtain c X' Y where
    e: "eth_send_one (s\<lparr>n_mbufs := X\<rparr>) q pkt len = Inr (c, s\<lparr>n_mbufs := X', n_txqs := Y\<rparr>)" "\<forall>q. txq_ok (Y q)" by auto
  let ?t = "s\<lparr>n_mbufs := X', n_txqs := Y\<rparr>"
  have t: "arp_inv env ?t F G M" using inv e(2) by (simp add: arp_inv_def tbl_ok_def pend_ok_def)
  have "owned ?t M pkt" using own by (simp add: owned_def)
  from mbuf_free_inv [OF t this] obtain s' where
    f: "mbuf_free ?t pkt = Inr s'" "arp_inv env s' F G (insert pkt M)" "same_tbl ?t s'" by blast
  show ?thesis
  proof (cases "c = OK")
    case True
    then show ?thesis using e(1) t by (intro exI [of _ OK] exI [of _ ?t] exI [of _ M]) (auto simp: ix_res)
  next
    case False
    then show ?thesis using e(1) f by (intro exI [of _ EIO] exI [of _ s'] exI [of _ "insert pkt M"]) (auto simp: ix_res)
  qed
qed

lemma arp_send_pkt_inv:
  assumes inv: "arp_inv env s F G M"
  shows "\<exists>c s' M'. arp_send_pkt env s op ip mac = Inr (c, s') \<and> arp_inv env s' F G M' \<and> same_tbl s s'"
proof -
  obtain r t M' where a: "mbuf_alloc_local s = Inr (r, t)" "arp_inv env t F G M'" "same_tbl s t"
    "\<forall>m. r = Some m \<longrightarrow> owned t M' m" using mbuf_alloc_inv [OF inv] by blast
  show ?thesis
  proof (cases r)
    case None
    then show ?thesis using a by (auto simp: arp_send_pkt_def ix_res)
  next
    case (Some pkt)
    have "owned t M' pkt" using a Some by blast
    from send_or_free_inv [OF a(2) this, where q = 0 and len = ARP_PKT_SIZE and X = "(n_mbufs t)
        (pkt := (n_mbufs t pkt)\<lparr>mb_data := put 0 (arp_frame env op ip mac) (mdata t pkt), mb_ol_flags := 0\<rparr>)"]
    obtain c s' M'' where f: "rbind (eth_send_one (t\<lparr>n_mbufs := (n_mbufs t)
          (pkt := (n_mbufs t pkt)\<lparr>mb_data := put 0 (arp_frame env op ip mac) (mdata t pkt), mb_ol_flags := 0\<rparr>)\<rparr>) 0 pkt ARP_PKT_SIZE)
        (\<lambda>(ret, s). if ret = OK then Inr (OK, s) else rbind (mbuf_free s pkt) (\<lambda>s. Inr (EIO, s))) = Inr (c, s')"
      "arp_inv env s' F G M''" "same_tbl t s'" by blast
    have "arp_send_pkt env s op ip mac = Inr (c, s')"
      using a(1) f(1) Some by (simp add: arp_send_pkt_def ix_res Let_def)
    then show ?thesis using f(2,3) a(3) by (intro exI [of _ c] exI [of _ s'] exI [of _ M'']) simp
  qed
qed

section \<open>The operations\<close>

lemma upd_entry_inv:
  assumes "arp_inv env s F G M" "ae_addr (f (n_entries s e)) = ae_addr (n_entries s e)"
    "ae_pending_pkts (f (n_entries s e)) = ae_pending_pkts (n_entries s e)"
  shows "arp_inv env (upd_entry e f s) F G M"
  by (rule arp_invI [OF assms(1)]) (simp_all add: assms)

lemma dispatch_pending_inv:
  "arp_inv env s F G M \<Longrightarrow> arp_inv env (dispatch_pending ps s) F G M \<and> n_entries (dispatch_pending ps s) = n_entries s \<and>
     n_tbl (dispatch_pending ps s) = n_tbl s \<and> (\<forall>p. pp_mbuf (n_pkts (dispatch_pending ps s) p) = pp_mbuf (n_pkts s p)) \<and>
     n_mbufs (dispatch_pending ps s) = n_mbufs s \<and> n_txqs (dispatch_pending ps s) = n_txqs s"
proof (induction ps arbitrary: s)
  case (Cons p ps)
  let ?t = "if \<not> pp_dispatched (n_pkts s p)
    then s\<lparr>n_jobs := n_jobs s @ [p], n_pkts := (n_pkts s)(p := (n_pkts s p)\<lparr>pp_dispatched := True\<rparr>)\<rparr> else s"
  have "arp_inv env ?t F G M" by (rule arp_invI [OF Cons.prems]) simp_all
  from Cons.IH [OF this] show ?case by (simp split: if_splits)
qed simp

lemma arp_update_mac_inv:
  assumes inv: "arp_inv env s F G M"
  shows "\<exists>c s' F'. arp_update_mac env s addr mac create = Inr (c, s') \<and> arp_inv env s' F' G M \<and>
    (\<forall>e. ae_pending_pkts (n_entries s' e) = ae_pending_pkts (n_entries s e)) \<and>
    (\<forall>p. pp_mbuf (n_pkts s' p) = pp_mbuf (n_pkts s p))"
proof -
  obtain r t F' where l: "arp_lookup env s addr create = Inr (r, t)" "arp_inv env t F' G M" "n_pkts t = n_pkts s"
    "\<forall>e. ae_pending_pkts (n_entries t e) = ae_pending_pkts (n_entries s e)" using arp_lookup_inv [OF inv] by blast
  show ?thesis
  proof (cases r)
    case None
    then show ?thesis using l by (auto simp: arp_update_mac_def ix_res)
  next
    case (Some e)
    show ?thesis
    proof (cases "ae_flags (n_entries t e) AND ARP_FLAG_STATIC \<noteq> 0")
      case True
      then show ?thesis using l Some by (auto simp: arp_update_mac_def ix_res)
    next
      case False
      let ?u = "upd_entry e (\<lambda>en. en\<lparr>ae_mac := mac, ae_flags := ARP_FLAG_VALID, ae_retries := 0,
        ae_timer := Some ARP_REFRESH_TIMEOUT\<rparr>) t"
      let ?s' = "dispatch_pending (ae_pending_pkts (n_entries t e)) ?u"
      have run: "arp_update_mac env s addr mac create = Inr (OK, ?s')"
        using l(1) Some False by (simp add: arp_update_mac_def ix_res Let_def)
      have "arp_inv env ?u F' G M" by (rule upd_entry_inv [OF l(2)]) simp_all
      from dispatch_pending_inv [OF this] show ?thesis
        using run l(3,4) by (intro exI [of _ OK] exI [of _ ?s'] exI [of _ F']) simp
    qed
  qed
qed

lemma arp_lookup_mac_inv:
  assumes inv: "arp_inv env s F G M"
  shows "\<exists>c mac s' F' M'. arp_lookup_mac env s addr = Inr (c, mac, s') \<and> arp_inv env s' F' G M'"
proof -
  obtain r t F' where l: "arp_lookup env s addr True = Inr (r, t)" "arp_inv env t F' G M" using arp_lookup_inv [OF inv] by blast
  show ?thesis
  proof (cases r)
    case None
    then show ?thesis using l by (auto simp: arp_lookup_mac_def ix_res)
  next
    case (Some e)
    show ?thesis
    proof (cases "ae_flags (n_entries t e) AND ARP_FLAG_VALID = 0 \<and> ae_timer (n_entries t e) = None")
      case False
      then show ?thesis using l Some by (auto simp: arp_lookup_mac_def ix_res)
    next
      case True
      let ?u = "upd_entry e (\<lambda>en. en\<lparr>ae_flags := ae_flags en OR ARP_FLAG_RESOLVING\<rparr>) t"
      have "arp_inv env ?u F' G M" by (rule upd_entry_inv [OF l(2)]) simp_all
      from arp_send_pkt_inv [OF this] obtain c v M' where
        s: "arp_send_pkt env ?u ARP_OP_REQUEST addr ETH_ADDR_BROADCAST = Inr (c, v)" "arp_inv env v F' G M'" by blast
      have "arp_lookup_mac env s addr = Inr (EAGAIN, [], upd_entry e (\<lambda>en. en\<lparr>ae_timer := Some ARP_RESOLVE_TIMEOUT\<rparr>) v)"
        using l(1) Some True s(1) by (simp add: arp_lookup_mac_def ix_res Let_def)
      moreover have "arp_inv env (upd_entry e (\<lambda>en. en\<lparr>ae_timer := Some ARP_RESOLVE_TIMEOUT\<rparr>) v) F' G M'"
        by (rule upd_entry_inv [OF s(2)]) simp_all
      ultimately show ?thesis by blast
    qed
  qed
qed

lemma arp_insert_inv:
  assumes inv: "arp_inv env s F G M"
  shows "\<exists>c s' F'. arp_insert env s addr mac = Inr (c, s') \<and> arp_inv env s' F' G M"
proof -
  let ?i = "arp_ip_to_idx env addr"
  let ?upd = "\<lambda>e. upd_entry e (\<lambda>en. en\<lparr>ae_timer := None, ae_mac := mac\<rparr>)"
  have upd: "arp_inv env (?upd e t) F' G M" if "arp_inv env t F' G M" for e t F'
    by (rule upd_entry_inv [OF that]) simp_all
  show ?thesis
  proof (cases "arp_lookup_bucket s (n_tbl s ?i) addr")
    case (Some e)
    then have "arp_insert env s addr mac = Inr (OK, ?upd e s)"
      by (simp add: arp_insert_def arp_lookup_def ix_res Let_def)
    then show ?thesis using upd [OF inv] by blast
  next
    case None
    have F: "holds_free (n_arp_pool s) F" using inv by (simp add: arp_inv_def)
    obtain r p where a: "mempool_alloc (n_arp_pool s) = Inr (r, p)"
      "case r of None \<Rightarrow> F = {} \<and> p = n_arp_pool s | Some e \<Rightarrow> e \<in> F \<and> holds_free p (F - {e})"
      using mp.alloc_law [OF F] by blast
    show ?thesis
    proof (cases r)
      case r: None
      then have "arp_insert env s addr mac = Inr (ENOMEM, s\<lparr>n_arp_pool := n_arp_pool s\<rparr>)"
        using None a by (simp add: arp_insert_def arp_lookup_def ix_res Let_def)
      then show ?thesis using inv by auto
    next
      case (Some e)
      let ?t = "upd_entry e (\<lambda>en. en\<lparr>ae_addr := addr, ae_flags := ARP_FLAG_VALID OR ARP_FLAG_STATIC, ae_retries := 0,
        ae_timer := None, ae_handler := False\<rparr>) (s\<lparr>n_arp_pool := p\<rparr>)"
      let ?u = "?t\<lparr>n_tbl := (n_tbl s)(?i := e # n_tbl s ?i)\<rparr>"
      have run: "arp_insert env s addr mac = Inr (OK, ?upd e ?u)"
        using None a Some by (simp add: arp_insert_def arp_lookup_def ix_res Let_def)
      have "tbl_ok env s F" "e \<in> F" "holds_free p (F - {e})" using inv a Some by (simp_all add: arp_inv_def)
      then have "tbl_ok env ?u (F - {e})" by (intro tbl_ok_insert [OF _ _ None]) simp_all
      moreover have "\<forall>x. ae_pending_pkts (n_entries ?u x) = ae_pending_pkts (n_entries s x)" by simp
      then have "pend_ok ?u (F - {e}) G M" using inv unfolding arp_inv_def pend_ok_def by simp
      ultimately have "arp_inv env ?u (F - {e}) G M" using inv \<open>holds_free p (F - {e})\<close> by (simp add: arp_inv_def)
      from upd [OF this] run show ?thesis by blast
    qed
  qed
qed

lemma pend_ok_uniq:
  assumes "pend_ok s F G M" "x \<in> set (ae_pending_pkts (n_entries s y))" "x' \<in> set (ae_pending_pkts (n_entries s y'))"
    "pp_mbuf (n_pkts s x') = pp_mbuf (n_pkts s x)"
  shows "y' = y \<and> x' = x"
  using assms(1) unfolding pend_ok_def by (meson assms(2-4))

lemma pend_okD:
  assumes "pend_ok s F G M" "p \<in> set (ae_pending_pkts (n_entries s e))"
  shows "p \<notin> G" "pp_mbuf (n_pkts s p) \<notin> M"
  using assms unfolding pend_ok_def by simp_all

lemma pend_ok_add:
  assumes "pend_ok s F G M" "e \<notin> F" "p \<in> G" "owned s M m"
    and t: "n_entries t = (n_entries s)(e := (n_entries s e)\<lparr>ae_pending_pkts := p # ae_pending_pkts (n_entries s e)\<rparr>)"
      "n_pkts t = (n_pkts s)(p := pk)" "pp_mbuf pk = m"
  shows "pend_ok t F (G - {p}) M"
proof -
  have new: "p \<notin> set (ae_pending_pkts (n_entries s x))" for x using assms(1,3) by (auto simp: pend_ok_def)
  have l: "ae_pending_pkts (n_entries t x) = (if x = e then [p] else []) @ ae_pending_pkts (n_entries s x)" for x
    by (simp add: t(1))
  have b: "pp_mbuf (n_pkts t x) = (if x = p then m else pp_mbuf (n_pkts s x))" for x by (simp add: t(2,3))
  have pd: "x \<notin> G \<and> pp_mbuf (n_pkts s x) \<notin> M \<and> pp_mbuf (n_pkts s x) \<noteq> m \<and> x \<noteq> p"
    if "x \<in> set (ae_pending_pkts (n_entries s y))" for x y
    using assms(1,3,4) that by (auto simp: pend_ok_def owned_def)
  note uniq = pend_ok_uniq [OF assms(1)]
  have m: "m \<notin> M" using assms(4) by (simp add: owned_def)
  show ?thesis
    unfolding pend_ok_def
  proof (intro allI conjI impI ballI)
    fix x show "distinct (ae_pending_pkts (n_entries t x))"
      using assms(1) new by (auto simp: l pend_ok_def)
  next
    fix x assume "x \<in> F" then show "ae_pending_pkts (n_entries t x) = []"
      using assms(1,2) by (auto simp: l pend_ok_def)
  next
    fix x y assume "x \<in> set (ae_pending_pkts (n_entries t y))"
    then show "x \<notin> G - {p}" "pp_mbuf (n_pkts t x) \<notin> M" using pd m by (auto simp: l b split: if_splits)
  next
    fix x y y' x'
    assume "x \<in> set (ae_pending_pkts (n_entries t y))" "x' \<in> set (ae_pending_pkts (n_entries t y'))"
      "pp_mbuf (n_pkts t x') = pp_mbuf (n_pkts t x)"
    then have "(x = p \<and> y = e \<or> x \<in> set (ae_pending_pkts (n_entries s y)) \<and> x \<noteq> p)"
      "(x' = p \<and> y' = e \<or> x' \<in> set (ae_pending_pkts (n_entries s y')) \<and> x' \<noteq> p)"
      "(if x' = p then m else pp_mbuf (n_pkts s x')) = (if x = p then m else pp_mbuf (n_pkts s x))"
      using pd by (auto simp: l b split: if_splits)
    then show "y' = y" "x' = x" using pd uniq by (auto split: if_splits)
  qed
qed

lemma arp_add_pending_pkt_inv:
  assumes inv: "arp_inv env s F G M" and own: "owned s M m"
  shows "\<exists>c s' G'. arp_add_pending_pkt env s addr fg m len = Inr (c, s') \<and> arp_inv env s' F G' M"
proof (cases "arp_lookup_bucket s (n_tbl s (arp_ip_to_idx env addr)) addr")
  case None
  then show ?thesis using inv by (auto simp: arp_add_pending_pkt_def arp_lookup_def ix_res Let_def)
next
  case (Some e)
  have "holds_free (n_pending_pool s) G" using inv by (simp add: arp_inv_def)
  from mp.alloc_law [OF this] obtain r q where a: "mempool_alloc (n_pending_pool s) = Inr (r, q)"
    "case r of None \<Rightarrow> G = {} \<and> q = n_pending_pool s | Some p \<Rightarrow> p \<in> G \<and> holds_free q (G - {p})" by blast
  show ?thesis
  proof (cases r)
    case None
    then have "arp_add_pending_pkt env s addr fg m len = Inr (ENOMEM, s\<lparr>n_pending_pool := n_pending_pool s\<rparr>)"
      using Some a by (simp add: arp_add_pending_pkt_def arp_lookup_def ix_res Let_def)
    then show ?thesis using inv by auto
  next
    case r: (Some p)
    let ?pk = "\<lparr>pp_dst_addr = addr, pp_fg = fg, pp_mbuf = m, pp_len = len, pp_cpu = e_cpu_id env, pp_dispatched = False\<rparr>"
    let ?t = "upd_entry e (\<lambda>en. en\<lparr>ae_pending_pkts := p # ae_pending_pkts en\<rparr>)
      (s\<lparr>n_pending_pool := q, n_pkts := (n_pkts s)(p := ?pk)\<rparr>)"
    have run: "arp_add_pending_pkt env s addr fg m len = Inr (OK, ?t)"
      using Some a r by (simp add: arp_add_pending_pkt_def arp_lookup_def ix_res Let_def)
    have p: "p \<in> G" "holds_free q (G - {p})" using a r by simp_all
    have i: "tbl_ok env s F" "pend_ok s F G M" using inv by (simp_all add: arp_inv_def)
    have "e \<notin> F" using i(1) lookup_bucket_Some [OF Some] by (auto simp: tbl_ok_def)
    from pend_ok_add [OF i(2) this p(1) own] have "pend_ok ?t F (G - {p}) M" by simp
    moreover have "\<forall>x. ae_addr (n_entries ?t x) = ae_addr (n_entries s x)" by simp
    then have "tbl_ok env ?t F" using i(1) unfolding tbl_ok_def by simp
    ultimately have "arp_inv env ?t F (G - {p}) M" using inv p(2) by (simp add: arp_inv_def)
    then show ?thesis using run by blast
  qed
qed

lemma free_pending_pools:
  assumes "holds_free (n_pending_pool s) G" "holds_free (n_mbuf_pool s) M"
    "distinct (map (\<lambda>p. pp_mbuf (n_pkts s p)) ps)" "set ps \<inter> G = {}" "(\<lambda>p. pp_mbuf (n_pkts s p)) ` set ps \<inter> M = {}"
  shows "\<exists>a b. free_pending ps s = Inr (s\<lparr>n_pending_pool := a, n_mbuf_pool := b\<rparr>) \<and>
    holds_free a (G \<union> set ps) \<and> holds_free b (M \<union> (\<lambda>p. pp_mbuf (n_pkts s p)) ` set ps)"
  using assms
proof (induction ps arbitrary: s G M)
  case Nil
  then show ?case by (intro exI [of _ "n_pending_pool s"] exI [of _ "n_mbuf_pool s"]) simp
next
  case (Cons p ps)
  let ?m = "pp_mbuf (n_pkts s p)"
  have "?m \<notin> M" "p \<notin> G" using Cons.prems by auto
  from mp.release_law [OF Cons.prems(2) this(1)] mp.release_law [OF Cons.prems(1) this(2)] obtain a b where
    a: "mempool_free (n_mbuf_pool s) ?m = Inr b" "holds_free b (insert ?m M)"
       "mempool_free (n_pending_pool s) p = Inr a" "holds_free a (insert p G)" by blast
  let ?t = "s\<lparr>n_mbuf_pool := b, n_pending_pool := a\<rparr>"
  have "p \<notin> set ps" using Cons.prems(3) by auto
  then have "\<exists>a b. free_pending ps ?t = Inr (?t\<lparr>n_pending_pool := a, n_mbuf_pool := b\<rparr>) \<and>
    holds_free a (insert p G \<union> set ps) \<and> holds_free b (insert ?m M \<union> (\<lambda>p. pp_mbuf (n_pkts ?t p)) ` set ps)"
    using Cons.prems a by (intro Cons.IH) auto
  then show ?case using a by (auto simp: mbuf_free_def ix_res)
qed

lemma tbl_ok_remove:
  assumes "tbl_ok env s F" "e \<in> set (n_tbl s i)"
    and t: "n_tbl t = (n_tbl s)(i := remove1 e (n_tbl s i))" "\<And>x. ae_addr (n_entries t x) = ae_addr (n_entries s x)"
  shows "tbl_ok env t (insert e F)"
proof -
  have d: "distinct (map (\<lambda>x. ae_addr (n_entries s x)) (n_tbl s j))" for j using assms(1) by (simp add: tbl_ok_def)
  then have dd: "distinct (n_tbl s j)" for j by (simp add: distinct_map)
  have "distinct (map (\<lambda>x. ae_addr (n_entries t x)) (n_tbl t j))" for j
    using d [of j] dd [of j] by (auto simp: t distinct_map inj_on_def)
  moreover have "arp_ip_to_idx env (ae_addr (n_entries t x)) = j \<and> x \<notin> insert e F" if "x \<in> set (n_tbl t j)" for x j
  proof -
    have ix: "arp_ip_to_idx env (ae_addr (n_entries s y)) = k \<and> y \<notin> F" if "y \<in> set (n_tbl s k)" for y k
      using assms(1) that by (simp add: tbl_ok_def)
    show ?thesis using that ix ix [OF assms(2)] dd [of j] by (auto simp: t split: if_splits)
  qed
  ultimately show ?thesis by (simp add: tbl_ok_def)
qed

lemma pend_ok_release:
  assumes "pend_ok s F G M" "\<And>x. ae_pending_pkts (n_entries t x) = (if x = e then [] else ae_pending_pkts (n_entries s x))"
    "\<And>p. pp_mbuf (n_pkts t p) = pp_mbuf (n_pkts s p)"
  shows "pend_ok t (insert e F) (G \<union> set (ae_pending_pkts (n_entries s e)))
    (M \<union> (\<lambda>p. pp_mbuf (n_pkts s p)) ` set (ae_pending_pkts (n_entries s e)))"
proof -
  note uniq = pend_ok_uniq [OF assms(1)]
  show ?thesis
    unfolding pend_ok_def assms(2,3)
  proof (intro allI conjI impI ballI)
    fix x show "distinct (if x = e then [] else ae_pending_pkts (n_entries s x))"
      using assms(1) by (simp add: pend_ok_def)
  next
    fix x assume "x \<in> insert e F" then show "(if x = e then [] else ae_pending_pkts (n_entries s x)) = []"
      using assms(1) by (cases "x = e") (simp_all add: pend_ok_def)
  next
    fix p x assume "p \<in> set (if x = e then [] else ae_pending_pkts (n_entries s x))"
    then have p: "p \<in> set (ae_pending_pkts (n_entries s x))" "x \<noteq> e" by (simp_all split: if_splits)
    have other: "pp_mbuf (n_pkts s q) \<noteq> pp_mbuf (n_pkts s p)" if "q \<in> set (ae_pending_pkts (n_entries s e))" for q
      using uniq [OF p(1) that] p(2) by blast
    then show "p \<notin> G \<union> set (ae_pending_pkts (n_entries s e))"
      using pend_okD(1) [OF assms(1) p(1)] by blast
    show "pp_mbuf (n_pkts s p) \<notin> M \<union> (\<lambda>p. pp_mbuf (n_pkts s p)) ` set (ae_pending_pkts (n_entries s e))"
      using pend_okD(2) [OF assms(1) p(1)] other by (metis UnE imageE)
  next
    fix x p x' p'
    assume "p \<in> set (if x = e then [] else ae_pending_pkts (n_entries s x))"
      "p' \<in> set (if x' = e then [] else ae_pending_pkts (n_entries s x'))" "pp_mbuf (n_pkts s p') = pp_mbuf (n_pkts s p)"
    then show "x' = x" "p' = p" using uniq [of p x p' x'] by (simp_all split: if_splits)
  qed
qed

lemma arp_timer_handler_inv:
  assumes inv: "arp_inv env s F G M" and e: "e \<in> set (n_tbl s i)"
  shows "\<exists>s' F' G' M'. arp_timer_handler env s e None = Inr s' \<and> arp_inv env s' F' G' M'"
proof -
  let ?u = "upd_entry e (\<lambda>en. en\<lparr>ae_retries := ae_retries en + 1\<rparr>) s"
  have u: "arp_inv env ?u F G M" by (rule upd_entry_inv [OF inv]) simp_all
  show ?thesis
  proof (cases "ARP_MAX_ATTEMPTS \<le> ae_retries (n_entries ?u e)")
    case False
    let ?v = "upd_entry e (\<lambda>en. en\<lparr>ae_flags := ae_flags en OR ARP_FLAG_RESOLVING\<rparr>) ?u"
    have "arp_inv env ?v F G M" by (rule upd_entry_inv [OF u]) simp_all
    from arp_send_pkt_inv [OF this, of ARP_OP_REQUEST "ae_addr (n_entries ?v e)" "if ae_flags (n_entries ?v e) AND ARP_FLAG_VALID \<noteq> 0
        then ae_mac (n_entries ?v e) else ETH_ADDR_BROADCAST"] obtain c w M' where
      w: "arp_send_pkt env ?v ARP_OP_REQUEST (ae_addr (n_entries ?v e)) (if ae_flags (n_entries ?v e) AND ARP_FLAG_VALID \<noteq> 0
        then ae_mac (n_entries ?v e) else ETH_ADDR_BROADCAST) = Inr (c, w)" "arp_inv env w F G M'" by blast
    have "arp_timer_handler env s e None = Inr (upd_entry e (\<lambda>en. en\<lparr>ae_timer := Some ARP_RETRY_TIMEOUT\<rparr>) w)"
      unfolding arp_timer_handler_def Let_def using False w(1) by (simp add: ix_res)
    moreover have "arp_inv env (upd_entry e (\<lambda>en. en\<lparr>ae_timer := Some ARP_RETRY_TIMEOUT\<rparr>) w) F G M'"
      by (rule upd_entry_inv [OF w(2)]) simp_all
    ultimately show ?thesis by blast
  next
    case True
    let ?ps = "ae_pending_pkts (n_entries s e)" and ?b = "\<lambda>p. pp_mbuf (n_pkts s p)"
    have i: "holds_free (n_pending_pool ?u) G" "holds_free (n_mbuf_pool ?u) M" "holds_free (n_arp_pool s) F"
      "tbl_ok env ?u F" "pend_ok ?u F G M" "tbl_ok env s F" "pend_ok s F G M" using inv u by (simp_all add: arp_inv_def)
    have "e \<notin> F" "arp_ip_to_idx env (ae_addr (n_entries s e)) = i" using i(6) e by (auto simp: tbl_ok_def)
    have "inj_on ?b (set ?ps)" by (rule inj_onI) (use pend_ok_uniq [OF i(7)] in metis)
    moreover have "distinct ?ps" using i(7) by (simp add: pend_ok_def)
    moreover have "set ?ps \<inter> G = {}" "?b ` set ?ps \<inter> M = {}" using pend_okD [OF i(7)] by fastforce+
    ultimately obtain a b where f: "free_pending ?ps ?u = Inr (?u\<lparr>n_pending_pool := a, n_mbuf_pool := b\<rparr>)"
      "holds_free a (G \<union> set ?ps)" "holds_free b (M \<union> ?b ` set ?ps)"
      using free_pending_pools [OF i(1,2), of ?ps] by (auto simp: distinct_map)
    from mp.release_law [OF i(3) \<open>e \<notin> F\<close>] obtain c where c: "mempool_free (n_arp_pool s) e = Inr c" "holds_free c (insert e F)"
      by blast
    let ?v = "upd_entry e (\<lambda>en. en\<lparr>ae_pending_pkts := []\<rparr>) (?u\<lparr>n_pending_pool := a, n_mbuf_pool := b\<rparr>)"
    let ?s' = "?v\<lparr>n_tbl := (n_tbl s)(i := remove1 e (n_tbl s i)), n_arp_pool := c\<rparr>"
    have "arp_timer_handler env s e None = Inr ?s'"
      unfolding arp_timer_handler_def Let_def
      using True f(1) c(1) \<open>arp_ip_to_idx env (ae_addr (n_entries s e)) = i\<close> by (simp add: ix_res)
    moreover have "tbl_ok env ?s' (insert e F)" by (rule tbl_ok_remove [OF i(6) e]) simp_all
    moreover have "pend_ok ?s' (insert e F) (G \<union> set ?ps) (M \<union> ?b ` set ?ps)"
      by (rule pend_ok_release [OF i(7)]) simp_all
    ultimately have "arp_inv env ?s' (insert e F) (G \<union> set ?ps) (M \<union> ?b ` set ?ps)"
      using inv f c by (simp add: arp_inv_def)
    then show ?thesis using \<open>arp_timer_handler env s e None = Inr ?s'\<close> by blast
  qed
qed

text \<open>The data of the buffer after \<open>arp_send_response_reuse\<close> has rewritten it.\<close>

definition reply_data :: "env \<Rightarrow> nat \<Rightarrow> bytes \<Rightarrow> bytes" where
  "reply_data env hdr d =
     (let d = put 0 (field d 6 6) d; d = put (hdr + 6) (to_le 2 (bswap16 ARP_OP_REPLY)) d;
        d = put (hdr + 18) (field d (hdr + 8) 6) d; d = put (hdr + 24) (field d (hdr + 14) 4) d;
        d = put 6 (c_mac env) d; d = put (hdr + 14) (to_le 4 (bswap32 (c_host_addr env))) d in
      put (hdr + 8) (c_mac env) d)"

lemma response_reuse_form:
  "arp_send_response_reuse env s pkt hdr = rbind (eth_send_one (s\<lparr>n_mbufs := (n_mbufs s)(pkt := (n_mbufs s pkt)
        \<lparr>mb_data := reply_data env hdr (mdata s pkt), mb_ol_flags := 0\<rparr>)\<rparr>) 0 pkt ARP_PKT_SIZE) (\<lambda>(ret, s).
      if ret = OK then Inr (OK, s) else rbind (mbuf_free s pkt) (\<lambda>s. Inr (EIO, s)))"
  by (simp add: arp_send_response_reuse_def reply_data_def Let_def add.commute [of _ hdr])

lemma arp_input_inv:
  assumes inv: "arp_inv env s F G M" and own: "owned s M pkt"
  shows "\<exists>s' F' M'. arp_input env s pkt hdr = Inr s' \<and> arp_inv env s' F' G M'"
proof (cases "arp_valid s pkt hdr")
  case False
  then show ?thesis using mbuf_free_inv [OF inv own] by (auto simp: arp_input_def)
next
  case True
  let ?d = "mdata s pkt"
  let ?am = "c_host_addr env = bswap32 (from_le (field ?d (hdr + 24) 4))"
  let ?req = "?am \<and> bswap16 (from_le (field ?d (hdr + 6) 2)) = ARP_OP_REQUEST"
  obtain c t F' where u: "arp_update_mac env s (bswap32 (from_le (field ?d (hdr + 14) 4))) (field ?d (hdr + 8) 6) ?am = Inr (c, t)"
    "arp_inv env t F' G M" "\<forall>e. ae_pending_pkts (n_entries t e) = ae_pending_pkts (n_entries s e)"
    "\<forall>p. pp_mbuf (n_pkts t p) = pp_mbuf (n_pkts s p)" using arp_update_mac_inv [OF inv] by blast
  have own': "owned t M pkt" using own u(3,4) by (simp add: owned_def)
  have run: "arp_input env s pkt hdr =
      (if ?req then rbind (arp_send_response_reuse env t pkt hdr) (\<lambda>(c, s). Inr s) else mbuf_free t pkt)"
    using True u(1) by (simp add: arp_input_def Let_def ix_res)
  show ?thesis
  proof (cases ?req)
    case False
    then show ?thesis using run mbuf_free_inv [OF u(2) own'] by auto
  next
    case True
    from send_or_free_inv [OF u(2) own'] obtain c v M' where
      v: "arp_send_response_reuse env t pkt hdr = Inr (c, v)" "arp_inv env v F' G M'"
      unfolding response_reuse_form by blast
    then show ?thesis using run True by (auto simp: ix_res)
  qed
qed

end
