(* ===== verification/Net_Props.thy ===== *)
theory Net_Props
  imports Ip Arp_Inv
begin

text \<open>
  What the network stack promises: ping requests are answered with a well-formed reply, and address
  resolution learns, answers and keeps its table consistent.
\<close>

section \<open>Checksums of changed headers\<close>

lemma chksum_filled:
  assumes "4 \<le> length m"
  shows "chksum_internet (put 2 (to_le 2 (chksum_internet (put 2 [0, 0] m))) (put 2 [0, 0] m)) = 0"
proof -
  let ?c = "chksum_internet (put 2 [0, 0] m)"
  have "ones_sum (take 2 m @ to_le 2 ?c @ drop 4 m) = 65535"
    using assms by (intro ones_sum_with_chksum) (simp_all add: chksum_internet_correct put_def)
  moreover have "put 2 (to_le 2 ?c) (put 2 [0, 0] m) = take 2 m @ to_le 2 ?c @ drop 4 m"
    using assms by (simp add: put_def)
  ultimately show ?thesis by (simp add: chksum_internet_correct)
qed

lemma ones_sum_swap:
  assumes "even (length a)" "even (length x)" "even (length y)"
  shows "ones_sum (a @ y @ x @ r) = ones_sum (a @ x @ y @ r)"
proof -
  have e: "ones_eq (le_num (a @ u @ v @ r)) (le_num a + le_num u + le_num v + le_num r)"
    if "even (length u)" "even (length v)" for u v
  proof -
    have "ones_eq (le_num (v @ r)) (le_num v + le_num r)" by (rule le_num_even [OF that(2)])
    then have "ones_eq (le_num (u @ v @ r)) (le_num u + (le_num v + le_num r))"
      by (rule ones_eq_trans [OF le_num_even [OF that(1)] ones_eq_add [OF ones_eq_refl]])
    then have "ones_eq (le_num (a @ u @ v @ r)) (le_num a + (le_num u + (le_num v + le_num r)))"
      by (rule ones_eq_trans [OF le_num_even [OF assms(1)] ones_eq_add [OF ones_eq_refl]])
    then show ?thesis by (simp only: add.assoc)
  qed
  have "ones_eq (le_num (a @ x @ y @ r)) (le_num a + le_num y + le_num x + le_num r)"
    using e [OF assms(2,3)] by (simp only: ac_simps)
  then have "ones_eq (le_num (a @ x @ y @ r)) (le_num (a @ y @ x @ r))"
    by (rule ones_eq_trans [OF _ ones_eq_sym [OF e [OF assms(3,2)]]])
  then have "ones_eq (ones_sum (a @ x @ y @ r)) (le_num (a @ y @ x @ r))" by (rule ones_eq_trans [OF ones_eq_sum])
  from ones_sum_unique [OF ones_sum_le this] show ?thesis by simp
qed

section \<open>Ping\<close>

text \<open>The data of the reply to the echo request \<open>d\<close> with the ICMP message of \<open>len\<close> bytes at offset \<open>hdr\<close>.\<close>

definition echo_hdrs :: "env \<Rightarrow> nat \<Rightarrow> bytes \<Rightarrow> bytes" where
  "echo_hdrs env hdr d =
     put 26 (to_le 4 (bswap32 (c_host_addr env))) (put 30 (field d 26 4) (put 6 (c_mac env)
       (put 0 (field d 6 6) (put hdr [ICMP_ECHOREPLY] d))))"

definition echo_data :: "env \<Rightarrow> nat \<Rightarrow> nat \<Rightarrow> bytes \<Rightarrow> bytes" where
  "echo_data env hdr len d =
     (let d = put (hdr + 2) [0, 0] (echo_hdrs env hdr d) in
      put (hdr + 2) (to_le 2 (chksum_internet (field d hdr len))) d)"

lemma length_echo_hdrs:
  assumes "34 \<le> hdr" "hdr + 8 \<le> length d" "length (c_mac env) = 6"
  shows "length (echo_hdrs env hdr d) = length d"
  using assms by (simp add: echo_hdrs_def length_field)

lemma length_echo_data:
  assumes "34 \<le> hdr" "hdr + 8 \<le> length d" "length (c_mac env) = 6"
  shows "length (echo_data env hdr len d) = length d"
  using assms length_echo_hdrs [OF assms] by (simp add: echo_data_def Let_def)

lemma echo_hdrs_fields:
  assumes "34 \<le> hdr" "hdr + 8 \<le> length d" "length (c_mac env) = 6"
  shows "field (echo_hdrs env hdr d) 0 34 =
    field d 6 6 @ c_mac env @ field d 12 14 @ to_le 4 (bswap32 (c_host_addr env)) @ field d 26 4"
proof -
  let ?h = "to_le 4 (bswap32 (c_host_addr env))"
  have f: "field (put hdr [ICMP_ECHOREPLY] d) 0 34 = field d 0 34"
    using assms by (intro field_put_other) simp_all
  have "field (echo_hdrs env hdr d) 0 34 = put 26 ?h (put 30 (field d 26 4) (put 6 (c_mac env) (put 0 (field d 6 6) (field d 0 34))))"
    using assms by (simp add: echo_hdrs_def field_put_within length_field f)
  also have "\<dots> = field d 6 6 @ c_mac env @ field d 12 14 @ ?h @ field d 26 4"
  proof -
    have d: "take 34 d = take 6 d @ field d 6 6 @ field d 12 14 @ field d 26 4 @ field d 30 4"
      by (simp add: field_def take_add [symmetric] flip: append_assoc)
    show ?thesis
      using assms unfolding field_def [of d 0 34] by (simp add: d put_def length_field)
  qed
  finally show ?thesis .
qed

lemma echo_data_fields:
  assumes a: "34 \<le> hdr" "hdr + len \<le> length d" "8 \<le> len" "length (c_mac env) = 6"
  shows "field (echo_data env hdr len d) 0 34 = field (echo_hdrs env hdr d) 0 34"
    "field (echo_data env hdr len d) 34 (hdr - 34) = field d 34 (hdr - 34)"
    "field (echo_data env hdr len d) hdr 2 = [ICMP_ECHOREPLY, d ! (hdr + 1)]"
    "drop (hdr + 4) (echo_data env hdr len d) = drop (hdr + 4) d"
    "chksum_internet (field (echo_data env hdr len d) hdr len) = 0"
proof -
  let ?h = "echo_hdrs env hdr d"
  have l: "length ?h = length d" using a by (intro length_echo_hdrs) simp_all
  have h: "field ?h x n = field (put hdr [ICMP_ECHOREPLY] d) x n" if "34 \<le> x" for x n
    using a that by (simp add: echo_hdrs_def field_put_other length_field)
  have e: "field (echo_data env hdr len d) x n = field ?h x n" if "x + n \<le> hdr + 2 \<or> hdr + 4 \<le> x" for x n
    unfolding echo_data_def Let_def using a l that by (intro trans [OF field_put_other field_put_other]) auto
  show "field (echo_data env hdr len d) 0 34 = field ?h 0 34" using a by (intro e) simp
  show "field (echo_data env hdr len d) 34 (hdr - 34) = field d 34 (hdr - 34)"
    using a by (simp add: e h field_put_other)
  have "field (put hdr [ICMP_ECHOREPLY] d) hdr 2 = put 0 [ICMP_ECHOREPLY] (field d hdr 2)"
    using a by (simp add: field_put_within)
  also have "field d hdr 2 = [d ! hdr, d ! (hdr + 1)]"
    using a by (intro nth_equalityI) (auto simp: field_def nth_Cons' less_2_cases_iff)
  finally show "field (echo_data env hdr len d) hdr 2 = [ICMP_ECHOREPLY, d ! (hdr + 1)]"
    using a by (simp add: e h put_def)
  have "drop (hdr + 4) (echo_data env hdr len d) = field (echo_data env hdr len d) (hdr + 4) (length d - (hdr + 4))"
    using a by (simp add: field_def length_echo_data)
  also have "\<dots> = drop (hdr + 4) d"
    using a by (simp add: e h field_put_other) (simp add: field_def)
  finally show "drop (hdr + 4) (echo_data env hdr len d) = drop (hdr + 4) d" .
  have "field (echo_data env hdr len d) hdr len =
      put 2 (to_le 2 (chksum_internet (put 2 [0, 0] (field ?h hdr len)))) (put 2 [0, 0] (field ?h hdr len))"
    using a l by (simp add: echo_data_def Let_def field_put_within)
  then show "chksum_internet (field (echo_data env hdr len d) hdr len) = 0"
    using a l by (simp add: chksum_filled length_field)
qed

lemma eth_send_one_room:
  assumes "1 \<le> tq_cap (n_txqs s q)" "length (tq_bufs (n_txqs s q)) < ETH_DEV_TX_QUEUE_SZ"
  shows "eth_send_one s q m len = Inr (OK, s\<lparr>n_mbufs := (n_mbufs s)(m := (n_mbufs s m)\<lparr>mb_len := len, mb_iovs := []\<rparr>),
    n_txqs := (n_txqs s)(q := \<lparr>tq_cap = tq_cap (n_txqs s q) - 1, tq_bufs = tq_bufs (n_txqs s q) @ [m]\<rparr>)\<rparr>)"
  using assms by (simp add: eth_send_one_def eth_send_def Let_def)

lemma icmp_reflect_room:
  assumes "1 \<le> tq_cap (n_txqs s fg)" "length (tq_bufs (n_txqs s fg)) < ETH_DEV_TX_QUEUE_SZ"
  shows "icmp_reflect env s fg pkt hdr len = Inr (OK,
    s\<lparr>n_mbufs := (n_mbufs s)(pkt := (n_mbufs s pkt)\<lparr>mb_data :=
        (let d = put 0 (field (mdata s pkt) 6 6) (mdata s pkt); d = put 6 (c_mac env) d; d = put 30 (field d 26 4) d;
           d = put 26 (to_le 4 (bswap32 (c_host_addr env))) d; d = put (hdr + 2) [0, 0] d in
         put (hdr + 2) (to_le 2 (chksum_internet (field d hdr len))) d), mb_ol_flags := 0, mb_iovs := []\<rparr>),
      n_txqs := (n_txqs s)(fg := \<lparr>tq_cap = tq_cap (n_txqs s fg) - 1, tq_bufs = tq_bufs (n_txqs s fg) @ [pkt]\<rparr>)\<rparr>)"
  using assms by (simp add: icmp_reflect_def eth_send_one_room Let_def ix_res)

lemma icmp_input_echo:
  assumes "34 \<le> hdr" "hdr + len \<le> length (mdata s pkt)" "8 \<le> len" "length (c_mac env) = 6"
    "chksum_internet (field (mdata s pkt) hdr len) = 0" "mdata s pkt ! hdr = ICMP_ECHO"
    "1 \<le> tq_cap (n_txqs s fg)" "length (tq_bufs (n_txqs s fg)) < ETH_DEV_TX_QUEUE_SZ"
  shows "icmp_input env s fg pkt hdr len = Inr
    (s\<lparr>n_mbufs := (n_mbufs s)(pkt := (n_mbufs s pkt)\<lparr>mb_data := echo_data env hdr len (mdata s pkt),
         mb_ol_flags := 0, mb_iovs := []\<rparr>),
       n_txqs := (n_txqs s)(fg := \<lparr>tq_cap = tq_cap (n_txqs s fg) - 1, tq_bufs = tq_bufs (n_txqs s fg) @ [pkt]\<rparr>)\<rparr>)"
proof -
  have f: "field (mdata s pkt) hdr 1 = [ICMP_ECHO]"
    using assms by (simp add: field_def take_Suc_conv_app_nth)
  have f6: "field (put hdr [ICMP_ECHOREPLY] (mdata s pkt)) 6 6 = field (mdata s pkt) 6 6"
    using assms by (intro field_put_other) simp_all
  have f26: "field (put 6 (c_mac env) (put 0 (field (mdata s pkt) 6 6) (put hdr [ICMP_ECHOREPLY] (mdata s pkt)))) 26 4 =
      field (mdata s pkt) 26 4"
    using assms by (simp add: field_put_other length_field)
  let ?s = "store pkt hdr [ICMP_ECHOREPLY] s"
  have "icmp_input env s fg pkt hdr len = rbind (icmp_reflect env ?s fg pkt hdr len) (\<lambda>(_, s). Inr s)"
    unfolding icmp_input_def using assms(3,5) f by (simp add: ICMP_MINLEN_def Let_def)
  also have "\<dots> = Inr (s\<lparr>n_mbufs := (n_mbufs s)(pkt := (n_mbufs s pkt)\<lparr>mb_data := echo_data env hdr len (mdata s pkt),
         mb_ol_flags := 0, mb_iovs := []\<rparr>),
       n_txqs := (n_txqs s)(fg := \<lparr>tq_cap = tq_cap (n_txqs s fg) - 1, tq_bufs = tq_bufs (n_txqs s fg) @ [pkt]\<rparr>)\<rparr>)"
    using icmp_reflect_room [of ?s fg env pkt hdr len] assms(7,8)
    by (simp add: Let_def f6 f26 echo_data_def echo_hdrs_def ix_res)
  finally show ?thesis .
qed

lemma ip_valid_hdrlen:
  assumes "ip_valid s pkt 14"
  shows "20 \<le> ip_hdrlen (mdata s pkt) 14" "ip_hdrlen (mdata s pkt) 14 \<le> ip_pktlen (mdata s pkt) 14"
    "14 + ip_pktlen (mdata s pkt) 14 \<le> mb_len (n_mbufs s pkt)"
proof -
  have "\<not> (mdata s pkt ! 14 AND 0x0F) < 5" using assms by (simp add: ip_valid_def Let_def)
  then have "5 \<le> unat (mdata s pkt ! 14 AND 0x0F)" by (simp add: word_less_nat_alt not_less)
  then show "20 \<le> ip_hdrlen (mdata s pkt) 14" by (simp add: ip_hdrlen_def)
qed (use assms in \<open>simp_all add: ip_valid_def Let_def mbuf_enough_space_def\<close>)

lemma reply_header_chksum:
  assumes "34 \<le> hdr" "hdr + len \<le> length d" "8 \<le> len" "length (c_mac env) = 6"
    "field d 30 4 = to_le 4 (bswap32 (c_host_addr env))"
  shows "chksum_internet (field (echo_data env hdr len d) 14 (hdr - 14)) = chksum_internet (field d 14 (hdr - 14))"
proof -
  let ?e = "echo_data env hdr len d"
  have split: "field x 14 (hdr - 14) = drop 14 (field x 0 34) @ field x 34 (hdr - 34)" if "hdr \<le> length x" for x :: bytes
  proof -
    have "hdr - 14 = 20 + (hdr - 34)" using assms(1) by simp
    then show ?thesis by (simp only: field_def take_add drop_drop) (simp add: drop_take)
  qed
  have d: "drop 14 (field d 0 34) = field d 14 12 @ field d 26 4 @ field d 30 4"
    using take_add [of 12 8 "drop 14 d"] take_add [of 4 4 "drop 26 d"] by (simp add: field_def drop_take)
  have "drop 14 (field ?e 0 34) = field d 14 12 @ field d 30 4 @ field d 26 4"
    using assms by (simp add: echo_data_fields echo_hdrs_fields length_field) (simp add: field_def drop_take)
  moreover have "even (length (field d 14 12))" "even (length (field d 26 4))" "even (length (field d 30 4))"
    using assms by (simp_all add: length_field)
  ultimately show ?thesis
    using assms by (simp add: split d length_echo_data echo_data_fields chksum_internet_correct ones_sum_swap)
qed

text \<open>C9: A ping is answered: an Ethernet frame with a valid IP header and an ICMP echo request of at least
  eight bytes whose checksum is right is sent back in its own buffer. The reply goes to the MAC and IP address
  of the sender, comes from those of the host, has the type of an echo reply and otherwise the message of the
  request, and its ICMP checksum is right. The checksum of the IP header is as right as that of the request
  when this was addressed to the host.
\<close>

theorem ping_is_answered:
  assumes "d = mdata s pkt" "hdr = 14 + ip_hdrlen d 14" "len = ip_pktlen d 14 - ip_hdrlen d 14"
    "q = fgs (mb_fg_id (n_mbufs s pkt))"
    and frame: "from_le (field d 12 2) = bswap16 ETHTYPE_IP" "ip_valid s pkt 14" "d ! 23 = IPPROTO_ICMP"
      "mb_len (n_mbufs s pkt) \<le> length d"
    and icmp: "8 \<le> len" "chksum_internet (field d hdr len) = 0" "d ! hdr = ICMP_ECHO"
    and room: "1 \<le> tq_cap (n_txqs s q)" "length (tq_bufs (n_txqs s q)) < ETH_DEV_TX_QUEUE_SZ"
    and mac: "length (c_mac env) = 6"
  shows "\<exists>s' d'. eth_input tcp_input_tmp fgs env s pkt = Inr s' \<and> mdata s' pkt = d' \<and>
    tq_bufs (n_txqs s' q) = tq_bufs (n_txqs s q) @ [pkt] \<and>
    mb_len (n_mbufs s' pkt) = mb_len (n_mbufs s pkt) \<and> length d' = length d \<and>
    field d' 0 34 = field d 6 6 @ c_mac env @ field d 12 14 @ to_le 4 (bswap32 (c_host_addr env)) @ field d 26 4 \<and>
    field d' 34 (hdr - 34) = field d 34 (hdr - 34) \<and>
    field d' hdr 2 = [ICMP_ECHOREPLY, d ! (hdr + 1)] \<and> drop (hdr + 4) d' = drop (hdr + 4) d \<and>
    chksum_internet (field d' hdr len) = 0 \<and>
    (field d 30 4 = to_le 4 (bswap32 (c_host_addr env)) \<longrightarrow>
      chksum_internet (field d' 14 (hdr - 14)) = chksum_internet (field d 14 (hdr - 14)))"
proof -
  have h: "34 \<le> hdr" "hdr + len \<le> length d"
    using ip_valid_hdrlen [OF frame(2)] frame(4) assms(1-3) by simp_all
  have "eth_input tcp_input_tmp fgs env s pkt = icmp_input env s q pkt hdr len"
    using frame assms(1-4) by (simp add: eth_input_def ip_input_def Let_def IPPROTO_ICMP_def IPPROTO_TCP_def IPPROTO_UDP_def)
  also have "\<dots> = Inr (s\<lparr>n_mbufs := (n_mbufs s)(pkt := (n_mbufs s pkt)\<lparr>mb_data := echo_data env hdr len d,
         mb_ol_flags := 0, mb_iovs := []\<rparr>),
       n_txqs := (n_txqs s)(q := \<lparr>tq_cap = tq_cap (n_txqs s q) - 1, tq_bufs = tq_bufs (n_txqs s q) @ [pkt]\<rparr>)\<rparr>)"
    unfolding assms(1) by (rule icmp_input_echo) (use h icmp room mac assms(1) in simp_all)
  finally show ?thesis
    using h icmp(1) mac
    by (simp add: echo_data_fields echo_hdrs_fields length_echo_data reply_header_chksum)
qed

section \<open>Address resolution\<close>

lemma lookup_bucket_unique:
  assumes "tbl_ok env s F" "e \<in> set (n_tbl s i)" "ae_addr (n_entries s e) = addr"
  shows "arp_lookup_bucket s (n_tbl s i) addr = Some e"
proof (cases "arp_lookup_bucket s (n_tbl s i) addr")
  case None
  then show ?thesis using assms(2,3) by (auto simp: arp_lookup_bucket_def find_None_iff)
next
  case (Some x)
  have "distinct (map (\<lambda>e. ae_addr (n_entries s e)) (n_tbl s i))" using assms(1) by (simp add: tbl_ok_def)
  then have "inj_on (\<lambda>e. ae_addr (n_entries s e)) (set (n_tbl s i))" by (simp add: distinct_map)
  then have "x = e" using lookup_bucket_Some [OF Some] assms(2,3) by (auto dest: inj_onD)
  then show ?thesis using Some by simp
qed

lemma arp_lookup_frame:
  assumes "arp_lookup env s addr c = Inr (r, t)"
  shows "n_mbufs t = n_mbufs s \<and> n_txqs t = n_txqs s"
  using assms by (auto simp: arp_lookup_def Let_def rbind_def split: option.splits if_splits sum.splits)

lemma arp_lookup_created:
  assumes inv: "arp_inv env s F G M" and l: "arp_lookup env s addr True = Inr (r, t)"
  shows "(\<forall>e. arp_lookup_bucket s (n_tbl s (arp_ip_to_idx env addr)) addr = Some e \<longrightarrow> r = Some e \<and> t = s) \<and>
    (arp_lookup_bucket s (n_tbl s (arp_ip_to_idx env addr)) addr = None \<longrightarrow> F \<noteq> {} \<longrightarrow>
      (\<exists>e. r = Some e \<and> ae_flags (n_entries t e) = 0))"
proof -
  have "holds_free (n_arp_pool s) F" using inv by (simp add: arp_inv_def)
  from mp.alloc_law [OF this] obtain x p where "mempool_alloc (n_arp_pool s) = Inr (x, p)"
    "case x of None \<Rightarrow> F = {} \<and> p = n_arp_pool s | Some e \<Rightarrow> e \<in> F \<and> holds_free p (F - {e})" by blast
  then show ?thesis using l by (auto simp: arp_lookup_def ix_res Let_def split: option.splits)
qed

lemma arp_update_mac_learns:
  assumes inv: "arp_inv env s F G M" and l: "arp_lookup env s addr create = Inr (Some e, t)"
    and st: "ae_flags (n_entries t e) AND ARP_FLAG_STATIC = 0"
  shows "\<exists>u. arp_update_mac env s addr mac create = Inr (OK, u) \<and> n_mbufs u = n_mbufs s \<and> n_txqs u = n_txqs s \<and>
    arp_lookup_bucket u (n_tbl u (arp_ip_to_idx env addr)) addr = Some e \<and>
    ae_flags (n_entries u e) = ARP_FLAG_VALID \<and> ae_mac (n_entries u e) = mac"
proof -
  obtain F' where t: "arp_inv env t F' G M" "e \<in> set (n_tbl t (arp_ip_to_idx env addr))" "ae_addr (n_entries t e) = addr"
    using arp_lookup_inv [OF inv, of addr create] l by auto
  let ?v = "upd_entry e (\<lambda>en. en\<lparr>ae_mac := mac, ae_flags := ARP_FLAG_VALID, ae_retries := 0,
    ae_timer := Some ARP_REFRESH_TIMEOUT\<rparr>) t"
  let ?u = "dispatch_pending (ae_pending_pkts (n_entries t e)) ?v"
  have run: "arp_update_mac env s addr mac create = Inr (OK, ?u)" using l st by (simp add: arp_update_mac_def ix_res Let_def)
  have "arp_inv env ?v F' G M" by (rule upd_entry_inv [OF t(1)]) simp_all
  note d = dispatch_pending_inv [OF this, of "ae_pending_pkts (n_entries t e)"]
  have "tbl_ok env ?u F'" using d by (simp add: arp_inv_def)
  moreover have "e \<in> set (n_tbl ?u (arp_ip_to_idx env addr))" "ae_addr (n_entries ?u e) = addr" using d t by simp_all
  ultimately have "arp_lookup_bucket ?u (n_tbl ?u (arp_ip_to_idx env addr)) addr = Some e" by (rule lookup_bucket_unique)
  moreover have "ae_flags (n_entries ?u e) = ARP_FLAG_VALID" "ae_mac (n_entries ?u e) = mac" using d by simp_all
  moreover have "n_mbufs ?u = n_mbufs s" "n_txqs ?u = n_txqs s" using d arp_lookup_frame [OF l] by simp_all
  ultimately show ?thesis using run by blast
qed

lemma arp_lookup_mac_valid:
  assumes "arp_lookup_bucket s (n_tbl s (arp_ip_to_idx env addr)) addr = Some e" "ae_flags (n_entries s e) AND ARP_FLAG_VALID \<noteq> 0"
  shows "arp_lookup_mac env s addr = Inr (OK, ae_mac (n_entries s e), s)"
  using assms by (simp add: arp_lookup_mac_def arp_lookup_def ix_res Let_def)

lemma reply_frame:
  assumes "42 \<le> length d" "length (c_mac env) = 6"
  shows "field (reply_data env 14 d) 0 42 = field d 6 6 @ c_mac env @ field d 12 8 @ to_le 2 (bswap16 ARP_OP_REPLY) @
    c_mac env @ to_le 4 (bswap32 (c_host_addr env)) @ field d 22 6 @ field d 28 4"
proof -
  have d: "take 42 d = take 6 d @ field d 6 6 @ field d 12 8 @ field d 20 2 @ field d 22 6 @ field d 28 4 @ field d 32 10"
    by (simp add: field_def take_add [symmetric] flip: append_assoc)
  have "field (reply_data env 14 d) 0 42 = put 22 (c_mac env) (put 28 (to_le 4 (bswap32 (c_host_addr env)))
      (put 6 (c_mac env) (put 38 (field d 28 4) (put 32 (field d 22 6)
        (put 20 (to_le 2 (bswap16 ARP_OP_REPLY)) (put 0 (field d 6 6) (field d 0 42)))))))"
    using assms by (simp add: reply_data_def Let_def field_put_within field_put_other length_field)
  then show ?thesis
    using assms unfolding field_def [of d 0 42] by (simp add: d put_def length_field)
qed

text \<open>C12: Address resolution answers and learns: a well-formed ARP request for the address of the host is
  returned in its own buffer as the reply, and from then on the sender's address resolves to the MAC address it
  gave, unless a static entry says otherwise or the table has no room for it.
\<close>

theorem arp_request_answered:
  assumes "d = mdata s pkt" "ip = bswap32 (from_le (field d 28 4))"
    and inv: "arp_inv env s F G M" "owned s M pkt"
    and valid: "arp_valid s pkt 14" "from_le (field d 20 2) = bswap16 ARP_OP_REQUEST"
      "bswap32 (from_le (field d 38 4)) = c_host_addr env" "mb_len (n_mbufs s pkt) \<le> length d"
    and entry: "F \<noteq> {} \<or> arp_lookup_bucket s (n_tbl s (arp_ip_to_idx env ip)) ip \<noteq> None"
      "\<And>e. arp_lookup_bucket s (n_tbl s (arp_ip_to_idx env ip)) ip = Some e \<Longrightarrow> ae_flags (n_entries s e) AND ARP_FLAG_STATIC = 0"
    and room: "1 \<le> tq_cap (n_txqs s 0)" and mac: "length (c_mac env) = 6"
  shows "\<exists>s'. arp_input env s pkt 14 = Inr s' \<and> tq_bufs (n_txqs s' 0) = tq_bufs (n_txqs s 0) @ [pkt] \<and>
    frame s' pkt = field d 6 6 @ c_mac env @ field d 12 8 @ to_le 2 (bswap16 ARP_OP_REPLY) @
      c_mac env @ to_le 4 (bswap32 (c_host_addr env)) @ field d 22 6 @ field d 28 4 \<and>
    arp_lookup_mac env s' ip = Inr (OK, field d 22 6, s')"
proof -
  have len: "42 \<le> length d" using valid(1,4) by (simp add: arp_valid_def mbuf_enough_space_def Let_def)
  obtain r t where l: "arp_lookup env s ip True = Inr (r, t)" using arp_lookup_inv [OF inv(1)] by blast
  have "\<exists>e. r = Some e \<and> ae_flags (n_entries t e) AND ARP_FLAG_STATIC = 0"
    using entry arp_lookup_created [OF inv(1) l]
    by (cases "arp_lookup_bucket s (n_tbl s (arp_ip_to_idx env ip)) ip") auto
  then obtain e where e: "arp_lookup env s ip True = Inr (Some e, t)" "ae_flags (n_entries t e) AND ARP_FLAG_STATIC = 0"
    using l by blast
  from arp_update_mac_learns [OF inv(1) e, of "field d 22 6"] obtain u where
    u: "arp_update_mac env s ip (field d 22 6) True = Inr (OK, u)" "n_mbufs u = n_mbufs s" "n_txqs u = n_txqs s"
      "arp_lookup_bucket u (n_tbl u (arp_ip_to_idx env ip)) ip = Some e"
      "ae_flags (n_entries u e) = ARP_FLAG_VALID" "ae_mac (n_entries u e) = field d 22 6" by blast
  let ?v = "u\<lparr>n_mbufs := (n_mbufs u)(pkt := (n_mbufs u pkt)\<lparr>mb_data := reply_data env 14 (mdata u pkt), mb_ol_flags := 0\<rparr>)\<rparr>"
  let ?s' = "?v\<lparr>n_mbufs := (n_mbufs ?v)(pkt := (n_mbufs ?v pkt)\<lparr>mb_len := ARP_PKT_SIZE, mb_iovs := []\<rparr>),
    n_txqs := (n_txqs ?v)(0 := \<lparr>tq_cap = tq_cap (n_txqs ?v 0) - 1, tq_bufs = tq_bufs (n_txqs ?v 0) @ [pkt]\<rparr>)\<rparr>"
  have "txq_ok (n_txqs s 0)" using inv(1) by (simp add: arp_inv_def)
  then have "length (tq_bufs (n_txqs s 0)) < ETH_DEV_TX_QUEUE_SZ" using room unfolding txq_ok_def by linarith
  then have "eth_send_one ?v 0 pkt ARP_PKT_SIZE = Inr (OK, ?s')"
    using room u(3) by (intro eth_send_one_room) simp_all
  then have "arp_send_response_reuse env u pkt 14 = Inr (OK, ?s')" by (simp add: response_reuse_form ix_res)
  moreover have "bswap16 (from_le (field d 20 2)) = ARP_OP_REQUEST" unfolding valid(2) by (simp add: bswap16_def ARP_OP_REQUEST_def)
  ultimately have "arp_input env s pkt 14 = Inr ?s'"
    using u(1) valid(1,3) assms(1,2) by (simp add: arp_input_def Let_def ix_res)
  moreover have "arp_lookup_mac env ?s' ip = Inr (OK, ae_mac (n_entries ?s' e), ?s')"
    using u(4,5) by (intro arp_lookup_mac_valid) (simp_all add: arp_lookup_bucket_def ARP_FLAG_VALID_def)
  moreover have "frame ?s' pkt = field (reply_data env 14 d) 0 42"
    using u(2) assms(1) by (simp add: frame_def field_def ARP_PKT_SIZE_def)
  ultimately show ?thesis using u(3,6) reply_frame [OF len mac] by (intro exI [of _ ?s']) simp
qed


section \<open>Examples\<close>

text \<open>A host 10.0.0.1 that has received the frame \<open>d\<close> in the buffer at address 24, and nothing else yet.\<close>

definition sample_env :: env where
  "sample_env = \<lparr>c_mac = [2, 0, 0, 0, 0, 9], c_host_addr = 0x0A000001, c_mask = 0xFFFFFF00, c_gateway_addr = 0x0A0000FE,
     c_eth_dev_count = 1, e_crc32c = (\<lambda>seed v. seed XOR ucast v), e_cpu_id = 0\<rparr>"

definition sample_net :: "bytes \<Rightarrow> net" where
  "sample_net d = \<lparr>n_mbufs = (\<lambda>_. \<lparr>mb_len = length d, mb_next = None, mb_iovs = [], mb_fg_id = 0, mb_ol_flags = 0,
       mb_done = DoneDefault, mb_done_data = 0, mb_data = d\<rparr>),
     n_mbuf_pool = sample_pool, n_txqs = (\<lambda>_. \<lparr>tq_cap = 8, tq_bufs = []\<rparr>), n_tbl = (\<lambda>_. []),
     n_entries = (\<lambda>_. \<lparr>ae_addr = 0, ae_mac = [], ae_flags = 0, ae_retries = 0, ae_timer = None, ae_handler = False, ae_pending_pkts = []\<rparr>),
     n_pkts = (\<lambda>_. \<lparr>pp_dst_addr = 0, pp_fg = 0, pp_mbuf = 0, pp_len = 0, pp_cpu = 0, pp_dispatched = False\<rparr>),
     n_arp_pool = sample_pool, n_pending_pool = sample_pool, n_jobs = [], n_usys = []\<rparr>"

lemma sample_net_inv: "arp_inv env (sample_net d) {8, 16} {8, 16} {8, 16}" "owned (sample_net d) {8, 16} 24"
  using sample_pool_holds
  by (simp_all add: sample_net_def arp_inv_def tbl_ok_def pend_ok_def txq_ok_def owned_def ETH_DEV_TX_QUEUE_SZ_def)

text \<open>An echo request from 10.0.0.2, and an ARP request of that host for 10.0.0.1.\<close>

definition ping_frame :: bytes where
  "ping_frame = [2, 0, 0, 0, 0, 9, 2, 0, 0, 0, 0, 1, 8, 0, 0x45, 0, 0, 28, 0, 0, 0, 0, 64, 1, 0, 0, 10, 0, 0, 2, 10, 0, 0, 1,
     8, 0, 0xF7, 0xFF, 0, 0, 0, 0]"

definition request_frame :: bytes where
  "request_frame = [255, 255, 255, 255, 255, 255, 2, 0, 0, 0, 0, 1, 8, 6, 0, 1, 8, 0, 6, 4, 0, 1, 2, 0, 0, 0, 0, 1, 10, 0, 0, 2,
     0, 0, 0, 0, 0, 0, 10, 0, 0, 1]"

lemma ping_frame_lens: "ip_hdrlen ping_frame 14 = 20" "ip_pktlen ping_frame 14 = 28"
  by code_simp+

lemma ping_frame_facts:
  "from_le (field ping_frame 12 2) = bswap16 ETHTYPE_IP" "ping_frame ! 23 = IPPROTO_ICMP" "ping_frame ! 34 = ICMP_ECHO"
  "drop_bit 4 (ping_frame ! 14) = 4" "\<not> (ping_frame ! 14 AND 0x0F) < 5"
  "bswap16 (from_le (field ping_frame 20 2)) AND (IP_OFFMASK OR IP_MF) = 0" "length ping_frame = 42"
  "field ping_frame 6 6 = [2, 0, 0, 0, 0, 1]"
  by code_simp+

lemma ping_frame_chksum: "chksum_internet (field ping_frame 34 8) = 0"
  by (simp add: chksum_internet_correct ping_frame_def field_def ones_add_def)

theorem ping_is_answered_witness:
  "\<exists>s'. eth_input (\<lambda>_ _ _ _ s. Inr s) (\<lambda>_. 0) sample_env (sample_net ping_frame) 24 = Inr s' \<and>
     tq_bufs (n_txqs s' 0) = [24] \<and> take 6 (field (mdata s' 24) 0 34) = [2, 0, 0, 0, 0, 1] \<and>
     chksum_internet (field (mdata s' 24) 34 8) = 0"
proof -
  have d: "mdata (sample_net ping_frame) 24 = ping_frame" "mb_len (n_mbufs (sample_net ping_frame) 24) = 42"
    "n_txqs (sample_net ping_frame) = (\<lambda>_. \<lparr>tq_cap = 8, tq_bufs = []\<rparr>)"
    by (simp_all add: sample_net_def ping_frame_facts)
  have v: "ip_valid (sample_net ping_frame) 24 14"
    unfolding ip_valid_def mbuf_enough_space_def d Let_def ping_frame_lens using ping_frame_facts by simp
  have "length (c_mac sample_env) = 6" by (simp add: sample_env_def)
  then show ?thesis
    using ping_is_answered [of ping_frame "sample_net ping_frame" 24 34 8 0 "\<lambda>_. 0" sample_env "\<lambda>_ _ _ _ s. Inr s"]
      d v ping_frame_facts ping_frame_chksum ping_frame_lens by (auto simp: ETH_DEV_TX_QUEUE_SZ_def)
qed

lemma request_frame_facts:
  "from_le (field request_frame 20 2) = bswap16 ARP_OP_REQUEST" "bswap32 (from_le (field request_frame 38 4)) = c_host_addr sample_env"
  "bswap32 (from_le (field request_frame 28 4)) = 0x0A000002" "length request_frame = 42"
  "bswap16 (from_le (field request_frame 14 2)) = ARP_HTYPE_ETHER" "bswap16 (from_le (field request_frame 16 2)) = ETHTYPE_IP"
  "field request_frame 18 1 = [6]" "field request_frame 19 1 = [4]" "\<not> eth_addr_is_multicast (field request_frame 22 6)"
  "field request_frame 22 6 = [2, 0, 0, 0, 0, 1]"
  by code_simp+

theorem arp_request_answered_witness:
  "\<exists>s'. arp_input sample_env (sample_net request_frame) 24 14 = Inr s' \<and> tq_bufs (n_txqs s' 0) = [24] \<and>
     arp_lookup_mac sample_env s' 0x0A000002 = Inr (OK, [2, 0, 0, 0, 0, 1], s')"
proof -
  let ?s = "sample_net request_frame"
  have d: "mdata ?s 24 = request_frame" "mb_len (n_mbufs ?s 24) = 42" "n_txqs ?s = (\<lambda>_. \<lparr>tq_cap = 8, tq_bufs = []\<rparr>)"
    "n_tbl ?s = (\<lambda>_. [])"
    by (simp_all add: sample_net_def request_frame_facts)
  have v: "arp_valid ?s 24 14"
    unfolding arp_valid_def mbuf_enough_space_def d Let_def using request_frame_facts by simp
  have "length (c_mac sample_env) = 6" by (simp add: sample_env_def)
  moreover have "arp_lookup_bucket ?s [] a = None" for a by (simp add: arp_lookup_bucket_def)
  ultimately show ?thesis
    using arp_request_answered [where d = request_frame and s = ?s and pkt = 24 and ip = "0x0A000002" and env = sample_env
        and F = "{8, 16}" and G = "{8, 16}" and M = "{8, 16}"]
      d v request_frame_facts sample_net_inv by auto
qed


end
