(* ===== verification/Spec2Isabelle.thy ===== *)
theory Spec2Isabelle
  imports IX_Prelude Freelist Crc32 City Blk_Index Dummy_Dev Index_Init Block_IO Kv_Store Pbuf_Props Chksum_Props Ip4_Addr Mempool Net_Props
begin

text \<open>
  A verification library for the IX dataplane kernel with its key/value block store.
\<close>

end
